(* ===== verification/Prelude.thy ===== *)
theory Prelude
  imports Main "HOL-Library.Word" "HOL-Library.Monad_Syntax"
begin

text \<open>
  Shared ground of the development: the memory model of the C++ code and the generic
  facts about it.

  A buffer is a list of bytes whose length is the memory that really is there; a C++
  pointer parameter is a buffer and an offset into it, and a capacity parameter is a
  number the callee believes. Every access goes through \<open>mem_read\<close> and
  \<open>mem_write\<close>, which answer \<open>None\<close> where the C++ program would touch memory
  outside the buffer (undefined behaviour). A subtraction on \<open>size_t\<close> that would
  wrap below zero is a fault of the same kind (\<open>size_sub\<close>). So a model of type
  \<open>'a option\<close> that is shown to return \<open>Some\<close> is a proof of memory safety, and
  the ordinary errors of the code are values inside the \<open>Some\<close>.
\<close>

unbundle bit_operations_syntax

section \<open>Bytes, buffers, faults\<close>

type_synonym byte = "8 word"
type_synonym buf = "byte list"

named_theorems codec_sel \<open>the fields of the codecs, packs and their promises\<close>
named_theorems blit_simps \<open>rules that normalise reads and writes of buffers\<close>

definition mem_read :: "'a list \<Rightarrow> nat \<Rightarrow> 'a option" where
  "mem_read b i = (if i < length b then Some (b ! i) else None)"

definition mem_write :: "'a list \<Rightarrow> nat \<Rightarrow> 'a \<Rightarrow> 'a list option" where
  "mem_write b i v = (if i < length b then Some (b[i := v]) else None)"

definition size_sub :: "nat \<Rightarrow> nat \<Rightarrow> nat option" where
  "size_sub a b = (if b \<le> a then Some (a - b) else None)"

lemma mem_read_Some [simp]: "i < length b \<Longrightarrow> mem_read b i = Some (b ! i)"
  by (simp add: mem_read_def)

lemma mem_write_Some [simp]: "i < length b \<Longrightarrow> mem_write b i v = Some (b[i := v])"
  by (simp add: mem_write_def)

lemma size_sub_Some [simp]: "b \<le> a \<Longrightarrow> size_sub a b = Some (a - b)"
  by (simp add: size_sub_def)

lemma mem_read_append [simp]:
  "mem_read (xs @ y # ys) (length xs) = Some y"
  by (simp add: mem_read_def)

lemma mem_write_append [simp]:
  "mem_write (xs @ y # ys) (length xs) v = Some (xs @ v # ys)"
  by (simp add: mem_write_def)

section \<open>Writing a run of bytes\<close>

text \<open>\<open>blit p bs buf\<close> is the buffer after \<open>bs\<close> has been stored at offset \<open>p\<close>.\<close>

definition blit :: "nat \<Rightarrow> 'a list \<Rightarrow> 'a list \<Rightarrow> 'a list" where
  "blit p bs b = take p b @ bs @ drop (p + length bs) b"

lemma length_blit [blit_simps]:
  "p + length bs \<le> length b \<Longrightarrow> length (blit p bs b) = length b"
  by (simp add: blit_def)

lemma blit_Nil [simp]: "blit p [] b = b"
  by (simp add: blit_def)

lemma list_update_blit: "p < length b \<Longrightarrow> b[p := v] = blit p [v] b"
  by (simp add: blit_def upd_conv_take_nth_drop)

lemma mem_write_blit: "p < length b \<Longrightarrow> mem_write b p v = Some (blit p [v] b)"
  by (simp add: list_update_blit)

lemma blit_blit_append:
  assumes "p + length xs + length ys \<le> length b"
  shows "blit (p + length xs) ys (blit p xs b) = blit p (xs @ ys) b"
  using assms
  by (cases xs) (auto simp add: blit_def min_def add.assoc add.commute add.left_commute)

lemma blit_snoc_write:
  assumes "p + length xs < length b"
  shows "mem_write (blit p xs b) (p + length xs) v = Some (blit p (xs @ [v]) b)"
proof -
  have "p + length xs < length (blit p xs b)" using assms by (simp add: length_blit)
  then show ?thesis
    using assms blit_blit_append [of p xs "[v]" b] by (simp only: mem_write_blit) simp
qed

lemma take_blit_before [blit_simps]:
  assumes "n \<le> p" "p + length bs \<le> length b"
  shows "take n (blit p bs b) = take n b"
  using assms by (simp add: blit_def min_def)

lemma drop_blit_after [blit_simps]:
  assumes "p + length bs \<le> n" "p + length bs \<le> length b"
  shows "drop n (blit p bs b) = drop n b"
  using assms by (simp add: blit_def)

lemma slice_blit [blit_simps]:
  assumes "p + length bs \<le> length b"
  shows "take (length bs) (drop p (blit p bs b)) = bs"
  using assms by (simp add: blit_def)

lemma nth_blit_before [blit_simps]:
  assumes "i < p" "p + length bs \<le> length b"
  shows "blit p bs b ! i = b ! i"
  using assms by (simp add: blit_def nth_append)

lemma nth_blit_inside [blit_simps]:
  assumes "i < length bs" "p + length bs \<le> length b"
  shows "blit p bs b ! (p + i) = bs ! i"
  using assms by (simp add: blit_def nth_append)

text \<open>\<open>confined lo hi d b\<close>: the buffer \<open>d\<close> differs from \<open>b\<close> at most between \<open>lo\<close> and \<open>hi\<close>.\<close>

definition confined :: "nat \<Rightarrow> nat \<Rightarrow> 'a list \<Rightarrow> 'a list \<Rightarrow> bool" where
  "confined lo hi d b \<longleftrightarrow> length d = length b \<and> take lo d = take lo b \<and> drop hi d = drop hi b"

lemma confined_refl [simp, intro]: "confined lo hi b b"
  by (simp add: confined_def)

lemma confined_trans: "\<lbrakk>confined lo hi d c; confined lo hi c b\<rbrakk> \<Longrightarrow> confined lo hi d b"
  by (simp add: confined_def)

lemma take_eq_mono: "\<lbrakk>take n xs = take n ys; m \<le> n\<rbrakk> \<Longrightarrow> take m xs = take m ys"
  by (metis min.absorb1 take_take)

lemma drop_eq_up: "\<lbrakk>drop n xs = drop n ys; n \<le> m\<rbrakk> \<Longrightarrow> drop m xs = drop m ys"
  by (metis drop_drop le_add_diff_inverse2)

lemma confined_mono: "\<lbrakk>confined lo hi d b; lo' \<le> lo; hi \<le> hi'\<rbrakk> \<Longrightarrow> confined lo' hi' d b"
  unfolding confined_def by (meson take_eq_mono drop_eq_up)

lemma confined_blit:
  "\<lbrakk>lo \<le> p; p + length bs \<le> hi; p + length bs \<le> length b\<rbrakk> \<Longrightarrow> confined lo hi (blit p bs b) b"
  by (simp add: confined_def length_blit take_blit_before drop_blit_after)

lemma confined_length: "confined lo hi d b \<Longrightarrow> length d = length b"
  by (simp add: confined_def)

lemma length_concat_fixed:
  "(\<And>x. x \<in> set xs \<Longrightarrow> length (f x) = k) \<Longrightarrow> length (concat (map f xs)) = length xs * k"
  by (induction xs) simp_all

section \<open>Words\<close>

lemma unat_byte_less [simp]: "unat (b :: byte) < 256"
  using unsigned_less [of b] by simp

lemma unat_byte_le [simp]: "unat (b :: byte) \<le> 255"
  using unat_byte_less [of b] by linarith

lemma unat_word16_less [simp]: "unat (b :: 16 word) < 65536"
  using unsigned_less [of b] by simp

lemma unat_of_nat_byte: "n < 256 \<Longrightarrow> unat (of_nat n :: byte) = n"
  by (simp add: unat_of_nat)

lemma bit_byte_ge [simp]: "8 \<le> n \<Longrightarrow> \<not> bit (b :: byte) n"
  by (auto dest: bit_imp_le_length)

lemma word_xor_cancel:
  "x XOR y = x XOR z \<longleftrightarrow> y = z" "y XOR x = z XOR x \<longleftrightarrow> y = z" for x :: "'a::len word"
  by (metis xor.assoc xor_self_eq xor.left_neutral)
     (metis xor.assoc xor_self_eq xor.right_neutral)

lemma unat_Suc_less:
  fixes i :: "'a::len word"
  assumes "i < c"
  shows "unat (i + 1) = Suc (unat i)"
proof -
  have i: "unat i < unat c" using assms by (simp add: word_less_nat_alt)
  have c: "unat c < 2 ^ LENGTH('a)" by (rule unsigned_less)
  from i c have "Suc (unat i) < 2 ^ LENGTH('a)" by linarith
  then show ?thesis by (simp add: unat_word_ariths)
qed

lemma drop_Cons_nth: "drop n xs = x # ys \<Longrightarrow> n < length xs \<and> xs ! n = x \<and> drop (Suc n) xs = ys"
  by (cases "n < length xs") (auto simp: Cons_nth_drop_Suc [symmetric])

end
