(* ===== verification/Codec.thy ===== *)
theory Codec
  imports Prelude
begin

text \<open>
  Typed (de)serialisation of scalars: \<open>src/include/eup/codec.hpp\<close>. A specialisation
  \<open>Codec<T>\<close> of the trait is a value of the record \<open>'a Codec\<close>: its two constants, its two
  functions, and the value-initialised \<open>T{}\<close> its users decode into. A pointer argument is
  a buffer and an offset; a reference argument that the function sets is returned, \<open>None\<close>
  standing for the \<open>false\<close> result (\<open>written\<close> and \<open>consumed\<close> are then not set).

  \<open>'a Spec\<close> is what a codec promises, on byte lists: which values it can send (\<open>valid\<close>), the
  bytes (\<open>ser\<close>), what a prefix of a byte list parses to (\<open>par\<close>), and the value that comes
  back (\<open>canon\<close>). The locale \<open>codec\<close> says that a codec keeps the promise, \<open>fixed_codec\<close> and
  \<open>strict_codec\<close> are stronger promises; the scalar codecs are their instances.
\<close>

section \<open>The trait\<close>

record 'a Codec =
  kMaxSize :: nat
  kFixed :: bool
  encode :: "'a \<Rightarrow> buf \<Rightarrow> nat \<Rightarrow> nat \<Rightarrow> (nat option \<times> buf) option"
  decode :: "buf \<Rightarrow> nat \<Rightarrow> nat \<Rightarrow> 'a \<Rightarrow> (nat option \<times> 'a) option"
  initial :: 'a

record 'a Spec =
  valid :: "'a \<Rightarrow> bool"
  canon :: "'a \<Rightarrow> 'a"
  ser :: "'a \<Rightarrow> byte list"
  par :: "byte list \<Rightarrow> ('a \<times> nat) option"

locale codec =
  fixes c :: "'a Codec" and s :: "'a Spec"
  assumes enc_fits: "\<lbrakk>valid s v; p + cap \<le> length out; length (ser s v) \<le> cap\<rbrakk> \<Longrightarrow>
      encode c v out p cap = Some (Some (length (ser s v)), blit p (ser s v) out)"
    and enc_full: "\<lbrakk>valid s v; p + cap \<le> length out; cap < length (ser s v)\<rbrakk> \<Longrightarrow>
      \<exists>d. encode c v out p cap = Some (None, d) \<and> confined p (p + cap) d out"
    and dec_some: "\<lbrakk>p + avail \<le> length b; par s (take avail (drop p b)) = Some (v, n)\<rbrakk> \<Longrightarrow>
      decode c b p avail (initial c) = Some (Some n, v)"
    and dec_none: "\<lbrakk>p + avail \<le> length b; par s (take avail (drop p b)) = None\<rbrakk> \<Longrightarrow>
      \<exists>x. decode c b p avail (initial c) = Some (None, x)"
    and par_ser: "valid s v \<Longrightarrow> par s (ser s v @ rest) = Some (canon s v, length (ser s v))"
    and par_bound: "par s bs = Some (v, n) \<Longrightarrow> n \<le> length bs"
    and par_valid: "par s bs = Some (v, n) \<Longrightarrow> valid s v \<and> canon s v = v"
    and ser_canon: "valid s v \<Longrightarrow> ser s (canon s v) = ser s v"
    and ser_bound: "valid s v \<Longrightarrow> length (ser s v) \<le> kMaxSize c"
    and initial_valid: "valid s (initial c)"
begin

lemma canon_valid: "valid s v \<Longrightarrow> valid s (canon s v) \<and> canon s (canon s v) = canon s v"
  using par_ser [of v "[]"] par_valid by simp

lemma enc_safe:
  "\<lbrakk>valid s v; p + cap \<le> length out\<rbrakk> \<Longrightarrow>
   \<exists>w d. encode c v out p cap = Some (w, d) \<and> confined p (p + cap) d out"
  using enc_fits [of v p cap out] enc_full [of v p cap out]
  by (cases "length (ser s v) \<le> cap") (auto intro: confined_blit)

lemma dec_safe:
  "p + avail \<le> length b \<Longrightarrow> \<exists>k x. decode c b p avail (initial c) = Some (k, x)"
  using dec_some dec_none by (cases "par s (take avail (drop p b))") fastforce+

lemma enc_dec:
  assumes "valid s v" "p + cap \<le> length out" "kMaxSize c \<le> cap"
  shows "\<exists>n d. encode c v out p cap = Some (Some n, d) \<and> n \<le> kMaxSize c \<and>
    (\<forall>avail. n \<le> avail \<and> p + avail \<le> length d \<longrightarrow>
      decode c d p avail (initial c) = Some (Some n, canon s v))"
proof (intro exI conjI)
  let ?n = "length (ser s v)" and ?d = "blit p (ser s v) out"
  have n: "?n \<le> kMaxSize c" using ser_bound assms(1) .
  then show "encode c v out p cap = Some (Some ?n, ?d)" "?n \<le> kMaxSize c"
    using assms by (simp_all add: enc_fits)
  show "\<forall>avail. ?n \<le> avail \<and> p + avail \<le> length ?d \<longrightarrow>
      decode c ?d p avail (initial c) = Some (Some ?n, canon s v)"
  proof (intro allI impI)
    fix avail assume a: "?n \<le> avail \<and> p + avail \<le> length ?d"
    then have "take avail (drop p ?d) = ser s v @ take (avail - ?n) (drop (p + ?n) out)"
      using assms n by (simp add: blit_def)
    then show "decode c ?d p avail (initial c) = Some (Some ?n, canon s v)"
      using a par_ser [OF assms(1)] by (simp add: dec_some)
  qed
qed

end

text \<open>Every value has the same size, and that many bytes always parse.\<close>

locale fixed_codec = codec +
  assumes ser_fixed: "valid s v \<Longrightarrow> length (ser s v) = kMaxSize c"
    and par_fixed: "par s bs = None \<longleftrightarrow> length bs < kMaxSize c"
    and fixed_flag: "kFixed c"

text \<open>No two byte strings parse to the same value.\<close>

locale strict_codec = codec +
  assumes par_strict: "par s bs = Some (v, n) \<Longrightarrow> take n bs = ser s v"

section \<open>Unsigned integers\<close>

abbreviation sizeof :: "'a::len0 itself \<Rightarrow> nat" where
  "sizeof t \<equiv> len_of t div 8"

function uint_put :: "nat \<Rightarrow> 'a::len word \<Rightarrow> buf \<Rightarrow> nat \<Rightarrow> nat \<Rightarrow> buf option" where
  "uint_put i v out p sz =
     (if i < sz then do {
        out \<leftarrow> mem_write out (p + i) (ucast (v AND 0xFF));
        uint_put (i + 1) (drop_bit 8 v) out p sz
      } else Some out)"
  by pat_completeness auto
termination by (relation "measure (\<lambda>(i, v, out, p, sz). sz - i)") auto

declare uint_put.simps [simp del]

definition UintCodec_encode :: "'a::len word \<Rightarrow> buf \<Rightarrow> nat \<Rightarrow> nat \<Rightarrow> (nat option \<times> buf) option" where
  "UintCodec_encode v out p cap =
     (if cap < sizeof TYPE('a) then Some (None, out)
      else do {
        out \<leftarrow> uint_put 0 v out p (sizeof TYPE('a));
        Some (Some (sizeof TYPE('a)), out)
      })"

function uint_get :: "nat \<Rightarrow> 'a::len word \<Rightarrow> buf \<Rightarrow> nat \<Rightarrow> nat \<Rightarrow> 'a word option" where
  "uint_get i v b p sz =
     (if i < sz then do {
        x \<leftarrow> mem_read b (p + i);
        uint_get (i + 1) (v OR push_bit (8 * i) (ucast x)) b p sz
      } else Some v)"
  by pat_completeness auto
termination by (relation "measure (\<lambda>(i, v, b, p, sz). sz - i)") auto

declare uint_get.simps [simp del]

definition UintCodec_decode ::
  "buf \<Rightarrow> nat \<Rightarrow> nat \<Rightarrow> 'a::len word \<Rightarrow> (nat option \<times> 'a word) option" where
  "UintCodec_decode b p avail out =
     (if avail < sizeof TYPE('a) then Some (None, out)
      else do {
        v \<leftarrow> uint_get 0 0 b p (sizeof TYPE('a));
        Some (Some (sizeof TYPE('a)), v)
      })"

definition UintCodec :: "'a::len word Codec" where
  "UintCodec = \<lparr>kMaxSize = sizeof TYPE('a), kFixed = True,
     encode = UintCodec_encode, decode = UintCodec_decode, initial = 0\<rparr>"

subsection \<open>Little-endian byte lists\<close>

definition le_bytes :: "nat \<Rightarrow> 'a::len word \<Rightarrow> byte list" where
  "le_bytes n v = map (\<lambda>i. ucast (drop_bit (8 * i) v)) [0..<n]"

fun le_word :: "byte list \<Rightarrow> 'a::len word" where
  "le_word [] = 0"
| "le_word (x # xs) = ucast x OR push_bit 8 (le_word xs)"

lemma length_le_bytes [simp]: "length (le_bytes n v) = n"
  by (simp add: le_bytes_def)

lemma bit_le_word:
  "bit (le_word xs :: 'a::len word) k \<longleftrightarrow>
     k < LENGTH('a) \<and> k div 8 < length xs \<and> bit (xs ! (k div 8)) (k mod 8)"
proof (induction xs arbitrary: k)
  case (Cons x xs)
  show ?case
  proof (cases "k < 8")
    case True
    then show ?thesis by (auto simp: bit_simps)
  next
    case False
    then obtain j where "k = j + 8" by (metis add.commute le_add_diff_inverse not_less)
    then show ?thesis using Cons.IH [of j] by (auto simp: bit_simps div_add1_eq)
  qed
qed simp

lemma le_word_bytes: "LENGTH('a) \<le> 8 * n \<Longrightarrow> le_word (le_bytes n v) = (v :: 'a::len word)"
  by (rule bit_word_eqI) (auto simp: bit_le_word le_bytes_def bit_simps less_mult_imp_div_less)

lemma le_bytes_word:
  "8 * length xs \<le> LENGTH('a) \<Longrightarrow> le_bytes (length xs) (le_word xs :: 'a::len word) = xs"
proof (rule nth_equalityI)
  fix i assume len: "8 * length xs \<le> LENGTH('a)" "i < length (le_bytes (length xs) (le_word xs :: 'a word))"
  show "le_bytes (length xs) (le_word xs :: 'a word) ! i = xs ! i"
  proof (rule bit_word_eqI)
    fix n assume "n < LENGTH(8)"
    then have "n < 8" by simp
    moreover have "8 * i + n < LENGTH('a)" using len \<open>n < 8\<close> by simp
    ultimately show "bit (le_bytes (length xs) (le_word xs :: 'a word) ! i) n = bit (xs ! i) n"
      using len by (simp add: le_bytes_def bit_simps bit_le_word)
  qed
qed simp

subsection \<open>\<open>UintCodec\<close> keeps its promise\<close>

definition uint_spec :: "'a::len word Spec" where
  "uint_spec = \<lparr>valid = (\<lambda>_. True), canon = (\<lambda>v. v), ser = le_bytes (sizeof TYPE('a)),
     par = (\<lambda>bs. if length bs < sizeof TYPE('a) then None
                 else Some (le_word (take (sizeof TYPE('a)) bs), sizeof TYPE('a)))\<rparr>"

lemma ucast_low_byte: "(ucast (v AND 0xFF) :: byte) = ucast (v :: 'a::len word)"
proof -
  have "v AND 0xFF = take_bit 8 v" by (simp add: take_bit_eq_mask mask_eq_exp_minus_1)
  then show ?thesis by (auto intro!: bit_word_eqI simp: bit_simps dest: bit_imp_le_length)
qed

lemma drop_le_bytes:
  "i < n \<Longrightarrow> drop i (le_bytes n v) = ucast (drop_bit (8 * i) v) # drop (Suc i) (le_bytes n v)"
  by (simp add: Cons_nth_drop_Suc [symmetric] le_bytes_def)

lemma uint_put_blit:
  "\<lbrakk>i \<le> sz; p + sz \<le> length out\<rbrakk> \<Longrightarrow>
   uint_put i (drop_bit (8 * i) v) out p sz = Some (blit (p + i) (drop i (le_bytes sz v)) out)"
proof (induction "sz - i" arbitrary: i out)
  case 0
  then show ?case by (subst uint_put.simps) simp
next
  case (Suc k)
  then have i: "i < sz" by simp
  have "uint_put i (drop_bit (8 * i) v) out p sz =
      uint_put (i + 1) (drop_bit (8 * (i + 1)) v) (blit (p + i) [ucast (drop_bit (8 * i) v)] out) p sz"
    using i Suc by (subst uint_put.simps)
      (simp add: list_update_blit ucast_low_byte drop_bit_drop_bit add.commute)
  also have "\<dots> = Some (blit (p + i + 1) (drop (Suc i) (le_bytes sz v))
      (blit (p + i) [ucast (drop_bit (8 * i) v)] out))"
    using i Suc by (subst Suc.hyps(1)) (simp_all add: length_blit)
  also have "\<dots> = Some (blit (p + i) (drop i (le_bytes sz v)) out)"
    using i Suc blit_blit_append [of "p + i" "[ucast (drop_bit (8 * i) v)]" "drop (Suc i) (le_bytes sz v)" out]
    by (simp add: drop_le_bytes)
  finally show ?case .
qed

lemma uint_get_word:
  assumes "i \<le> sz" "p + sz \<le> length b"
  shows "uint_get i v b p sz = Some (v OR push_bit (8 * i) (le_word (take (sz - i) (drop (p + i) b))))"
  using assms
proof (induction "sz - i" arbitrary: i v)
  case 0
  then show ?case by (subst uint_get.simps) simp
next
  case (Suc k)
  then have i: "i < sz" by simp
  have "take (sz - i) (drop (p + i) b) = b ! (p + i) # take (sz - Suc i) (drop (Suc (p + i)) b)"
    using i Suc.prems by (simp add: Cons_nth_drop_Suc [symmetric] Suc_diff_Suc [symmetric])
  then show ?case
    using i Suc.prems Suc.hyps by (subst uint_get.simps) (simp add: push_bit_or ac_simps)
qed

lemma uint_codec_laws:
  assumes "8 dvd LENGTH('a::len)"
  shows "fixed_codec (UintCodec :: 'a word Codec) uint_spec"
    "strict_codec (UintCodec :: 'a word Codec) uint_spec"
proof -
  have L: "8 * sizeof TYPE('a) = LENGTH('a)" using assms by simp
  have put: "uint_put 0 v out p (sizeof TYPE('a)) = Some (blit p (le_bytes (sizeof TYPE('a)) v) out)"
    if "p + sizeof TYPE('a) \<le> length out" for v :: "'a word" and out p
    using uint_put_blit [of 0 "sizeof TYPE('a)" p out v] that by simp
  have get: "uint_get 0 0 b p (sizeof TYPE('a)) = Some (le_word (take (sizeof TYPE('a)) (drop p b)) :: 'a word)"
    if "p + sizeof TYPE('a) \<le> length b" for b p
    using uint_get_word [of 0 "sizeof TYPE('a)" p b 0] that by simp
  have base: "codec (UintCodec :: 'a word Codec) uint_spec"
    using L by unfold_locales
      (auto simp: UintCodec_def uint_spec_def UintCodec_encode_def UintCodec_decode_def put get
        le_word_bytes min_def split: if_splits)
  show "fixed_codec (UintCodec :: 'a word Codec) uint_spec"
    by (intro fixed_codec.intro base, unfold_locales) (auto simp: UintCodec_def uint_spec_def)
  show "strict_codec (UintCodec :: 'a word Codec) uint_spec"
  proof (intro strict_codec.intro base, unfold_locales)
    fix bs n and v :: "'a word" assume "par uint_spec bs = Some (v, n)"
    then have "n = sizeof TYPE('a)" "v = le_word (take n bs)" "length (take n bs) = n"
      by (auto simp: uint_spec_def split: if_splits)
    then show "take n bs = ser uint_spec v"
      using le_bytes_word [of "take n bs", where 'a = 'a] L by (simp add: uint_spec_def)
  qed
qed

abbreviation u8_codec :: "8 word Codec" where "u8_codec \<equiv> UintCodec"
abbreviation u16_codec :: "16 word Codec" where "u16_codec \<equiv> UintCodec"
abbreviation u32_codec :: "32 word Codec" where "u32_codec \<equiv> UintCodec"
abbreviation u64_codec :: "64 word Codec" where "u64_codec \<equiv> UintCodec"

interpretation u8: fixed_codec u8_codec uint_spec by (rule uint_codec_laws) simp
interpretation u16: fixed_codec u16_codec uint_spec by (rule uint_codec_laws) simp
interpretation u32: fixed_codec u32_codec uint_spec by (rule uint_codec_laws) simp
interpretation u64: fixed_codec u64_codec uint_spec by (rule uint_codec_laws) simp

interpretation u8_strict: strict_codec u8_codec uint_spec by (rule uint_codec_laws) simp
interpretation u16_strict: strict_codec u16_codec uint_spec by (rule uint_codec_laws) simp
interpretation u32_strict: strict_codec u32_codec uint_spec by (rule uint_codec_laws) simp
interpretation u64_strict: strict_codec u64_codec uint_spec by (rule uint_codec_laws) simp

section \<open>Signed integers, floating point, enumerations\<close>

text \<open>
  These codecs cast to the unsigned type of the same width and back. A signed integer is an
  \<open>int\<close> within its range; the casts are reduction modulo \<open>2^w\<close> and the two's-complement
  reading. A floating-point value is known to the code by its object representation only
  (\<open>memcpy\<close>), so it is modelled by it.
\<close>

definition IntCodec_encode :: "'u::len itself \<Rightarrow> int \<Rightarrow> buf \<Rightarrow> nat \<Rightarrow> nat \<Rightarrow> (nat option \<times> buf) option" where
  "IntCodec_encode t v out p cap = UintCodec_encode (word_of_int v :: 'u word) out p cap"

definition IntCodec_decode :: "'u::len itself \<Rightarrow> buf \<Rightarrow> nat \<Rightarrow> nat \<Rightarrow> int \<Rightarrow> (nat option \<times> int) option" where
  "IntCodec_decode t b p avail out =
     do {
       (consumed, u) \<leftarrow> UintCodec_decode b p avail (0 :: 'u word);
       case consumed of
         None \<Rightarrow> Some (None, out)
       | Some n \<Rightarrow> Some (Some n, sint u)
     }"

definition IntCodec :: "'u::len itself \<Rightarrow> int Codec" where
  "IntCodec t = \<lparr>kMaxSize = sizeof TYPE('u), kFixed = True,
     encode = IntCodec_encode t, decode = IntCodec_decode t, initial = 0\<rparr>"

datatype 'w fp = FP (fp_bits: 'w)

definition FloatCodec_encode :: "'u::len word fp \<Rightarrow> buf \<Rightarrow> nat \<Rightarrow> nat \<Rightarrow> (nat option \<times> buf) option" where
  "FloatCodec_encode v out p cap = (let bits = fp_bits v in UintCodec_encode bits out p cap)"

definition FloatCodec_decode ::
  "buf \<Rightarrow> nat \<Rightarrow> nat \<Rightarrow> 'u::len word fp \<Rightarrow> (nat option \<times> 'u word fp) option" where
  "FloatCodec_decode b p avail out =
     do {
       (consumed, bits) \<leftarrow> UintCodec_decode b p avail 0;
       case consumed of
         None \<Rightarrow> Some (None, out)
       | Some n \<Rightarrow> Some (Some n, FP bits)
     }"

definition FloatCodec :: "'u::len word fp Codec" where
  "FloatCodec = \<lparr>kMaxSize = sizeof TYPE('u), kFixed = True,
     encode = FloatCodec_encode, decode = FloatCodec_decode, initial = FP 0\<rparr>"

text \<open>An enumeration is given by its casts to and from the underlying type's values.\<close>

definition EnumCodec_encode ::
  "('e \<Rightarrow> 'u) \<Rightarrow> 'u Codec \<Rightarrow> 'e \<Rightarrow> buf \<Rightarrow> nat \<Rightarrow> nat \<Rightarrow> (nat option \<times> buf) option" where
  "EnumCodec_encode to cu v out p cap = encode cu (to v) out p cap"

definition EnumCodec_decode ::
  "('u \<Rightarrow> 'e) \<Rightarrow> 'u Codec \<Rightarrow> buf \<Rightarrow> nat \<Rightarrow> nat \<Rightarrow> 'e \<Rightarrow> (nat option \<times> 'e) option" where
  "EnumCodec_decode of_u cu b p avail out =
     do {
       (consumed, u) \<leftarrow> decode cu b p avail (initial cu);
       case consumed of
         None \<Rightarrow> Some (None, out)
       | Some n \<Rightarrow> Some (Some n, of_u u)
     }"

definition EnumCodec :: "('e \<Rightarrow> 'u) \<Rightarrow> ('u \<Rightarrow> 'e) \<Rightarrow> 'u Codec \<Rightarrow> 'e Codec" where
  "EnumCodec to of_u cu = \<lparr>kMaxSize = kMaxSize cu, kFixed = True,
     encode = EnumCodec_encode to cu, decode = EnumCodec_decode of_u cu, initial = of_u (initial cu)\<rparr>"

lemma IntCodec_enum:
  "IntCodec TYPE('u::len) = EnumCodec (word_of_int :: int \<Rightarrow> 'u word) sint UintCodec"
  by (simp add: IntCodec_def EnumCodec_def UintCodec_def fun_eq_iff IntCodec_encode_def EnumCodec_encode_def
      IntCodec_decode_def EnumCodec_decode_def)

lemma FloatCodec_enum: "(FloatCodec :: 'u::len word fp Codec) = EnumCodec fp_bits FP UintCodec"
  by (simp add: FloatCodec_def EnumCodec_def UintCodec_def fun_eq_iff FloatCodec_encode_def EnumCodec_encode_def
      FloatCodec_decode_def EnumCodec_decode_def)

definition enum_spec :: "('e \<Rightarrow> bool) \<Rightarrow> ('e \<Rightarrow> 'u) \<Rightarrow> ('u \<Rightarrow> 'e) \<Rightarrow> 'u Spec \<Rightarrow> 'e Spec" where
  "enum_spec ok to of_u s = \<lparr>valid = ok, canon = (\<lambda>v. v), ser = (\<lambda>v. ser s (to v)),
     par = (\<lambda>bs. map_option (\<lambda>(u, n). (of_u u, n)) (par s bs))\<rparr>"

lemma enum_codec_laws:
  assumes u: "fixed_codec cu s" "strict_codec cu s"
    and ok: "\<And>v. ok v \<Longrightarrow> valid s (to v) \<and> canon s (to v) = to v \<and> of_u (to v) = v"
    and of_u: "\<And>u. valid s u \<Longrightarrow> ok (of_u u) \<and> to (of_u u) = u"
    and c: "codec cu s"
  shows "fixed_codec (EnumCodec to of_u cu) (enum_spec ok to of_u s)"
    "strict_codec (EnumCodec to of_u cu) (enum_spec ok to of_u s)"
proof -
  have base: "codec (EnumCodec to of_u cu) (enum_spec ok to of_u s)"
  proof
    show "\<exists>x. decode (EnumCodec to of_u cu) b p avail (initial (EnumCodec to of_u cu)) = Some (None, x)"
      if "p + avail \<le> length b" "par (enum_spec ok to of_u s) (take avail (drop p b)) = None" for p avail b
      using codec.dec_none [OF c that(1)] that(2)
      by (auto simp: EnumCodec_def EnumCodec_decode_def enum_spec_def)
    show "decode (EnumCodec to of_u cu) b p avail (initial (EnumCodec to of_u cu)) = Some (Some n, v)"
      if "p + avail \<le> length b" "par (enum_spec ok to of_u s) (take avail (drop p b)) = Some (v, n)" for p avail b v n
      using codec.dec_some [OF c that(1)] that(2)
      by (auto simp: EnumCodec_def EnumCodec_decode_def enum_spec_def)
  qed (auto simp: EnumCodec_def EnumCodec_encode_def enum_spec_def ok of_u codec.enc_fits [OF c]
      codec.enc_full [OF c] codec.par_ser [OF c] codec.initial_valid [OF c] codec.ser_bound [OF c]
      dest: codec.par_bound [OF c] codec.par_valid [OF c])
  show "fixed_codec (EnumCodec to of_u cu) (enum_spec ok to of_u s)"
    by (intro fixed_codec.intro base, unfold_locales)
       (auto simp: EnumCodec_def enum_spec_def ok fixed_codec.ser_fixed [OF u(1)] fixed_codec.par_fixed [OF u(1)])
  show "strict_codec (EnumCodec to of_u cu) (enum_spec ok to of_u s)"
    by (intro strict_codec.intro base, unfold_locales)
       (auto simp: enum_spec_def of_u codec.par_valid [OF c] dest: strict_codec.par_strict [OF u(2)] codec.par_valid [OF c])
qed

definition int_ok :: "'u::len itself \<Rightarrow> int \<Rightarrow> bool" where
  "int_ok t v \<longleftrightarrow> - (2 ^ (LENGTH('u) - 1)) \<le> v \<and> v < 2 ^ (LENGTH('u) - 1)"

definition int_spec :: "'u::len itself \<Rightarrow> int Spec" where
  "int_spec t = enum_spec (int_ok t) (word_of_int :: int \<Rightarrow> 'u word) sint uint_spec"

definition float_spec :: "'u::len word fp Spec" where
  "float_spec = enum_spec (\<lambda>_. True) fp_bits FP uint_spec"

lemma int_ok_sint: "int_ok TYPE('u::len) (sint (u :: 'u word))"
  using sint_ge [of u] sint_lt [of u] by (simp add: int_ok_def)

lemma sint_word_of_int: "int_ok TYPE('u::len) v \<Longrightarrow> sint (word_of_int v :: 'u word) = v"
  unfolding int_ok_def sint_sbintrunc' by (intro signed_take_bit_int_eq_self) simp_all

lemma int_codec_laws:
  assumes "8 dvd LENGTH('u::len)"
  shows "fixed_codec (IntCodec TYPE('u)) (int_spec TYPE('u))"
    "strict_codec (IntCodec TYPE('u)) (int_spec TYPE('u))"
  unfolding IntCodec_enum int_spec_def using uint_codec_laws [OF assms]
  by (rule enum_codec_laws; simp add: int_ok_sint sint_word_of_int uint_spec_def fixed_codec.axioms)+

lemma float_codec_laws:
  assumes "8 dvd LENGTH('u::len)"
  shows "fixed_codec (FloatCodec :: 'u word fp Codec) float_spec"
    "strict_codec (FloatCodec :: 'u word fp Codec) float_spec"
  unfolding FloatCodec_enum float_spec_def using uint_codec_laws [OF assms]
  by (rule enum_codec_laws; simp add: uint_spec_def fixed_codec.axioms)+

abbreviation i8_codec :: "int Codec" where "i8_codec \<equiv> IntCodec TYPE(8)"
abbreviation i16_codec :: "int Codec" where "i16_codec \<equiv> IntCodec TYPE(16)"
abbreviation i32_codec :: "int Codec" where "i32_codec \<equiv> IntCodec TYPE(32)"
abbreviation i64_codec :: "int Codec" where "i64_codec \<equiv> IntCodec TYPE(64)"
abbreviation float_codec :: "32 word fp Codec" where "float_codec \<equiv> FloatCodec"
abbreviation double_codec :: "64 word fp Codec" where "double_codec \<equiv> FloatCodec"

interpretation i8: fixed_codec i8_codec "int_spec TYPE(8)" by (rule int_codec_laws) simp
interpretation i16: fixed_codec i16_codec "int_spec TYPE(16)" by (rule int_codec_laws) simp
interpretation i32: fixed_codec i32_codec "int_spec TYPE(32)" by (rule int_codec_laws) simp
interpretation i64: fixed_codec i64_codec "int_spec TYPE(64)" by (rule int_codec_laws) simp
interpretation flt: fixed_codec float_codec float_spec by (rule float_codec_laws) simp
interpretation dbl: fixed_codec double_codec float_spec by (rule float_codec_laws) simp

section \<open>Booleans\<close>

definition BoolCodec_encode :: "bool \<Rightarrow> buf \<Rightarrow> nat \<Rightarrow> nat \<Rightarrow> (nat option \<times> buf) option" where
  "BoolCodec_encode v out p cap =
     (if cap < 1 then Some (None, out)
      else do {
        out \<leftarrow> mem_write out p (if v then 1 else 0);
        Some (Some 1, out)
      })"

definition BoolCodec_decode :: "buf \<Rightarrow> nat \<Rightarrow> nat \<Rightarrow> bool \<Rightarrow> (nat option \<times> bool) option" where
  "BoolCodec_decode b p avail out =
     (if avail < 1 then Some (None, out)
      else do {
        x \<leftarrow> mem_read b p;
        Some (Some 1, x \<noteq> 0)
      })"

definition BoolCodec :: "bool Codec" where
  "BoolCodec = \<lparr>kMaxSize = 1, kFixed = True,
     encode = BoolCodec_encode, decode = BoolCodec_decode, initial = False\<rparr>"

definition bool_spec :: "bool Spec" where
  "bool_spec = \<lparr>valid = (\<lambda>_. True), canon = (\<lambda>v. v), ser = (\<lambda>v. [if v then 1 else 0]),
     par = (\<lambda>bs. case bs of [] \<Rightarrow> None | x # _ \<Rightarrow> Some (x \<noteq> 0, 1))\<rparr>"

interpretation bl: fixed_codec BoolCodec bool_spec
proof
  show "decode BoolCodec b p avail (initial BoolCodec) = Some (Some n, v)"
    if "p + avail \<le> length b" "par bool_spec (take avail (drop p b)) = Some (v, n)" for p avail b v n
    using that
    by (cases avail)
       (auto simp: BoolCodec_def BoolCodec_decode_def bool_spec_def Cons_nth_drop_Suc [symmetric]
          split: list.splits)
qed (auto simp: BoolCodec_def BoolCodec_encode_def BoolCodec_decode_def bool_spec_def list_update_blit
    split: list.splits)

lemma scalar_codec_sel [codec_sel]:
  "kMaxSize (UintCodec :: 'a::len word Codec) = sizeof TYPE('a)" "initial (UintCodec :: 'a word Codec) = 0"
  "kMaxSize (IntCodec TYPE('a)) = sizeof TYPE('a)" "initial (IntCodec TYPE('a)) = 0"
  "kMaxSize (FloatCodec :: 'a word fp Codec) = sizeof TYPE('a)" "initial (FloatCodec :: 'a word fp Codec) = FP 0"
  "kMaxSize BoolCodec = 1" "initial BoolCodec = False"
  by (simp_all add: UintCodec_def IntCodec_def FloatCodec_def BoolCodec_def)

lemma scalar_spec_sel [codec_sel]:
  "valid uint_spec (u :: 'a::len word)" "canon uint_spec u = u" "ser uint_spec u = le_bytes (sizeof TYPE('a)) u"
  "valid (int_spec TYPE('a)) v = int_ok TYPE('a) v" "canon (int_spec TYPE('a)) v = v"
  "ser (int_spec TYPE('a)) v = le_bytes (sizeof TYPE('a)) (word_of_int v :: 'a word)"
  "valid float_spec (f :: 'a word fp)" "canon float_spec f = f"
  "valid bool_spec b" "canon bool_spec b = b"
  by (simp_all add: uint_spec_def int_spec_def enum_spec_def float_spec_def bool_spec_def)

section \<open>Properties\<close>

text \<open>Unsigned integers of every width go over the wire little-endian, lowest byte first, in
  exactly \<open>sizeof\<close> bytes, nothing else is written, and they are read back unchanged.\<close>

lemma uint_codec_roundtrip:
  fixes v :: "'a::len word"
  assumes "8 dvd LENGTH('a)" "sizeof TYPE('a) \<le> cap" "p + cap \<le> length out"
  shows "\<exists>d. UintCodec_encode v out p cap = Some (Some (sizeof TYPE('a)), d) \<and>
    confined p (p + sizeof TYPE('a)) d out \<and>
    (\<forall>i < sizeof TYPE('a). d ! (p + i) = ucast (drop_bit (8 * i) v)) \<and>
    UintCodec_decode d p cap 0 = Some (Some (sizeof TYPE('a)), v)"
proof -
  have u: "codec (UintCodec :: 'a word Codec) uint_spec"
    by (rule fixed_codec.axioms(1) [OF uint_codec_laws(1) [OF assms(1)]])
  let ?d = "blit p (ser uint_spec v) out"
  have ser: "ser uint_spec v = le_bytes (sizeof TYPE('a)) v" "length (ser uint_spec v) = sizeof TYPE('a)"
    by (simp_all add: uint_spec_def)
  have "encode UintCodec v out p cap = Some (Some (sizeof TYPE('a)), ?d)"
    using codec.enc_fits [OF u, of v p cap out] assms ser(2) by (simp add: uint_spec_def)
  moreover obtain n d where "encode UintCodec v out p cap = Some (Some n, d)"
      "\<And>avail. n \<le> avail \<Longrightarrow> p + avail \<le> length d \<Longrightarrow> decode UintCodec d p avail 0 = Some (Some n, v)"
    using codec.enc_dec [OF u, of v p cap out] assms by (auto simp: uint_spec_def UintCodec_def)
  ultimately have "UintCodec_encode v out p cap = Some (Some (sizeof TYPE('a)), ?d)"
    "UintCodec_decode ?d p cap 0 = Some (Some (sizeof TYPE('a)), v)"
    using assms ser(2) by (auto simp: UintCodec_def length_blit)
  moreover have "?d ! (p + i) = ucast (drop_bit (8 * i) v)" if "i < sizeof TYPE('a)" for i
    using that ser assms by (simp add: nth_blit_inside) (simp add: le_bytes_def)
  moreover have "confined p (p + sizeof TYPE('a)) ?d out"
    using ser assms by (intro confined_blit) simp_all
  ultimately show ?thesis by blast
qed

text \<open>Signed integers survive the casts to the unsigned type and back over their whole
  range, the most negative value included.\<close>

lemma int_codec_roundtrip:
  assumes "8 dvd LENGTH('u::len)" "- (2 ^ (LENGTH('u) - 1)) \<le> v" "v < 2 ^ (LENGTH('u) - 1)"
    and "sizeof TYPE('u) \<le> cap" "p + cap \<le> length out"
  shows "\<exists>d. IntCodec_encode TYPE('u) v out p cap = Some (Some (sizeof TYPE('u)), d) \<and>
    confined p (p + cap) d out \<and>
    IntCodec_decode TYPE('u) d p cap 0 = Some (Some (sizeof TYPE('u)), v)"
proof -
  note fx = int_codec_laws(1) [OF assms(1)]
  note i = fixed_codec.axioms(1) [OF fx]
  have ok: "valid (int_spec TYPE('u)) v" "canon (int_spec TYPE('u)) v = v"
    using assms by (simp_all add: int_spec_def enum_spec_def int_ok_def)
  have "length (ser (int_spec TYPE('u)) v) = sizeof TYPE('u)"
    using fixed_codec.ser_fixed [OF fx ok(1)] by (simp add: IntCodec_def)
  then show ?thesis
    using codec.enc_fits [OF i ok(1), of p cap out] codec.enc_dec [OF i ok(1), of p cap out] codec.enc_safe [OF i ok(1), of p cap out] ok assms
    by (fastforce simp: IntCodec_def length_blit)
qed

end
