(* ===== verification/Span.thy ===== *)
theory Span
  imports Codec
begin

text \<open>
  Spans: class \<open>InlineArray\<close>, its equality, its codec, \<open>InlineString\<close> and \<open>make_string\<close> of
  \<open>src/include/eup/codec.hpp\<close>. The capacity \<open>N\<close> and the element codec are the template's
  parameters; the locale \<open>span_elem\<close> states its two static assertions. \<open>span_spec\<close> is the
  promise of the span codec, which \<open>span_elem\<close> turns into an instance of \<open>codec\<close>.
\<close>

section \<open>\<open>InlineArray\<close>\<close>

record 'a InlineArray =
  idata :: "'a list"
  isize :: nat

definition InlineArray_init :: "nat \<Rightarrow> 'a \<Rightarrow> 'a InlineArray" where
  "InlineArray_init N x = \<lparr>idata = replicate N x, isize = 0\<rparr>"

definition clear :: "'a InlineArray \<Rightarrow> 'a InlineArray" where
  "clear a = a\<lparr>isize := 0\<rparr>"

definition push_back :: "nat \<Rightarrow> 'a InlineArray \<Rightarrow> 'a \<Rightarrow> (bool \<times> 'a InlineArray) option" where
  "push_back N a v =
     (if N \<le> isize a then Some (False, a)
      else do {
        d \<leftarrow> mem_write (idata a) (isize a) v;
        Some (True, a\<lparr>idata := d, isize := isize a + 1\<rparr>)
      })"

function array_eq_loop :: "'a InlineArray \<Rightarrow> 'a InlineArray \<Rightarrow> nat \<Rightarrow> bool option" where
  "array_eq_loop a b i =
     (if i < isize a then do {
        x \<leftarrow> mem_read (idata a) i;
        y \<leftarrow> mem_read (idata b) i;
        if \<not> (x = y) then Some False else array_eq_loop a b (i + 1)
      } else Some True)"
  by pat_completeness auto
termination by (relation "measure (\<lambda>(a, b, i). isize a - i)") auto

declare array_eq_loop.simps [simp del]

definition array_eq :: "'a InlineArray \<Rightarrow> 'a InlineArray \<Rightarrow> bool option" where
  "array_eq a b = (if isize a \<noteq> isize b then Some False else array_eq_loop a b 0)"

text \<open>The loop's condition reads \<open>s[i]\<close> before it tests \<open>i < N\<close>; a null pointer is \<open>None\<close>.\<close>

function make_string_loop :: "nat \<Rightarrow> buf \<Rightarrow> nat \<Rightarrow> byte InlineArray \<Rightarrow> byte InlineArray option" where
  "make_string_loop N s i out =
     do {
       ch \<leftarrow> mem_read s i;
       if ch \<noteq> 0 \<and> i < N then do {
         (_, out) \<leftarrow> push_back N out ch;
         make_string_loop N s (i + 1) out
       } else Some out
     }"
  by pat_completeness auto
termination by (relation "measure (\<lambda>(N, s, i, out). N - i)") auto

declare make_string_loop.simps [simp del]

definition make_string :: "nat \<Rightarrow> buf option \<Rightarrow> byte InlineArray option" where
  "make_string N s =
     (let out = InlineArray_init N 0
      in case s of None \<Rightarrow> Some out | Some s \<Rightarrow> make_string_loop N s 0 out)"

section \<open>The span codec\<close>

function span_put :: "'a Codec \<Rightarrow> 'a InlineArray \<Rightarrow> nat \<Rightarrow> buf \<Rightarrow> nat \<Rightarrow> nat \<Rightarrow> nat \<Rightarrow> (nat option \<times> buf) option" where
  "span_put c a i out p off cap =
     (if i < isize a then do {
        x \<leftarrow> mem_read (idata a) i;
        room \<leftarrow> size_sub cap off;
        (w, out) \<leftarrow> encode c x out (p + off) room;
        case w of None \<Rightarrow> Some (None, out) | Some w \<Rightarrow> span_put c a (i + 1) out p (off + w) cap
      } else Some (Some off, out))"
  by pat_completeness auto
termination by (relation "measure (\<lambda>(c, a, i, out, p, off, cap). isize a - i)") auto

declare span_put.simps [simp del]

definition span_encode :: "'a Codec \<Rightarrow> 'a InlineArray \<Rightarrow> buf \<Rightarrow> nat \<Rightarrow> nat \<Rightarrow> (nat option \<times> buf) option" where
  "span_encode c a out p cap =
     (if cap < 1 then Some (None, out)
      else do {
        out \<leftarrow> mem_write out p (of_nat (isize a));
        span_put c a 0 out p 1 cap
      })"

function span_get ::
  "nat \<Rightarrow> 'a Codec \<Rightarrow> byte \<Rightarrow> byte \<Rightarrow> buf \<Rightarrow> nat \<Rightarrow> nat \<Rightarrow> nat \<Rightarrow> 'a InlineArray \<Rightarrow>
   (nat option \<times> 'a InlineArray) option" where
  "span_get N c count i b p off avail out =
     (if i < count then do {
        room \<leftarrow> size_sub avail off;
        (k, elem) \<leftarrow> decode c b (p + off) room (initial c);
        case k of
          None \<Rightarrow> Some (None, out)
        | Some k \<Rightarrow> do {
            (_, out) \<leftarrow> push_back N out elem;
            span_get N c count (i + 1) b p (off + k) avail out
          }
      } else Some (Some off, out))"
  by pat_completeness auto
termination
  by (relation "measure (\<lambda>(N, c, count, i, b, p, off, avail, out). unat count - unat i)")
     (auto simp: unat_Suc_less word_less_nat_alt)

declare span_get.simps [simp del]

definition span_decode ::
  "nat \<Rightarrow> 'a Codec \<Rightarrow> buf \<Rightarrow> nat \<Rightarrow> nat \<Rightarrow> 'a InlineArray \<Rightarrow> (nat option \<times> 'a InlineArray) option" where
  "span_decode N c b p avail out =
     (if avail < 1 then Some (None, out)
      else do {
        count \<leftarrow> mem_read b p;
        if unat count > N then Some (None, out)
        else span_get N c count 0 b p 1 avail (clear out)
      })"

definition SpanCodec :: "nat \<Rightarrow> 'a Codec \<Rightarrow> 'a InlineArray Codec" where
  "SpanCodec N c = \<lparr>kMaxSize = 1 + N * kMaxSize c, kFixed = False,
     encode = span_encode c, decode = span_decode N c, initial = InlineArray_init N (initial c)\<rparr>"

text \<open>\<open>InlineString<N>\<close> has the layout and the codec of \<open>InlineArray<uint8_t, N>\<close>.\<close>

type_synonym InlineString = "byte InlineArray"

definition StringCodec :: "nat \<Rightarrow> InlineString Codec" where
  "StringCodec N = SpanCodec N u8_codec"

section \<open>What the array operations do\<close>

definition array_ok :: "nat \<Rightarrow> 'a InlineArray \<Rightarrow> bool" where
  "array_ok N a \<longleftrightarrow> length (idata a) = N \<and> isize a \<le> N"

definition elems :: "'a InlineArray \<Rightarrow> 'a list" where
  "elems a = take (isize a) (idata a)"

definition array_of :: "nat \<Rightarrow> 'a \<Rightarrow> 'a list \<Rightarrow> 'a InlineArray" where
  "array_of N x xs = \<lparr>idata = xs @ replicate (N - length xs) x, isize = length xs\<rparr>"

lemma array_ok_init [simp]: "array_ok N (InlineArray_init N x)" "elems (InlineArray_init N x) = []"
  by (simp_all add: array_ok_def elems_def InlineArray_init_def)

lemma array_ok_clear: "array_ok N a \<Longrightarrow> array_ok N (clear a) \<and> elems (clear a) = []"
  by (simp add: array_ok_def elems_def clear_def)

lemma length_elems [simp]: "array_ok N a \<Longrightarrow> length (elems a) = isize a"
  by (simp add: array_ok_def elems_def)

lemma array_of_ok: "length xs \<le> N \<Longrightarrow> array_ok N (array_of N x xs) \<and> elems (array_of N x xs) = xs"
  by (simp add: array_ok_def elems_def array_of_def)

lemma push_back_elems:
  "array_ok N a \<Longrightarrow> \<exists>a'. push_back N a v = Some (isize a < N, a') \<and> array_ok N a' \<and>
     elems a' = (if isize a < N then elems a @ [v] else elems a) \<and>
     drop (isize a') (idata a') = drop (isize a') (idata a)"
  by (auto simp: push_back_def array_ok_def elems_def take_Suc_conv_app_nth)

lemma push_back_init:
  assumes "length xs < N"
  shows "push_back N (array_of N x xs) v = Some (True, array_of N x (xs @ [v]))"
proof -
  obtain k where "N - length xs = Suc k" using assms by (metis Suc_diff_Suc)
  moreover from this have "N - Suc (length xs) = k" by simp
  ultimately show ?thesis
    using assms by (simp add: push_back_def array_of_def list_update_append)
qed

lemma array_eq_loop_elems:
  "\<lbrakk>array_ok N a; array_ok M b; isize a = isize b; i \<le> isize a\<rbrakk> \<Longrightarrow>
   array_eq_loop a b i = Some (drop i (elems a) = drop i (elems b))"
proof (induction "isize a - i" arbitrary: i)
  case 0
  then show ?case by (subst array_eq_loop.simps) (simp add: array_ok_def elems_def)
next
  case (Suc k)
  then have i: "i < isize a" "i < length (elems a)" "i < length (elems b)" by simp_all
  then have "drop i (elems a) = idata a ! i # drop (Suc i) (elems a)"
    "drop i (elems b) = idata b ! i # drop (Suc i) (elems b)"
    using Suc.prems by (simp_all add: Cons_nth_drop_Suc [symmetric] elems_def)
  then show ?case
    using i Suc.prems Suc.hyps(1) [of "Suc i"] Suc.hyps(2)
    by (subst array_eq_loop.simps) (simp add: array_ok_def)
qed

lemma array_eq_elems:
  "\<lbrakk>array_ok N a; array_ok M b\<rbrakk> \<Longrightarrow> array_eq a b = Some (elems a = elems b)"
  using array_eq_loop_elems [of N a M b 0] length_elems [of N a] length_elems [of M b]
  by (cases "isize a = isize b") (simp add: array_eq_def, metis array_eq_def)

lemma make_string_loop_elems:
  assumes "0 \<notin> set cs" "i \<le> length cs" "i \<le> N"
  shows "make_string_loop N (cs @ 0 # rest) i (array_of N 0 (take i cs)) = Some (array_of N 0 (take N cs))"
  using assms(2-)
proof (induction "N - i" arbitrary: i)
  case 0
  then have "mem_read (cs @ 0 # rest) i \<noteq> None" by (simp add: mem_read_def)
  with 0 show ?case by (subst make_string_loop.simps) auto
next
  case (Suc k)
  show ?case
  proof (cases "i = length cs")
    case True
    then show ?thesis using Suc by (subst make_string_loop.simps) simp
  next
    case False
    then have i: "i < length cs" "cs ! i \<noteq> 0" using Suc.prems assms(1) by (auto simp: in_set_conv_nth)
    then have "mem_read (cs @ 0 # rest) i = Some (cs ! i)" by (simp add: mem_read_def nth_append)
    moreover have "push_back N (array_of N 0 (take i cs)) (cs ! i) = Some (True, array_of N 0 (take (i + 1) cs))"
      using i Suc push_back_init [of "take i cs" N 0 "cs ! i"] by (simp add: take_Suc_conv_app_nth)
    ultimately show ?thesis
      using i Suc.prems Suc.hyps(1) [of "i + 1"] Suc.hyps(2) by (subst make_string_loop.simps) simp
  qed
qed

section \<open>The promise of the span codec\<close>

fun par_elems :: "'a Spec \<Rightarrow> nat \<Rightarrow> byte list \<Rightarrow> ('a list \<times> nat) option" where
  "par_elems s 0 bs = Some ([], 0)"
| "par_elems s (Suc k) bs =
     (case par s bs of None \<Rightarrow> None
      | Some (v, n) \<Rightarrow>
          (case par_elems s k (drop n bs) of None \<Rightarrow> None | Some (vs, m) \<Rightarrow> Some (v # vs, n + m)))"

definition span_spec :: "nat \<Rightarrow> 'a \<Rightarrow> 'a Spec \<Rightarrow> 'a InlineArray Spec" where
  "span_spec N x s =
     \<lparr>valid = (\<lambda>a. array_ok N a \<and> list_all (valid s) (elems a)),
      canon = (\<lambda>a. array_of N x (map (canon s) (elems a))),
      ser = (\<lambda>a. of_nat (isize a) # concat (map (ser s) (elems a))),
      par = (\<lambda>bs. case bs of [] \<Rightarrow> None
        | k # r \<Rightarrow> if unat k > N then None
            else (case par_elems s (unat k) r of None \<Rightarrow> None | Some (vs, n) \<Rightarrow> Some (array_of N x vs, 1 + n)))\<rparr>"

locale span_elem = fixed_codec c s for c :: "'a Codec" and s :: "'a Spec" +
  fixes N :: nat
  assumes count_fits: "N \<le> 255"
begin

abbreviation "spec \<equiv> span_spec N (initial c) s"

lemma par_elems_ser:
  "list_all (valid s) vs \<Longrightarrow> par_elems s (length vs) (concat (map (ser s) vs) @ rest)
     = Some (map (canon s) vs, length (concat (map (ser s) vs)))"
  by (induction vs) (simp_all add: par_ser)

lemma par_elems_bound:
  "par_elems s k bs = Some (vs, n) \<Longrightarrow> n \<le> length bs \<and> length vs = k \<and> list_all (\<lambda>v. valid s v \<and> canon s v = v) vs"
proof (induction k arbitrary: bs vs n)
  case (Suc k)
  then obtain v m vs' m' where "par s bs = Some (v, m)" "par_elems s k (drop m bs) = Some (vs', m')"
      "vs = v # vs'" "n = m + m'"
    by (auto split: option.splits)
  then show ?case using Suc.IH [of "drop m bs"] par_bound par_valid by fastforce
qed simp

lemma span_put_blit:
  assumes "array_ok N a" "list_all (valid s) (elems a)" "i \<le> isize a" "off \<le> cap" "p + cap \<le> length out"
  shows "let es = concat (map (ser s) (drop i (elems a))) in
    if off + length es \<le> cap
    then span_put c a i out p off cap = Some (Some (off + length es), blit (p + off) es out)
    else \<exists>d. span_put c a i out p off cap = Some (None, d) \<and> confined (p + off) (p + cap) d out"
  using assms(3-)
proof (induction "isize a - i" arbitrary: i off out)
  case 0
  then show ?case using assms(1) by (subst (1 2) span_put.simps) simp
next
  case (Suc k)
  let ?v = "elems a ! i" and ?r = "concat (map (ser s) (drop (Suc i) (elems a)))"
  have i: "i < isize a" "i < length (elems a)" using Suc.hyps(2) assms(1) by simp_all
  have es: "drop i (elems a) = ?v # drop (Suc i) (elems a)"
    using i(2) by (simp add: Cons_nth_drop_Suc)
  have v: "valid s ?v" using assms(2) i(2) by (simp add: list_all_length)
  have x: "mem_read (idata a) i = Some ?v" using i assms(1) by (simp add: array_ok_def elems_def)
  have room: "p + off + (cap - off) \<le> length out" using Suc.prems by simp
  show ?case
  proof (cases "length (ser s ?v) \<le> cap - off")
    case False
    then obtain d where "encode c ?v out (p + off) (cap - off) = Some (None, d)"
        "confined (p + off) (p + cap) d out"
      using enc_full [OF v room] Suc.prems by auto
    moreover from this have "span_put c a i out p off cap = Some (None, d)"
      using i x Suc.prems by (subst span_put.simps) simp
    moreover have "\<not> off + length (concat (map (ser s) (drop i (elems a)))) \<le> cap"
      using False Suc.prems by (simp add: es)
    ultimately show ?thesis by (auto simp: Let_def)
  next
    case True
    let ?off = "off + length (ser s ?v)" and ?out = "blit (p + off) (ser s ?v) out"
    have step: "span_put c a i out p off cap = span_put c a (Suc i) ?out p ?off cap"
      using True i x Suc.prems enc_fits [OF v room] by (subst span_put.simps) simp
    have conf: "confined (p + off) (p + cap) ?out out"
      using True Suc.prems by (intro confined_blit) simp_all
    have IH: "if ?off + length ?r \<le> cap
      then span_put c a (Suc i) ?out p ?off cap = Some (Some (?off + length ?r), blit (p + ?off) ?r ?out)
      else \<exists>d. span_put c a (Suc i) ?out p ?off cap = Some (None, d) \<and> confined (p + ?off) (p + cap) d ?out"
      using Suc.hyps(1) [of "Suc i" ?off ?out] Suc.hyps(2) i True Suc.prems confined_length [OF conf]
      by (simp add: Let_def)
    show ?thesis
    proof (cases "?off + length ?r \<le> cap")
      case fits: True
      then have "blit (p + ?off) ?r ?out = blit (p + off) (ser s ?v @ ?r) out"
        using blit_blit_append [of "p + off" "ser s ?v" ?r out] Suc.prems by (simp add: add.assoc)
      then show ?thesis using fits IH step by (simp add: es Let_def add.assoc)
    next
      case full: False
      then obtain d where "span_put c a (Suc i) ?out p ?off cap = Some (None, d)"
          "confined (p + ?off) (p + cap) d ?out" using IH by auto
      moreover from this have "confined (p + off) (p + cap) d out"
        using confined_trans [OF confined_mono conf] by simp
      ultimately show ?thesis using full step by (simp add: es Let_def add.assoc)
    qed
  qed
qed

lemma span_get_elems:
  assumes "unat count \<le> N" "i \<le> count" "off \<le> avail" "p + avail \<le> length b" "length vs = unat i"
  shows "case par_elems s (unat count - unat i) (drop off (take avail (drop p b))) of
      None \<Rightarrow> \<exists>x. span_get N c count i b p off avail (array_of N (initial c) vs) = Some (None, x)
    | Some (ws, n) \<Rightarrow> span_get N c count i b p off avail (array_of N (initial c) vs)
        = Some (Some (off + n), array_of N (initial c) (vs @ ws))"
  using assms(2-)
proof (induction "unat count - unat i" arbitrary: i off vs)
  case 0
  then have "\<not> i < count" "unat count - unat i = 0" by (simp_all add: word_less_nat_alt)
  then show ?case by (subst (1 2) span_get.simps) simp
next
  case (Suc k)
  have i: "i < count" using Suc.hyps(2) by (simp add: word_less_nat_alt)
  have i': "unat (i + 1) = Suc (unat i)" "i + 1 \<le> count" using i unat_Suc_less [OF i]
    by (simp_all add: word_le_nat_alt word_less_nat_alt)
  have k: "unat count - unat i = Suc k" "k = unat count - unat (i + 1)" using Suc.hyps(2) i' by simp_all
  let ?bs = "drop off (take avail (drop p b))"
  have bs: "?bs = take (avail - off) (drop (p + off) b)" by (simp add: drop_take add.commute)
  have room: "p + off + (avail - off) \<le> length b" using Suc.prems by simp
  show ?case
  proof (cases "par s ?bs")
    case None
    then obtain x where "decode c b (p + off) (avail - off) (initial c) = Some (None, x)"
      using dec_none [OF room] bs by auto
    then have "span_get N c count i b p off avail (array_of N (initial c) vs)
        = Some (None, array_of N (initial c) vs)"
      using i Suc.prems by (subst span_get.simps) simp
    then show ?thesis using None k(1) by simp
  next
    case (Some vn)
    obtain v n where vn: "par s ?bs = Some (v, n)" using Some by (cases vn) simp
    have n: "n \<le> avail - off" using par_bound [OF vn] by simp
    have len: "length vs < N" using Suc.prems assms(1) i by (simp add: word_less_nat_alt)
    have step: "span_get N c count i b p off avail (array_of N (initial c) vs) =
        span_get N c count (i + 1) b p (off + n) avail (array_of N (initial c) (vs @ [v]))"
      using i Suc.prems dec_some [OF room] vn bs push_back_init [OF len] by (subst span_get.simps) simp
    have rest: "drop n ?bs = drop (off + n) (take avail (drop p b))" by (simp add: add.commute)
    have IH: "case par_elems s k (drop (off + n) (take avail (drop p b))) of
        None \<Rightarrow> \<exists>x. span_get N c count (i + 1) b p (off + n) avail (array_of N (initial c) (vs @ [v])) = Some (None, x)
      | Some (ws, m) \<Rightarrow> span_get N c count (i + 1) b p (off + n) avail (array_of N (initial c) (vs @ [v]))
          = Some (Some (off + n + m), array_of N (initial c) ((vs @ [v]) @ ws))"
      using Suc.hyps(1) [of "i + 1" "off + n" "vs @ [v]"] k(2) i' n Suc.prems by simp
    show ?thesis
      using IH vn unfolding k(1) step
      by (auto simp only: par_elems.simps rest option.case prod.case split: option.splits prod.splits)
        (simp_all add: add.assoc)
  qed
qed

lemma span_valid: "valid spec a \<longleftrightarrow> array_ok N a \<and> list_all (valid s) (elems a)"
  by (simp add: span_spec_def)

lemma span_ser: "ser spec a = of_nat (isize a) # concat (map (ser s) (elems a))"
  by (simp add: span_spec_def)

lemma span_encode_cases:
  assumes "valid spec a" "p + cap \<le> length out"
  shows "if length (ser spec a) \<le> cap then encode (SpanCodec N c) a out p cap = Some (Some (length (ser spec a)), blit p (ser spec a) out)
    else \<exists>d. encode (SpanCodec N c) a out p cap = Some (None, d) \<and> confined p (p + cap) d out"
proof (cases "1 \<le> cap")
  case False
  then show ?thesis by (simp add: SpanCodec_def span_encode_def span_ser)
next
  case True
  let ?es = "concat (map (ser s) (elems a))"
  define o1 where "o1 = blit p [of_nat (isize a)] out"
  have o1: "length o1 = length out" "confined p (p + cap) o1 out"
    using True assms(2) by (simp_all add: o1_def length_blit confined_blit)
  have enc: "encode (SpanCodec N c) a out p cap = span_put c a 0 o1 p 1 cap"
    using True assms(2) by (simp add: SpanCodec_def span_encode_def list_update_blit o1_def)
  have put: "if 1 + length ?es \<le> cap
      then span_put c a 0 o1 p 1 cap = Some (Some (1 + length ?es), blit (p + 1) ?es o1)
      else \<exists>d. span_put c a 0 o1 p 1 cap = Some (None, d) \<and> confined (p + 1) (p + cap) d o1"
    using span_put_blit [of a 0 1 cap p o1] assms True o1(1) by (simp add: Let_def span_valid)
  have "blit (p + 1) ?es o1 = blit p (ser spec a) out" if "1 + length ?es \<le> cap"
    using blit_blit_append [of p "[of_nat (isize a)]" ?es out] that assms(2) by (simp add: o1_def span_ser)
  moreover have "confined p (p + cap) d out" if "confined (p + 1) (p + cap) d o1" for d
    using confined_trans [OF confined_mono o1(2)] that True by simp
  ultimately show ?thesis using put unfolding enc by (auto simp: span_ser)
qed

lemma span_head:
  assumes "p + avail \<le> length (b :: buf)" "take avail (drop p b) = k # r"
  shows "mem_read b p = Some k" "1 \<le> avail" "drop 1 (take avail (drop p b)) = r"
  using assms by (cases avail; auto simp: mem_read_def Cons_nth_drop_Suc [symmetric])+

lemma span_cleared: "clear (InlineArray_init N (initial c)) = array_of N (initial c) []"
  by (simp add: clear_def InlineArray_init_def array_of_def)

lemma span_decode_some:
  assumes "p + avail \<le> length (b :: buf)" "par spec (take avail (drop p b)) = Some (v, n)"
  shows "decode (SpanCodec N c) b p avail (initial (SpanCodec N c)) = Some (Some n, v)"
proof -
  obtain k r ws m where r: "take avail (drop p b) = k # r" "unat k \<le> N" "par_elems s (unat k) r = Some (ws, m)"
      "v = array_of N (initial c) ws" "n = 1 + m"
    using assms(2) by (auto simp: span_spec_def split: list.splits if_splits option.splits)
  show ?thesis
    using span_get_elems [of k 0 1 avail p b "[]"] span_head [OF assms(1) r(1)] assms(1) r span_cleared
    by (simp add: SpanCodec_def span_decode_def)
qed

lemma span_decode_none:
  assumes "p + avail \<le> length (b :: buf)" "par spec (take avail (drop p b)) = None"
  shows "\<exists>x. decode (SpanCodec N c) b p avail (initial (SpanCodec N c)) = Some (None, x)"
proof (cases "take avail (drop p b)")
  case Nil
  then have "avail = 0" using assms(1) by auto
  then show ?thesis by (simp add: SpanCodec_def span_decode_def)
next
  case (Cons k r)
  have "unat k \<le> N \<Longrightarrow> par_elems s (unat k) r = None"
    using assms(2) Cons by (auto simp: span_spec_def split: option.splits)
  then show ?thesis
    using span_get_elems [of k 0 1 avail p b "[]"] span_head [OF assms(1) Cons] assms(1) span_cleared
    by (cases "unat k \<le> N") (simp_all add: SpanCodec_def span_decode_def)
qed

lemma span_par_ser:
  assumes "valid spec v"
  shows "par spec (ser spec v @ rest) = Some (canon spec v, length (ser spec v))"
proof -
  have ok: "array_ok N v" "list_all (valid s) (elems v)" using assms by (simp_all add: span_valid)
  have "unat (of_nat (isize v) :: byte) = isize v"
    using ok(1) count_fits by (intro unat_of_nat_byte) (simp add: array_ok_def)
  then show ?thesis
    using ok par_elems_ser [OF ok(2), of rest] length_elems [OF ok(1)]
    by (simp add: span_spec_def) (simp add: array_ok_def)
qed

lemma span_par_valid:
  assumes "par spec bs = Some (v, n)"
  shows "n \<le> length bs" "valid spec v \<and> canon spec v = v"
proof -
  obtain k ws r m where w: "v = array_of N (initial c) ws" "bs = k # r" "par_elems s (unat k) r = Some (ws, m)" "unat k \<le> N" "n = 1 + m"
    using assms by (auto simp: span_spec_def split: list.splits if_splits option.splits)
  show "n \<le> length bs" using w par_elems_bound [OF w(3)] by simp
  show "valid spec v \<and> canon spec v = v"
    using w par_elems_bound [OF w(3)] array_of_ok [of ws N "initial c"]
    by (simp add: span_spec_def list_all_iff map_idI)
qed

lemma span_ser_canon:
  assumes "valid spec v"
  shows "ser spec (canon spec v) = ser spec v"
proof -
  have ok: "array_ok N v" "list_all (valid s) (elems v)" using assms by (simp_all add: span_valid)
  have len: "length (elems v) = isize v" "isize v \<le> N" using ok by (simp_all add: array_ok_def elems_def)
  have "map (ser s \<circ> canon s) (elems v) = map (ser s) (elems v)"
    using ok by (simp add: list_all_iff ser_canon)
  moreover have "elems (array_of N (initial c) (map (canon s) (elems v))) = map (canon s) (elems v)"
    using len array_of_ok [of "map (canon s) (elems v)" N] by simp
  moreover have "isize (array_of N (initial c) (map (canon s) (elems v))) = isize v"
    using len by (simp add: array_of_def)
  ultimately show ?thesis by (simp add: span_spec_def del: map_eq_conv)
qed

lemma span_ser_bound:
  assumes "valid spec v"
  shows "length (ser spec v) \<le> kMaxSize (SpanCodec N c)"
proof -
  have ok: "array_ok N v" "list_all (valid s) (elems v)" using assms by (simp_all add: span_valid)
  have "length (concat (map (ser s) (elems v))) = isize v * kMaxSize c"
    using ok length_concat_fixed [of "elems v" "ser s" "kMaxSize c"] ser_fixed by (simp add: list_all_iff)
  then show ?thesis using ok by (simp add: span_spec_def SpanCodec_def array_ok_def)
qed

lemma span_initial: "valid spec (initial (SpanCodec N c))"
  by (simp add: span_spec_def SpanCodec_def)

lemma span_codec: "codec (SpanCodec N c) spec"
  by unfold_locales
     (use span_encode_cases in \<open>auto simp: span_decode_some span_decode_none span_par_ser span_ser_canon
        span_ser_bound span_initial not_le dest: span_par_valid split: if_splits\<close>)

end

sublocale span_elem \<subseteq> span: codec "SpanCodec N c" "span_spec N (initial c) s"
  by (rule span_codec)

text \<open>With elements that have one encoding each, so has the span.\<close>

locale strict_span = span_elem + strict_codec
begin

lemma par_elems_strict:
  "par_elems s k bs = Some (vs, n) \<Longrightarrow> take n bs = concat (map (ser s) vs)"
proof (induction k arbitrary: bs vs n)
  case (Suc k)
  then obtain v m vs' m' where "par s bs = Some (v, m)" "par_elems s k (drop m bs) = Some (vs', m')"
      "vs = v # vs'" "n = m + m'"
    by (auto split: option.splits)
  then show ?case using Suc.IH [of "drop m bs"] par_strict by (simp add: take_add)
qed simp

lemma span_strict: "strict_codec (SpanCodec N c) (span_spec N (initial c) s)"
proof (intro strict_codec.intro span.codec_axioms, unfold_locales)
  fix bs v n assume "par (span_spec N (initial c) s) bs = Some (v, n)"
  then obtain k r ws m where r: "bs = k # r" "unat k \<le> N" "par_elems s (unat k) r = Some (ws, m)"
      "v = array_of N (initial c) ws" "n = 1 + m"
    by (auto simp: span_spec_def split: list.splits if_splits option.splits)
  then have "length ws = unat k" using par_elems_bound by blast
  then show "take n bs = ser (span_spec N (initial c) s) v"
    using r par_elems_strict [OF r(3)] array_of_ok [of ws N "initial c"]
    by (simp add: span_spec_def) (simp add: array_of_def)
qed

end

interpretation flags8: span_elem BoolCodec bool_spec 8 by unfold_locales simp
interpretation str16: strict_span u8_codec uint_spec 16 by unfold_locales simp
interpretation adc4: strict_span u16_codec uint_spec 4 by unfold_locales simp

lemma par_elems_bytes:
  "par_elems (uint_spec :: byte Spec) k bs = (if k \<le> length bs then Some (take k bs, k) else None)"
proof (induction k arbitrary: bs)
  case (Suc k)
  have "(le_word [x] :: byte) = x" for x by simp
  then show ?case using Suc by (cases bs) (auto simp: uint_spec_def)
qed simp

lemma span_sel [codec_sel]:
  "kMaxSize (SpanCodec N c) = 1 + N * kMaxSize c" "initial (SpanCodec N c) = InlineArray_init N (initial c)"
  "valid (span_spec N x s) a \<longleftrightarrow> array_ok N a \<and> list_all (valid s) (elems a)"
  "canon (span_spec N x s) a = array_of N x (map (canon s) (elems a))"
  "ser (span_spec N x s) a = of_nat (isize a) # concat (map (ser s) (elems a))"
  by (simp_all add: SpanCodec_def span_spec_def)

section \<open>Properties\<close>

text \<open>A span of any fixed-size element type, with any content up to its capacity, sent
  through its codec with room for the worst case, comes back with the same elements; it takes
  at most \<open>kMaxSize\<close> bytes, and no byte outside them is written.\<close>

lemma span_codec_roundtrip:
  assumes "fixed_codec c s" "N \<le> 255" "array_ok N a" "list_all (\<lambda>x. valid s x \<and> canon s x = x) (elems a)"
    and "kMaxSize (SpanCodec N c) \<le> cap" "p + cap \<le> length out"
  shows "\<exists>n d a'. span_encode c a out p cap = Some (Some n, d) \<and> confined p (p + n) d out \<and>
    n = 1 + isize a * kMaxSize c \<and> n \<le> kMaxSize (SpanCodec N c) \<and>
    span_decode N c d p cap (InlineArray_init N (initial c)) = Some (Some n, a') \<and>
    array_ok N a' \<and> elems a' = elems a"
proof -
  note sp = span_elem.span_codec [OF span_elem.intro [OF assms(1) span_elem_axioms.intro [OF assms(2)]]]
  let ?s = "span_spec N (initial c) s" and ?n = "1 + isize a * kMaxSize c"
  have v: "valid ?s a" using assms(3,4) by (simp add: span_spec_def list_all_iff)
  have canon: "canon ?s a = array_of N (initial c) (elems a)"
    using assms(4) by (simp add: span_spec_def list_all_iff map_idI)
  have n: "length (ser ?s a) = ?n"
    using assms(3,4) fixed_codec.ser_fixed [OF assms(1)] length_concat_fixed [of "elems a" "ser s" "kMaxSize c"]
    by (simp add: span_spec_def list_all_iff)
  have fits: "encode (SpanCodec N c) a out p cap = Some (Some ?n, blit p (ser ?s a) out)"
    using codec.enc_fits [OF sp v assms(6)] codec.ser_bound [OF sp v] n assms(5) by simp
  obtain m d where "encode (SpanCodec N c) a out p cap = Some (Some m, d)" "m \<le> kMaxSize (SpanCodec N c)"
      "m \<le> cap \<and> p + cap \<le> length d \<longrightarrow> decode (SpanCodec N c) d p cap (initial (SpanCodec N c)) = Some (Some m, canon ?s a)"
    using codec.enc_dec [OF sp v assms(6,5)] by blast
  moreover have "confined p (p + ?n) (blit p (ser ?s a) out) out" "p + cap \<le> length (blit p (ser ?s a) out)"
    using n codec.ser_bound [OF sp v] assms(5,6) by (simp_all add: confined_blit length_blit)
  moreover have "length (elems a) \<le> N" using assms(3) by (simp add: array_ok_def elems_def)
  moreover have "?n \<le> cap" using n codec.ser_bound [OF sp v] assms(5) by simp
  ultimately show ?thesis
    using fits canon array_of_ok [of "elems a" N "initial c"] assms(5)
    by (simp add: SpanCodec_def)
qed

text \<open>Reading a span from arbitrary bytes is safe: it fails or yields an array within its
  capacity whose bytes, re-encoded, are exactly the bytes consumed.\<close>

lemma string_decode_safe:
  assumes "N \<le> 255" "p + avail \<le> length b"
  shows "\<exists>r a. span_decode N u8_codec b p avail (InlineArray_init N 0) = Some (r, a) \<and>
    (case r of None \<Rightarrow> avail = 0 \<or> N < unat (b ! p) \<or> avail < 1 + unat (b ! p)
     | Some n \<Rightarrow> n \<le> avail \<and> array_ok N a \<and> n = 1 + isize a \<and>
         b ! p = of_nat (isize a) \<and> elems a = take (isize a) (drop (p + 1) b))"
proof -
  note sp = span_elem.span_codec [OF span_elem.intro [OF u8.fixed_codec_axioms span_elem_axioms.intro [OF assms(1)]]]
  let ?bs = "take avail (drop p b)"
  have sel: "decode (SpanCodec N u8_codec) = span_decode N u8_codec" "initial u8_codec = 0"
      "initial (SpanCodec N u8_codec) = InlineArray_init N 0"
    by (simp_all add: SpanCodec_def UintCodec_def)
  show ?thesis
  proof (cases "par (span_spec N 0 (uint_spec :: byte Spec)) ?bs")
    case None
    then obtain x where "span_decode N u8_codec b p avail (InlineArray_init N 0) = Some (None, x)"
      using codec.dec_none [OF sp assms(2)] unfolding sel by blast
    moreover have "avail = 0 \<or> N < unat (b ! p) \<or> avail < 1 + unat (b ! p)"
    proof (cases avail)
      case (Suc k)
      then have "?bs = b ! p # take k (drop (Suc p) b)" using assms(2) by (simp add: Cons_nth_drop_Suc [symmetric])
      then show ?thesis using None Suc assms(2)
        by (auto simp: span_spec_def par_elems_bytes split: if_splits)
    qed simp
    ultimately show ?thesis by auto
  next
    case (Some an)
    obtain a n where an: "par (span_spec N 0 (uint_spec :: byte Spec)) ?bs = Some (a, n)" using Some by (cases an) simp
    then have dec: "span_decode N u8_codec b p avail (InlineArray_init N 0) = Some (Some n, a)"
      using codec.dec_some [OF sp assms(2), of a n] unfolding sel by blast
    have "avail \<noteq> 0" using an by (cases avail) (auto simp: span_spec_def)
    then obtain k where k: "avail = Suc k" by (cases avail) auto
    then have bs: "?bs = b ! p # take k (drop (Suc p) b)" using assms(2) by (simp add: Cons_nth_drop_Suc [symmetric])
    define c where "c = b ! p"
    have c: "unat c \<le> N" "unat c \<le> k" "a = array_of N 0 (take (unat c) (drop (Suc p) b))" "n = 1 + unat c"
      using an assms(2) k unfolding bs c_def by (auto simp: span_spec_def par_elems_bytes min_def split: if_splits)
    then have "length (take (unat c) (drop (Suc p) b)) = unat c" using assms(2) k by simp
    then have "array_ok N a" "elems a = take (unat c) (drop (Suc p) b)" "isize a = unat c"
      using c array_of_ok [of "take (unat c) (drop (Suc p) b)" N 0] by (simp_all add: array_of_def)
    then show ?thesis using dec c k by (auto simp: c_def)
  qed
qed

text \<open>Appending never grows an array beyond its capacity and otherwise adds one element at
  the end; equality compares exactly the elements in use, whatever the unused slots hold.\<close>

lemma inline_array_ops:
  assumes "array_ok N a" "array_ok M b"
  shows "(\<exists>a'. push_back N a v = Some (isize a < N, a') \<and> array_ok N a' \<and>
      elems a' = (if isize a < N then elems a @ [v] else elems a)) \<and>
    elems (clear a) = [] \<and> array_ok N (clear a) \<and> array_eq a b = Some (elems a = elems b)"
  using push_back_elems [OF assms(1)] array_ok_clear [OF assms(1)] array_eq_elems [OF assms] by blast

text \<open>A NUL-terminated C string becomes the string of its characters, cut at the capacity.\<close>

lemma make_string_prefix:
  assumes "0 \<notin> set cs"
  shows "\<exists>a. make_string N (Some (cs @ 0 # rest)) = Some a \<and> array_ok N a \<and> elems a = take N cs"
  using make_string_loop_elems [OF assms, of 0 N rest] array_of_ok [of "take N cs" N 0]
  by (simp add: make_string_def InlineArray_init_def array_of_def)

end
