(* ===== verification/Tuples.thy ===== *)
theory Tuples
  imports Span
begin

text \<open>
  Tuples: \<open>TupleMaxSize\<close>, \<open>encode_one\<close>, \<open>decode_one\<close>, \<open>encode_tuple\<close> and \<open>decode_tuple\<close> of
  \<open>src/include/eup/codec.hpp\<close>. A tuple \<open>(a, b, c)\<close> is the nested pair \<open>(a, b, c, ())\<close>, and the
  expansion of a fold expression over a parameter pack \<open>Ts\<close> is a value of \<open>'t Pack\<close>, built by
  \<open>tnil\<close> and \<open>tcons\<close> from the codecs of \<open>Ts\<close>: each \<open>tcons\<close> is one step
  \<open>ok = ok && encode_one(...)\<close>. The locale \<open>pack\<close> is the promise of an expansion, an instance
  for the empty pack and for every step (\<open>codec_pack\<close>).
\<close>

section \<open>The code\<close>

definition encode_one :: "'a Codec \<Rightarrow> 'a \<Rightarrow> buf \<Rightarrow> nat \<Rightarrow> nat \<Rightarrow> nat \<Rightarrow> (bool \<times> nat \<times> buf) option" where
  "encode_one c x out base cap off =
     do {
       room \<leftarrow> size_sub cap off;
       (written, out) \<leftarrow> encode c x out (base + off) room;
       case written of
         None \<Rightarrow> Some (False, off, out)
       | Some w \<Rightarrow> Some (True, off + w, out)
     }"

definition decode_one :: "'a Codec \<Rightarrow> buf \<Rightarrow> nat \<Rightarrow> nat \<Rightarrow> 'a \<Rightarrow> nat \<Rightarrow> (bool \<times> nat \<times> 'a) option" where
  "decode_one c b base len x off =
     do {
       room \<leftarrow> size_sub len off;
       (consumed, x) \<leftarrow> decode c b (base + off) room x;
       case consumed of
         None \<Rightarrow> Some (False, off, x)
       | Some k \<Rightarrow> Some (True, off + k, x)
     }"

text \<open>\<open>enc_pack p t out base cap ok off\<close> runs the fold from the flag \<open>ok\<close> and the offset \<open>off\<close>.\<close>

record 't Pack =
  maxSize :: nat
  enc_pack :: "'t \<Rightarrow> buf \<Rightarrow> nat \<Rightarrow> nat \<Rightarrow> bool \<Rightarrow> nat \<Rightarrow> (bool \<times> nat \<times> buf) option"
  dec_pack :: "buf \<Rightarrow> nat \<Rightarrow> nat \<Rightarrow> 't \<Rightarrow> bool \<Rightarrow> nat \<Rightarrow> (bool \<times> nat \<times> 't) option"
  tuple_init :: 't

definition tnil :: "unit Pack" where
  "tnil = \<lparr>maxSize = 0,
     enc_pack = (\<lambda>t out base cap ok off. Some (ok, off, out)),
     dec_pack = (\<lambda>b base len t ok off. Some (ok, off, t)),
     tuple_init = ()\<rparr>"

definition tcons_enc ::
  "'a Codec \<Rightarrow> 't Pack \<Rightarrow> 'a \<times> 't \<Rightarrow> buf \<Rightarrow> nat \<Rightarrow> nat \<Rightarrow> bool \<Rightarrow> nat \<Rightarrow> (bool \<times> nat \<times> buf) option" where
  "tcons_enc c p t out base cap ok off =
     do {
       (ok, off, out) \<leftarrow> (if ok then encode_one c (fst t) out base cap off else Some (False, off, out));
       enc_pack p (snd t) out base cap ok off
     }"

definition tcons_dec ::
  "'a Codec \<Rightarrow> 't Pack \<Rightarrow> buf \<Rightarrow> nat \<Rightarrow> nat \<Rightarrow> 'a \<times> 't \<Rightarrow> bool \<Rightarrow> nat \<Rightarrow> (bool \<times> nat \<times> 'a \<times> 't) option" where
  "tcons_dec c p b base len t ok off =
     do {
       (ok, off, x) \<leftarrow> (if ok then decode_one c b base len (fst t) off else Some (False, off, fst t));
       (ok, off, xs) \<leftarrow> dec_pack p b base len (snd t) ok off;
       Some (ok, off, (x, xs))
     }"

definition tcons :: "'a Codec \<Rightarrow> 't Pack \<Rightarrow> ('a \<times> 't) Pack" where
  "tcons c p = \<lparr>maxSize = kMaxSize c + maxSize p,
     enc_pack = tcons_enc c p, dec_pack = tcons_dec c p, tuple_init = (initial c, tuple_init p)\<rparr>"

text \<open>\<open>written\<close> is set on failure too.\<close>

definition encode_tuple :: "'t Pack \<Rightarrow> 't \<Rightarrow> buf \<Rightarrow> nat \<Rightarrow> nat \<Rightarrow> (bool \<times> nat \<times> buf) option" where
  "encode_tuple p t out base cap = do {
     (ok, off, out) \<leftarrow> enc_pack p t out base cap True 0;
     Some (ok, off, out)
   }"

definition decode_tuple :: "'t Pack \<Rightarrow> buf \<Rightarrow> nat \<Rightarrow> nat \<Rightarrow> 't \<Rightarrow> (bool \<times> 't) option" where
  "decode_tuple p b base len out = do {
     (ok, off, out) \<leftarrow> dec_pack p b base len out True 0;
     Some (ok \<and> off = len, out)
   }"

section \<open>What a pack promises\<close>

text \<open>Parsing a whole block, as \<open>decode_tuple\<close> does.\<close>

definition parse :: "'t Spec \<Rightarrow> byte list \<Rightarrow> 't option" where
  "parse s bs = (case par s bs of Some (t, n) \<Rightarrow> if n = length bs then Some t else None | None \<Rightarrow> None)"

locale pack =
  fixes p :: "'t Pack" and s :: "'t Spec"
  assumes enc_fits: "\<lbrakk>valid s t; base + cap \<le> length out; off + length (ser s t) \<le> cap\<rbrakk> \<Longrightarrow>
      enc_pack p t out base cap True off
        = Some (True, off + length (ser s t), blit (base + off) (ser s t) out)"
    and enc_full: "\<lbrakk>valid s t; base + cap \<le> length out; off \<le> cap; cap < off + length (ser s t)\<rbrakk> \<Longrightarrow>
      \<exists>k d. enc_pack p t out base cap True off = Some (False, k, d) \<and> k \<le> cap \<and> confined base (base + cap) d out"
    and enc_skip: "enc_pack p t out base cap False off = Some (False, off, out)"
    and dec_some: "\<lbrakk>base + len \<le> length b; off \<le> len; par s (drop off (take len (drop base b))) = Some (t, n)\<rbrakk> \<Longrightarrow>
      dec_pack p b base len (tuple_init p) True off = Some (True, off + n, t)"
    and dec_none: "\<lbrakk>base + len \<le> length b; off \<le> len; par s (drop off (take len (drop base b))) = None\<rbrakk> \<Longrightarrow>
      \<exists>k x. dec_pack p b base len (tuple_init p) True off = Some (False, k, x)"
    and dec_skip: "\<exists>x. dec_pack p b base len t False off = Some (False, off, x)"
    and par_ser: "valid s t \<Longrightarrow> par s (ser s t @ rest) = Some (canon s t, length (ser s t))"
    and par_bound: "par s bs = Some (t, n) \<Longrightarrow> n \<le> length bs"
    and par_valid: "par s bs = Some (t, n) \<Longrightarrow> valid s t \<and> canon s t = t"
    and ser_canon: "valid s t \<Longrightarrow> ser s (canon s t) = ser s t"
    and ser_bound: "valid s t \<Longrightarrow> length (ser s t) \<le> maxSize p"
    and initial_valid: "valid s (tuple_init p)"
begin

lemma canon_valid: "valid s t \<Longrightarrow> valid s (canon s t) \<and> canon s (canon s t) = canon s t"
  using par_ser [of t "[]"] par_valid by simp

lemma parse_ser: "valid s t \<Longrightarrow> parse s (ser s t) = Some (canon s t)"
  using par_ser [of t "[]"] by (simp add: parse_def)

lemma encode_tuple_fits:
  "\<lbrakk>valid s t; base + cap \<le> length out; length (ser s t) \<le> cap\<rbrakk> \<Longrightarrow>
   encode_tuple p t out base cap = Some (True, length (ser s t), blit base (ser s t) out)"
  using enc_fits [of t base cap out 0] by (simp add: encode_tuple_def)

lemma encode_tuple_full:
  "\<lbrakk>valid s t; base + cap \<le> length out; cap < length (ser s t)\<rbrakk> \<Longrightarrow>
   \<exists>k d. encode_tuple p t out base cap = Some (False, k, d) \<and> k \<le> cap \<and> confined base (base + cap) d out"
  using enc_full [of t base cap out 0] by (simp add: encode_tuple_def)

lemma decode_tuple_parse:
  assumes "base + len \<le> length b"
  shows "case parse s (take len (drop base b)) of
      Some t \<Rightarrow> decode_tuple p b base len (tuple_init p) = Some (True, t)
    | None \<Rightarrow> \<exists>x. decode_tuple p b base len (tuple_init p) = Some (False, x)"
  using dec_some [OF assms, of 0] dec_none [OF assms, of 0] assms
  by (cases "par s (take len (drop base b))") (auto simp: parse_def decode_tuple_def)

lemma tuple_roundtrip:
  assumes "valid s t" "base + cap \<le> length out" "maxSize p \<le> cap"
  shows "\<exists>n d. encode_tuple p t out base cap = Some (True, n, d) \<and> n \<le> maxSize p \<and>
    confined base (base + n) d out \<and>
    decode_tuple p d base n (tuple_init p) = Some (True, canon s t)"
proof -
  let ?n = "length (ser s t)" and ?d = "blit base (ser s t) out"
  have n: "?n \<le> maxSize p" using ser_bound assms(1) .
  have d: "base + ?n \<le> length ?d" "take ?n (drop base ?d) = ser s t"
    using n assms by (simp_all add: length_blit slice_blit)
  have "decode_tuple p ?d base ?n (tuple_init p) = Some (True, canon s t)"
    using decode_tuple_parse [OF d(1)] parse_ser [OF assms(1)] unfolding d(2) by simp
  moreover have "confined base (base + ?n) ?d out" using n assms by (intro confined_blit) simp_all
  ultimately show ?thesis using encode_tuple_fits assms n by auto
qed

end

text \<open>One encoding per value.\<close>

locale strict_pack = pack +
  assumes par_strict: "par s bs = Some (t, n) \<Longrightarrow> take n bs = ser s t"
begin

lemma parse_strict: "parse s bs = Some t \<Longrightarrow> bs = ser s t"
  using par_strict by (fastforce simp: parse_def split: option.splits if_splits)

end

definition tnil_spec :: "unit Spec" where
  "tnil_spec = \<lparr>valid = (\<lambda>_. True), canon = (\<lambda>t. t), ser = (\<lambda>_. []), par = (\<lambda>_. Some ((), 0))\<rparr>"

definition tcons_spec :: "'a Spec \<Rightarrow> 't Spec \<Rightarrow> ('a \<times> 't) Spec" where
  "tcons_spec s r =
     \<lparr>valid = (\<lambda>(x, t). valid s x \<and> valid r t),
      canon = (\<lambda>(x, t). (canon s x, canon r t)),
      ser = (\<lambda>(x, t). ser s x @ ser r t),
      par = (\<lambda>bs. case par s bs of None \<Rightarrow> None
        | Some (x, n) \<Rightarrow> (case par r (drop n bs) of None \<Rightarrow> None | Some (t, m) \<Rightarrow> Some ((x, t), n + m)))\<rparr>"

interpretation nil_pack: strict_pack tnil tnil_spec
  by unfold_locales (simp_all add: tnil_def tnil_spec_def)

locale codec_pack = hd: codec c s + tl: pack p r
  for c :: "'a Codec" and s :: "'a Spec" and p :: "'t Pack" and r :: "'t Spec"
begin

lemma one_fits:
  "\<lbrakk>valid s x; base + cap \<le> length out; off + length (ser s x) \<le> cap\<rbrakk> \<Longrightarrow>
   encode_one c x out base cap off = Some (True, off + length (ser s x), blit (base + off) (ser s x) out)"
  using hd.enc_fits [of x "base + off" "cap - off" out] by (simp add: encode_one_def)

lemma one_full:
  "\<lbrakk>valid s x; base + cap \<le> length out; off \<le> cap; cap < off + length (ser s x)\<rbrakk> \<Longrightarrow>
   \<exists>d. encode_one c x out base cap off = Some (False, off, d) \<and> confined base (base + cap) d out"
  using hd.enc_full [of x "base + off" "cap - off" out]
  by (fastforce simp: encode_one_def intro: confined_mono)

lemma cons_ser: "ser (tcons_spec s r) (x, xs) = ser s x @ ser r xs"
  by (simp add: tcons_spec_def)

lemma cons_fits:
  assumes "valid s x" "valid r xs" "base + cap \<le> length out" "off + length (ser (tcons_spec s r) (x, xs)) \<le> cap"
  shows "enc_pack (tcons c p) (x, xs) out base cap True off = Some (True, off + length (ser (tcons_spec s r) (x, xs)),
    blit (base + off) (ser (tcons_spec s r) (x, xs)) out)"
proof -
  let ?out = "blit (base + off) (ser s x) out"
  have "length ?out = length out" "base + (off + length (ser s x)) = base + off + length (ser s x)"
    using assms(3,4) by (simp_all add: length_blit cons_ser)
  then show ?thesis
    using assms one_fits [OF assms(1,3), of off] tl.enc_fits [OF assms(2), of base cap ?out "off + length (ser s x)"]
      blit_blit_append [of "base + off" "ser s x" "ser r xs" out]
    by (simp add: tcons_def tcons_enc_def cons_ser add.assoc)
qed

lemma cons_full:
  assumes "valid s x" "valid r xs" "base + cap \<le> length out" "off \<le> cap" "cap < off + length (ser (tcons_spec s r) (x, xs))"
  shows "\<exists>k d. enc_pack (tcons c p) (x, xs) out base cap True off = Some (False, k, d) \<and> k \<le> cap \<and>
    confined base (base + cap) d out"
proof (cases "off + length (ser s x) \<le> cap")
  case False
  then show ?thesis using one_full [OF assms(1,3,4)] assms(4) tl.enc_skip by (fastforce simp: tcons_def tcons_enc_def)
next
  case True
  let ?out = "blit (base + off) (ser s x) out"
  have conf: "confined base (base + cap) ?out out" using True assms(3) by (intro confined_blit) simp_all
  then have "base + cap \<le> length ?out" using assms(3) confined_length by metis
  then obtain k d where "enc_pack p xs ?out base cap True (off + length (ser s x)) = Some (False, k, d)"
      "k \<le> cap" "confined base (base + cap) d ?out"
    using tl.enc_full [OF assms(2), of base cap ?out "off + length (ser s x)"] True assms(5) by (auto simp: cons_ser)
  then show ?thesis using one_fits [OF assms(1,3) True] confined_trans [OF _ conf]
    by (simp add: tcons_def tcons_enc_def)
qed

lemma cons_par:
  assumes "par (tcons_spec s r) bs = Some (t, n)"
  obtains x k xs m where "t = (x, xs)" "n = k + m" "par s bs = Some (x, k)" "par r (drop k bs) = Some (xs, m)"
  using assms by (auto simp: tcons_spec_def split: option.splits)

text \<open>The first step of decoding, on what the pack sees from the offset \<open>off\<close>.\<close>

lemma one_parses:
  assumes "base + len \<le> length b" "off \<le> len"
  shows "case par s (drop off (take len (drop base b))) of
      None \<Rightarrow> \<exists>x. decode_one c b base len (initial c) off = Some (False, off, x)
    | Some (x, k) \<Rightarrow> off + k \<le> len \<and> decode_one c b base len (initial c) off = Some (True, off + k, x)"
proof -
  have slice: "take (len - off) (drop (base + off) b) = drop off (take len (drop base b))"
    by (simp add: drop_take add.commute)
  have b: "base + off + (len - off) \<le> length b" using assms by simp
  show ?thesis
    using hd.dec_some [OF b] hd.dec_none [OF b] hd.par_bound assms unfolding slice
    by (fastforce simp: decode_one_def split: option.split)
qed

lemma cons_dec_some:
  assumes "base + len \<le> length b" "off \<le> len" "par (tcons_spec s r) (drop off (take len (drop base b))) = Some (t, n)"
  shows "dec_pack (tcons c p) b base len (tuple_init (tcons c p)) True off = Some (True, off + n, t)"
proof -
  obtain x k xs m where t: "t = (x, xs)" "n = k + m" "par s (drop off (take len (drop base b))) = Some (x, k)"
      "par r (drop (off + k) (take len (drop base b))) = Some (xs, m)"
    by (rule cons_par [OF assms(3)]) (simp add: add.commute)
  have "off + k \<le> len" "decode_one c b base len (initial c) off = Some (True, off + k, x)"
    using one_parses [OF assms(1,2)] t(3) by simp_all
  then show ?thesis using t tl.dec_some [OF assms(1) _ t(4)] by (simp add: tcons_def tcons_dec_def)
qed

lemma cons_dec_none:
  assumes "base + len \<le> length b" "off \<le> len" "par (tcons_spec s r) (drop off (take len (drop base b))) = None"
  shows "\<exists>k x. dec_pack (tcons c p) b base len (tuple_init (tcons c p)) True off = Some (False, k, x)"
proof (cases "par s (drop off (take len (drop base b)))")
  case None
  then show ?thesis using one_parses [OF assms(1,2)] tl.dec_skip [of b base len "tuple_init p" off]
    by (auto simp: tcons_def tcons_dec_def)
next
  case (Some xk)
  obtain x k where xk: "par s (drop off (take len (drop base b))) = Some (x, k)" using Some by (cases xk) simp
  then have "off + k \<le> len" "decode_one c b base len (initial c) off = Some (True, off + k, x)"
    using one_parses [OF assms(1,2)] by simp_all
  moreover have "par r (drop (off + k) (take len (drop base b))) = None"
    using assms(3) xk by (auto simp: tcons_spec_def add.commute split: option.splits)
  ultimately show ?thesis using tl.dec_none [OF assms(1), of "off + k"]
    by (fastforce simp: tcons_def tcons_dec_def)
qed

lemma cons_skip:
  "enc_pack (tcons c p) t out base cap False off = Some (False, off, out)"
  "\<exists>x. dec_pack (tcons c p) b base len t False off = Some (False, off, x)"
  using tl.dec_skip [of b base len "snd t" off] by (auto simp: tcons_def tcons_enc_def tcons_dec_def tl.enc_skip)

lemma cons_spec:
  assumes "valid s x" "valid r xs"
  shows "par (tcons_spec s r) (ser (tcons_spec s r) (x, xs) @ rest)
      = Some (canon (tcons_spec s r) (x, xs), length (ser (tcons_spec s r) (x, xs)))"
    "ser (tcons_spec s r) (canon (tcons_spec s r) (x, xs)) = ser (tcons_spec s r) (x, xs)"
    "length (ser (tcons_spec s r) (x, xs)) \<le> maxSize (tcons c p)"
  using hd.par_ser [OF assms(1)] tl.par_ser [OF assms(2)] hd.ser_canon [OF assms(1)] tl.ser_canon [OF assms(2)]
    hd.ser_bound [OF assms(1)] tl.ser_bound [OF assms(2)]
  by (simp_all add: tcons_spec_def tcons_def)

lemma cons_par_laws:
  assumes "par (tcons_spec s r) bs = Some (t, n)"
  shows "n \<le> length bs" "valid (tcons_spec s r) t \<and> canon (tcons_spec s r) t = t"
proof -
  obtain x k xs m where t: "t = (x, xs)" "n = k + m" "par s bs = Some (x, k)" "par r (drop k bs) = Some (xs, m)"
    by (rule cons_par [OF assms])
  show "n \<le> length bs" using t hd.par_bound [OF t(3)] tl.par_bound [OF t(4)] by simp
  show "valid (tcons_spec s r) t \<and> canon (tcons_spec s r) t = t"
    using t hd.par_valid [OF t(3)] tl.par_valid [OF t(4)] by (simp add: tcons_spec_def)
qed

lemma cons_valid: "valid (tcons_spec s r) (x, xs) \<longleftrightarrow> valid s x \<and> valid r xs"
  by (simp add: tcons_spec_def)

lemma cons_initial: "valid (tcons_spec s r) (tuple_init (tcons c p))"
  by (simp add: tcons_spec_def tcons_def hd.initial_valid tl.initial_valid)

lemma cons_pack: "pack (tcons c p) (tcons_spec s r)"
  by unfold_locales
     (auto simp: cons_valid cons_skip cons_fits cons_full cons_dec_some cons_dec_none cons_spec cons_initial
        simp del: split_paired_Ex dest: cons_par_laws)

end

sublocale codec_pack \<subseteq> cons: pack "tcons c p" "tcons_spec s r"
  by (rule cons_pack)

locale strict_codec_pack = codec_pack c s p r + hds: strict_codec c s + tls: strict_pack p r
  for c :: "'a Codec" and s :: "'a Spec" and p :: "'t Pack" and r :: "'t Spec"
begin

lemma cons_strict: "strict_pack (tcons c p) (tcons_spec s r)"
proof (intro strict_pack.intro cons_pack, unfold_locales)
  fix bs t n assume "par (tcons_spec s r) bs = Some (t, n)"
  then obtain x k xs m where "t = (x, xs)" "n = k + m" "par s bs = Some (x, k)" "par r (drop k bs) = Some (xs, m)"
    by (auto simp: tcons_spec_def split: option.splits)
  then show "take n bs = ser (tcons_spec s r) t"
    using hds.par_strict tls.par_strict by (simp add: tcons_spec_def take_add)
qed

end

text \<open>A contract's argument and result packs are assembled from their fields by these rules.\<close>

named_theorems pack_rules \<open>the parts of a pack are codecs\<close>

lemma tcons_packI: "\<lbrakk>codec c s; pack p r\<rbrakk> \<Longrightarrow> pack (tcons c p) (tcons_spec s r)"
  by (rule codec_pack.cons_pack [OF codec_pack.intro])

lemma tcons_strictI: "\<lbrakk>strict_codec c s; strict_pack p r\<rbrakk> \<Longrightarrow> strict_pack (tcons c p) (tcons_spec s r)"
  by (intro strict_codec_pack.cons_strict strict_codec_pack.intro codec_pack.intro)
     (simp_all add: strict_codec.axioms strict_pack.axioms)

lemmas [pack_rules] = tcons_strictI nil_pack.strict_pack_axioms u8_strict.strict_codec_axioms
  u16_strict.strict_codec_axioms u32_strict.strict_codec_axioms u64_strict.strict_codec_axioms
  int_codec_laws(2) float_codec_laws(2)

interpretation flag_pack: codec_pack BoolCodec bool_spec tnil tnil_spec
  by unfold_locales

interpretation tail_pack: strict_codec_pack i16_codec "int_spec TYPE(16)" tnil tnil_spec
  by (intro strict_codec_pack.intro codec_pack.intro pack_rules i16.codec_axioms nil_pack.pack_axioms) simp

lemma tuple_sel [codec_sel]:
  "maxSize tnil = 0" "maxSize (tcons c p) = kMaxSize c + maxSize p"
  "tuple_init tnil = ()" "tuple_init (tcons c p) = (initial c, tuple_init p)"
  "valid tnil_spec u" "canon tnil_spec u = u" "ser tnil_spec u = []"
  "valid (tcons_spec s r) (x, t) \<longleftrightarrow> valid s x \<and> valid r t"
  "canon (tcons_spec s r) (x, t) = (canon s x, canon r t)"
  "ser (tcons_spec s r) (x, t) = ser s x @ ser r t"
  by (simp_all add: tnil_def tcons_def tnil_spec_def tcons_spec_def)

section \<open>Properties\<close>

text \<open>A tuple of any fields that have codecs, spans in any position included, fits
  \<open>TupleMaxSize\<close> bytes, touches no other byte, and decodes to the same fields; with any
  number of bytes after it the block is rejected.\<close>

lemma tuple_codec_roundtrip:
  assumes "pack p s" "valid s t" "maxSize p \<le> cap" "base + cap \<le> length out"
  shows "\<exists>n d. encode_tuple p t out base cap = Some (True, n, d) \<and> n \<le> maxSize p \<and>
    confined base (base + n) d out \<and>
    decode_tuple p d base n (tuple_init p) = Some (True, canon s t) \<and>
    (\<forall>more. 0 < more \<and> base + n + more \<le> length d \<longrightarrow>
      (\<exists>x. decode_tuple p d base (n + more) (tuple_init p) = Some (False, x)))"
proof -
  note pk = assms(1)
  obtain n d where nd: "encode_tuple p t out base cap = Some (True, n, d)" "n \<le> maxSize p"
      "confined base (base + n) d out" "decode_tuple p d base n (tuple_init p) = Some (True, canon s t)"
    using pack.tuple_roundtrip [OF pk assms(2,4,3)] by blast
  have n: "length (ser s t) \<le> cap" using pack.ser_bound [OF pk assms(2)] assms(3) by simp
  then have eq: "n = length (ser s t)" "d = blit base (ser s t) out"
    using pack.encode_tuple_fits [OF pk assms(2,4)] nd(1) by simp_all
  have "\<exists>x. decode_tuple p d base (n + more) (tuple_init p) = Some (False, x)"
    if "0 < more" "base + n + more \<le> length d" for more
  proof -
    have "take (n + more) (drop base d) = ser s t @ take more (drop (base + n) out)"
      using eq n assms(4) by (simp add: blit_def)
    then have "parse s (take (n + more) (drop base d)) = None"
      using that eq n assms(4) pack.par_ser [OF pk assms(2)] by (simp add: parse_def length_blit)
    then show ?thesis using pack.decode_tuple_parse [OF pk, of base "n + more" d] that by simp
  qed
  with nd show ?thesis by blast
qed

text \<open>Decoding a tuple is total, and accepts a block only if it is the encoding of the
  fields it yields (for fields with one encoding each: all but \<open>bool\<close>).\<close>

lemma tuple_decode_exact:
  assumes "strict_pack p s" "base + len \<le> length b"
  shows "\<exists>ok t. decode_tuple p b base len (tuple_init p) = Some (ok, t) \<and>
    (ok \<longrightarrow> valid s t \<and> take len (drop base b) = ser s t)"
proof -
  note pk = strict_pack.axioms(1) [OF assms(1)]
  show ?thesis
  proof (cases "parse s (take len (drop base b))")
    case None
    then show ?thesis using pack.decode_tuple_parse [OF pk assms(2)] by auto
  next
    case (Some t)
    then have "valid s t" using pack.par_valid [OF pk] by (auto simp: parse_def split: option.splits if_splits)
    then show ?thesis using pack.decode_tuple_parse [OF pk assms(2)] strict_pack.parse_strict [OF assms(1) Some] Some by auto
  qed
qed

end
