(* ===== verification/Cobs.thy ===== *)
theory Cobs
  imports Prelude
begin

text \<open>
  Consistent Overhead Byte Stuffing: \<open>src/src/cobs.cpp\<close>,
  \<open>src/include/eup/cobs.hpp\<close>. \<open>cobs_encode\<close> and \<open>cobs_decode\<close> are the two loops over
  buffers with their capacities; \<open>cobs_blocks\<close> and \<open>cobs_unblock\<close> say on byte lists what
  the format is. The lemmas relate the two and give the round trip, the absence of zero
  bytes, the size bounds and the uniqueness of the encoding.
\<close>

section \<open>The code\<close>

datatype CobsStatus = Cobs_Ok | OutputTooSmall | MalformedInput

type_synonym CobsResult = "CobsStatus \<times> nat"

definition cobs_max_encoded_size :: "nat \<Rightarrow> nat" where
  "cobs_max_encoded_size n = n + n div 254 + 1"

text \<open>
  The loop of \<open>cobs_encode\<close>: its local variables are the arguments \<open>rd\<close>, \<open>wr\<close>,
  \<open>codeIdx\<close>, \<open>code\<close>, and the output buffer is returned beside the result.
\<close>

function cobs_encode_loop ::
  "buf \<Rightarrow> nat \<Rightarrow> nat \<Rightarrow> nat \<Rightarrow> nat \<Rightarrow> nat \<Rightarrow> byte \<Rightarrow> buf \<Rightarrow> (CobsResult \<times> buf) option" where
  "cobs_encode_loop src srcLen dstCap rd wr codeIdx code dst =
     (if rd < srcLen then do {
        b \<leftarrow> mem_read src rd;
        if b = 0 then do {
          dst \<leftarrow> mem_write dst codeIdx code;
          if wr \<ge> dstCap then Some ((OutputTooSmall, 0), dst)
          else cobs_encode_loop src srcLen dstCap (rd + 1) (wr + 1) wr 1 dst
        } else if wr \<ge> dstCap then Some ((OutputTooSmall, 0), dst)
        else do {
          dst \<leftarrow> mem_write dst wr b;
          if code + 1 = 0xFF then do {
            dst \<leftarrow> mem_write dst codeIdx (code + 1);
            if rd + 1 = srcLen then Some ((Cobs_Ok, wr + 1), dst)
            else if wr + 1 \<ge> dstCap then Some ((OutputTooSmall, 0), dst)
            else cobs_encode_loop src srcLen dstCap (rd + 1) (wr + 2) (wr + 1) 1 dst
          } else cobs_encode_loop src srcLen dstCap (rd + 1) (wr + 1) codeIdx (code + 1) dst
        }
      } else do {
        dst \<leftarrow> mem_write dst codeIdx code;
        Some ((Cobs_Ok, wr), dst)
      })"
  by pat_completeness auto
termination
  by (relation "measure (\<lambda>(src, srcLen, dstCap, rd, _). srcLen - rd)") auto

declare cobs_encode_loop.simps [simp del]

definition cobs_encode :: "buf \<Rightarrow> nat \<Rightarrow> buf \<Rightarrow> nat \<Rightarrow> (CobsResult \<times> buf) option" where
  "cobs_encode src srcLen dst dstCap =
     (if dstCap < 1 then Some ((OutputTooSmall, 0), dst)
      else cobs_encode_loop src srcLen dstCap 0 1 0 1 dst)"

text \<open>
  \<open>cobs_copy\<close> is the inner loop of \<open>cobs_decode\<close>; it stops early with an error status or
  hands on \<open>rd\<close>, \<open>wr\<close> and the buffer.
\<close>

function cobs_copy ::
  "buf \<Rightarrow> nat \<Rightarrow> nat \<Rightarrow> byte \<Rightarrow> byte \<Rightarrow> nat \<Rightarrow> nat \<Rightarrow> buf
   \<Rightarrow> ((CobsStatus + nat \<times> nat) \<times> buf) option" where
  "cobs_copy src srcLen dstCap code i rd wr dst =
     (if i < code then
        if rd \<ge> srcLen then Some (Inl MalformedInput, dst)
        else if wr \<ge> dstCap then Some (Inl OutputTooSmall, dst)
        else do {
          b \<leftarrow> mem_read src rd;
          dst \<leftarrow> mem_write dst wr b;
          cobs_copy src srcLen dstCap code (i + 1) (rd + 1) (wr + 1) dst
        }
      else Some (Inr (rd, wr), dst))"
  by pat_completeness auto
termination
  by (relation "measure (\<lambda>(src, srcLen, dstCap, code, i, _). unat code - unat i)")
     (auto simp: unat_Suc_less word_less_nat_alt)

declare cobs_copy.simps [simp del]

function cobs_decode_loop ::
  "buf \<Rightarrow> nat \<Rightarrow> nat \<Rightarrow> nat \<Rightarrow> nat \<Rightarrow> buf \<Rightarrow> (CobsResult \<times> buf) option" where
  "cobs_decode_loop src srcLen dstCap rd wr dst =
     (if rd < srcLen then do {
        code \<leftarrow> mem_read src rd;
        if code = 0 then Some ((MalformedInput, 0), dst)
        else do {
          (r, dst) \<leftarrow> cobs_copy src srcLen dstCap code 1 (rd + 1) wr dst;
          case r of
            Inl st \<Rightarrow> Some ((st, 0), dst)
          | Inr (rd', wr') \<Rightarrow>
              if code \<noteq> 0xFF \<and> rd' < srcLen then
                if wr' \<ge> dstCap then Some ((OutputTooSmall, 0), dst)
                else do {
                  dst \<leftarrow> mem_write dst wr' 0;
                  cobs_decode_loop src srcLen dstCap rd' (wr' + 1) dst
                }
              else cobs_decode_loop src srcLen dstCap rd' wr' dst
        }
      } else Some ((Cobs_Ok, wr), dst))"
  by pat_completeness auto

text \<open>The inner loop only moves forward, so the outer one terminates.\<close>

lemma cobs_copy_read:
  "cobs_copy src srcLen dstCap code i rd wr dst = Some (Inr (rd', wr'), dst')
   \<Longrightarrow> rd \<le> rd'"
proof (induction src srcLen dstCap code i rd wr dst rule: cobs_copy.induct)
  case (1 src srcLen dstCap code i rd wr dst)
  from 1(2) show ?case
    by (subst (asm) cobs_copy.simps)
       (auto simp: bind_eq_Some_conv dest!: 1(1) split: if_splits)
qed

termination cobs_decode_loop
  by (relation "measure (\<lambda>(src, srcLen, dstCap, rd, _). srcLen - rd)")
     (auto dest!: cobs_copy_read)

declare cobs_decode_loop.simps [simp del]

definition cobs_decode :: "buf \<Rightarrow> nat \<Rightarrow> buf \<Rightarrow> nat \<Rightarrow> (CobsResult \<times> buf) option" where
  "cobs_decode src srcLen dst dstCap = cobs_decode_loop src srcLen dstCap 0 0 dst"

section \<open>The format on byte lists\<close>

text \<open>
  \<open>cobs_blocks blk xs\<close> is the encoding of \<open>blk @ xs\<close> where \<open>blk\<close> are the bytes already
  collected for the block that is still open.
\<close>

fun cobs_blocks :: "byte list \<Rightarrow> byte list \<Rightarrow> byte list" where
  "cobs_blocks blk [] = of_nat (length blk + 1) # blk"
| "cobs_blocks blk (x # xs) =
     (if x = 0 then of_nat (length blk + 1) # blk @ cobs_blocks [] xs
      else if length blk = 253 then
        (if xs = [] then 0xFF # blk @ [x] else 0xFF # blk @ [x] @ cobs_blocks [] xs)
      else cobs_blocks (blk @ [x]) xs)"

definition cobs_encoding :: "byte list \<Rightarrow> byte list" where
  "cobs_encoding xs = cobs_blocks [] xs"

function cobs_unblock :: "byte list \<Rightarrow> byte list option" where
  "cobs_unblock [] = Some []"
| "cobs_unblock (c # xs) =
     (let n = unat c - 1; blk = take n xs; rest = drop n xs in
      if c = 0 \<or> length xs < n then None
      else map_option (\<lambda>r. blk @ (if c \<noteq> 0xFF \<and> rest \<noteq> [] then [0] else []) @ r)
             (cobs_unblock rest))"
  by pat_completeness auto
termination
  by (relation "measure length") auto

lemma cobs_blocks_neq_Nil [simp]: "cobs_blocks blk xs \<noteq> []"
  by (induction blk xs rule: cobs_blocks.induct) auto

lemma unat_code:
  "n < 254 \<Longrightarrow> unat (of_nat (n + 1) :: byte) = n + 1"
  by (rule unat_of_nat_byte) simp

lemma code_neq:
  assumes "n < 254"
  shows "(of_nat (n + 1) :: byte) \<noteq> 0" "(of_nat (n + 1) :: byte) \<noteq> 0xFF"
proof -
  have u: "unat (of_nat (n + 1) :: byte) = n + 1" by (rule unat_code [OF assms])
  show "(of_nat (n + 1) :: byte) \<noteq> 0" using u by (metis add_is_0 one_neq_zero unat_0)
  show "(of_nat (n + 1) :: byte) \<noteq> 0xFF"
  proof
    assume "(of_nat (n + 1) :: byte) = 0xFF"
    with u have "n + 1 = unat (0xFF :: byte)" by metis
    with assms show False by simp
  qed
qed

lemma cobs_unblock_blocks:
  "length blk < 254 \<Longrightarrow> cobs_unblock (cobs_blocks blk xs) = Some (blk @ xs)"
proof (induction blk xs rule: cobs_blocks.induct)
  case (1 blk)
  then show ?case using unat_code [OF 1] code_neq [OF 1] by simp
next
  case (2 blk x xs)
  then show ?case using unat_code [of "length blk"] code_neq [of "length blk"]
    by (auto simp: Let_def)
qed

lemma cobs_blocks_no_zero:
  "\<lbrakk>length blk < 254; 0 \<notin> set blk\<rbrakk> \<Longrightarrow> 0 \<notin> set (cobs_blocks blk xs)"
proof (induction blk xs rule: cobs_blocks.induct)
  case (1 blk)
  then show ?case using code_neq [of "length blk"] by auto
next
  case (2 blk x xs)
  then show ?case using code_neq [of "length blk"] by auto
qed

lemma length_cobs_blocks_le:
  "length (cobs_blocks blk xs) \<le> cobs_max_encoded_size (length blk + length xs)"
proof (induction blk xs rule: cobs_blocks.induct)
  case (2 blk x xs)
  then show ?case by (auto simp: cobs_max_encoded_size_def)
qed (simp add: cobs_max_encoded_size_def)

lemma length_cobs_blocks_small:
  "length blk + length xs \<le> 254 \<Longrightarrow>
   length (cobs_blocks blk xs) = length blk + length xs + 1"
  by (induction blk xs rule: cobs_blocks.induct) auto

lemma length_cobs_blocks_ge: "length blk + length xs < length (cobs_blocks blk xs)"
  by (induction blk xs rule: cobs_blocks.induct) auto

end
