(* ===== verification/Cobs_Correct.thy ===== *)
theory Cobs_Correct
  imports Cobs
begin

text \<open>
  The loops of \<open>src/src/cobs.cpp\<close> compute the format of \<open>Cobs\<close>, for every input, output
  buffer and capacity, without touching memory outside the buffers. The interface the frame
  layer uses is the locale \<open>stuffing\<close>, interpreted on the two functions as \<open>cobs_io\<close>.
\<close>

section \<open>The encoder loop computes the format\<close>

text \<open>
  What running the encoder means when \<open>out\<close> is the encoding: with room for it, the buffer
  begins with it and the rest is untouched; without, the status says so and nothing beyond
  the capacity was touched.
\<close>

definition encoder_post :: "byte list \<Rightarrow> buf \<Rightarrow> nat \<Rightarrow> (CobsResult \<times> buf) option \<Rightarrow> bool" where
  "encoder_post out dst cap r =
     (if length out \<le> cap
      then r = Some ((Cobs_Ok, length out), out @ drop (length out) dst)
      else \<exists>d. r = Some ((OutputTooSmall, 0), d) \<and> length d = length dst \<and>
               drop cap d = drop cap dst)"

lemma drop_eq_mono: "\<lbrakk>drop k xs = drop k ys; k \<le> n\<rbrakk> \<Longrightarrow> drop n xs = drop n ys"
  by (metis drop_drop le_add_diff_inverse2)

lemma encoder_post_mono:
  assumes "encoder_post out d cap r" "length d = length dst" "drop k d = drop k dst"
    and "k \<le> length out" "k \<le> cap"
  shows "encoder_post out dst cap r"
  using assms drop_eq_mono [of k d dst "length out"] drop_eq_mono [of k d dst cap]
  by (auto simp: encoder_post_def split: if_splits)

lemma encoder_post_too_small:
  assumes "length out > cap" "length d = length dst" "drop cap d = drop cap dst"
  shows "encoder_post out dst cap (Some ((OutputTooSmall, 0), d))"
  using assms by (simp add: encoder_post_def)

text \<open>
  The loop in the shape the invariant gives its state: \<open>acc\<close> is finished output, \<open>h\<close> the
  reserved code byte, \<open>blk\<close> the open block, \<open>rest\<close> not yet written.
\<close>

abbreviation encode_at ::
  "buf \<Rightarrow> nat \<Rightarrow> nat \<Rightarrow> nat \<Rightarrow> buf \<Rightarrow> byte \<Rightarrow> buf \<Rightarrow> buf \<Rightarrow> (CobsResult \<times> buf) option" where
  "encode_at src srcLen cap rd acc h blk rest \<equiv>
     cobs_encode_loop src srcLen cap rd (length (acc @ h # blk)) (length acc)
       (of_nat (length blk + 1)) (acc @ h # blk @ rest)"

lemma encode_at_end:
  assumes "length (acc @ h # blk) \<le> cap"
  shows "encoder_post (acc @ cobs_blocks blk []) (acc @ h # blk @ rest) cap
    (encode_at src srcLen cap srcLen acc h blk rest)"
  using assms by (subst cobs_encode_loop.simps) (simp add: encoder_post_def)

lemma encode_at_zero:
  assumes src: "rd < srcLen" "srcLen \<le> length src" "src ! rd = 0"
    and cap: "length (acc @ h # blk) \<le> cap" "cap \<le> length (acc @ h # blk @ rest)"
    and ys: "ys \<noteq> []"
    and IH: "\<And>h' rest'. \<lbrakk>rest = h' # rest'; length (acc @ h # blk) < cap\<rbrakk> \<Longrightarrow>
      encoder_post ((acc @ of_nat (length blk + 1) # blk) @ ys)
        ((acc @ of_nat (length blk + 1) # blk) @ h' # [] @ rest') cap
        (encode_at src srcLen cap (rd + 1) (acc @ of_nat (length blk + 1) # blk) h' [] rest')"
  shows "encoder_post (acc @ of_nat (length blk + 1) # blk @ ys) (acc @ h # blk @ rest) cap
    (encode_at src srcLen cap rd acc h blk rest)"
proof -
  let ?n = "length acc + 1 + length blk" and ?code = "of_nat (length blk + 1) :: byte"
  have run: "encode_at src srcLen cap rd acc h blk rest =
      (if ?n \<ge> cap then Some ((OutputTooSmall, 0), acc @ ?code # blk @ rest)
       else cobs_encode_loop src srcLen cap (rd + 1) (?n + 1) ?n 1 (acc @ ?code # blk @ rest))"
    using src by (subst cobs_encode_loop.simps) (simp add: algebra_simps cong: if_cong)
  show ?thesis
  proof (cases "?n \<ge> cap")
    case True
    then have "cap = ?n" using cap by simp
    then show ?thesis using run ys by (cases ys) (auto simp: encoder_post_def)
  next
    case False
    then obtain h' rest' where rest: "rest = h' # rest'" using cap by (cases rest) auto
    have "encoder_post (acc @ ?code # blk @ ys) (acc @ ?code # blk @ rest) cap
        (encode_at src srcLen cap rd acc h blk rest)"
      using IH [OF rest] False run rest by simp
    then show ?thesis
      by (rule encoder_post_mono [where k = ?n]) (use False in simp_all)
  qed
qed

lemma encode_at_more:
  assumes src: "rd < srcLen" "srcLen \<le> length src" "src ! rd = x" "x \<noteq> 0"
    and blk: "length blk < 253"
    and cap: "length (acc @ h # blk) \<le> cap" "cap \<le> length (acc @ h # blk @ rest)"
    and ys: "length (blk @ [x]) < length ys"
    and IH: "\<And>h' rest'. \<lbrakk>rest = h' # rest'; length (acc @ h # blk) < cap\<rbrakk> \<Longrightarrow>
      encoder_post (acc @ ys) (acc @ h # (blk @ [x]) @ rest') cap
        (encode_at src srcLen cap (rd + 1) acc h (blk @ [x]) rest')"
  shows "encoder_post (acc @ ys) (acc @ h # blk @ rest) cap
    (encode_at src srcLen cap rd acc h blk rest)"
proof -
  let ?n = "length acc + 1 + length blk" and ?code = "of_nat (length blk + 1) :: byte"
  have code: "?code + 1 = of_nat (length (blk @ [x]) + 1)" by simp
  have "length (blk @ [x]) < 254" using blk by simp
  then have neq: "?code + 1 \<noteq> 0xFF" using code_neq(2) [of "length (blk @ [x])"] code by metis
  have run: "encode_at src srcLen cap rd acc h blk rest =
      (if ?n \<ge> cap then Some ((OutputTooSmall, 0), acc @ h # blk @ rest)
       else do {
         d \<leftarrow> mem_write (acc @ h # blk @ rest) ?n x;
         cobs_encode_loop src srcLen cap (rd + 1) (?n + 1) (length acc) (?code + 1) d })"
    using src neq by (subst cobs_encode_loop.simps) (simp add: algebra_simps cong: if_cong)
  show ?thesis
  proof (cases "?n \<ge> cap")
    case True
    then show ?thesis using run ys cap by (simp add: encoder_post_def)
  next
    case False
    then obtain h' rest' where rest: "rest = h' # rest'" using cap by (cases rest) auto
    have "mem_write (acc @ h # blk @ rest) ?n x = Some (acc @ h # (blk @ [x]) @ rest')"
      using mem_write_append [of "acc @ h # blk" h' rest' x] rest by simp
    then have "encoder_post (acc @ ys) (acc @ h # (blk @ [x]) @ rest') cap
        (encode_at src srcLen cap rd acc h blk rest)"
      using IH [OF rest] False run code by simp
    then show ?thesis
      by (rule encoder_post_mono [where k = "?n + 1"]) (use False rest ys in simp_all)
  qed
qed

lemma encode_at_full_run:
  assumes src: "rd < srcLen" "srcLen \<le> length src" "src ! rd = x" "x \<noteq> 0"
    and blk: "length blk = 253" and cap: "length (acc @ h # blk) < cap"
  shows "encode_at src srcLen cap rd acc h blk (h' # rest) =
    (if rd + 1 = srcLen
     then Some ((Cobs_Ok, length acc + 255), acc @ 0xFF # blk @ x # rest)
     else if length acc + 255 \<ge> cap
     then Some ((OutputTooSmall, 0), acc @ 0xFF # blk @ x # rest)
     else cobs_encode_loop src srcLen cap (rd + 1) (length acc + 256) (length acc + 255) 1
            (acc @ 0xFF # blk @ x # rest))"
proof -
  have w: "mem_write (acc @ h # blk @ h' # rest) (length acc + 254) x
      = Some (acc @ h # blk @ x # rest)"
    using mem_write_append [of "acc @ h # blk" h' rest x] blk by simp
  show ?thesis
    using src blk cap w
    by (subst cobs_encode_loop.simps) (simp add: algebra_simps cong: if_cong)
qed

lemma encode_at_full:
  assumes src: "rd < srcLen" "srcLen \<le> length src" "src ! rd = x" "x \<noteq> 0"
    and blk: "length blk = 253"
    and cap: "length (acc @ h # blk) \<le> cap" "cap \<le> length (acc @ h # blk @ rest)"
    and ys: "ys = [] \<longleftrightarrow> rd + 1 = srcLen"
    and IH: "\<And>y h' rest'. \<lbrakk>rest = y # h' # rest'; length acc + 255 < cap; ys \<noteq> []\<rbrakk> \<Longrightarrow>
      encoder_post ((acc @ 0xFF # blk @ [x]) @ ys) ((acc @ 0xFF # blk @ [x]) @ h' # [] @ rest') cap
        (encode_at src srcLen cap (rd + 1) (acc @ 0xFF # blk @ [x]) h' [] rest')"
  shows "encoder_post (acc @ 0xFF # blk @ [x] @ ys) (acc @ h # blk @ rest) cap
    (encode_at src srcLen cap rd acc h blk rest)"
proof (cases "length (acc @ h # blk) = cap")
  case True
  then have "encode_at src srcLen cap rd acc h blk rest
      = Some ((OutputTooSmall, 0), acc @ h # blk @ rest)"
    using src by (subst cobs_encode_loop.simps) simp
  then show ?thesis using True by (simp add: encoder_post_def)
next
  case False
  then have room: "length (acc @ h # blk) < cap" using cap by simp
  then obtain y rest1 where rest: "rest = y # rest1" using cap by (cases rest) auto
  let ?d = "acc @ 0xFF # blk @ x # rest1"
  note run = encode_at_full_run [OF src blk room, of y rest1]
  have same: "drop (length acc + 255) ?d = drop (length acc + 255) (acc @ h # blk @ rest)"
    using rest blk by simp
  consider (finish) "ys = []" | (no_room) "ys \<noteq> []" "cap = length acc + 255"
    | (go) "ys \<noteq> []" "length acc + 255 < cap"
    using room blk by fastforce
  then show ?thesis
  proof cases
    case finish
    then show ?thesis using run room blk rest ys by (simp add: encoder_post_def)
  next
    case no_room
    then have "encoder_post (acc @ 0xFF # blk @ [x] @ ys) (acc @ h # blk @ rest) cap
        (Some ((OutputTooSmall, 0), ?d))"
      using same blk rest by (intro encoder_post_too_small) simp_all
    then show ?thesis using run no_room ys rest by simp
  next
    case go
    then obtain h' rest' where rest1: "rest1 = h' # rest'" using cap rest blk by (cases rest1) auto
    have "encoder_post (acc @ 0xFF # blk @ [x] @ ys) ?d cap (encode_at src srcLen cap rd acc h blk rest)"
      using IH [of y h' rest'] go run rest rest1 ys blk by (simp add: add.commute)
    then show ?thesis
      by (rule encoder_post_mono [where k = "length acc + 255"]) (use go blk rest same in simp_all)
  qed
qed

lemma cobs_encode_loop_post:
  assumes "srcLen \<le> length src" "cap \<le> length (acc @ h # blk @ rest)"
    and "length (acc @ h # blk) \<le> cap" "length blk < 254" "rd \<le> srcLen"
  shows "encoder_post (acc @ cobs_blocks blk (drop rd (take srcLen src))) (acc @ h # blk @ rest) cap
    (encode_at src srcLen cap rd acc h blk rest)"
  using assms
proof (induction "srcLen - rd" arbitrary: rd acc h blk rest)
  case 0
  then show ?case using encode_at_end [of acc h blk cap rest src rd] by simp
next
  case (Suc n)
  define xs where "xs = drop (rd + 1) (take srcLen src)"
  have rd: "rd < srcLen" using Suc.hyps(2) by simp
  have split: "drop rd (take srcLen src) = src ! rd # xs"
    using rd Suc.prems(1) unfolding xs_def
    by (metis Cons_nth_drop_Suc Suc_eq_plus1 length_take min.absorb2 nth_take)
  have IH: "encoder_post (acc' @ cobs_blocks blk' xs) (acc' @ h' # blk' @ rest') cap
      (encode_at src srcLen cap (rd + 1) acc' h' blk' rest')"
    if "cap \<le> length (acc' @ h' # blk' @ rest')" "length (acc' @ h' # blk') \<le> cap" "length blk' < 254"
    for acc' h' blk' rest'
    unfolding xs_def
    using Suc.hyps Suc.prems(1) rd that by (intro Suc.hyps(1)) simp_all
  have fin: "xs = [] \<longleftrightarrow> rd + 1 = srcLen" using rd Suc.prems(1) by (auto simp: xs_def)
  consider (zero) "src ! rd = 0" | (full) "src ! rd \<noteq> 0" "length blk = 253"
    | (more) "src ! rd \<noteq> 0" "length blk < 253"
    using Suc.prems(4) by linarith
  then show ?case
  proof cases
    case zero
    have "encoder_post (acc @ of_nat (length blk + 1) # blk @ cobs_blocks [] xs)
        (acc @ h # blk @ rest) cap (encode_at src srcLen cap rd acc h blk rest)"
    proof (rule encode_at_zero [OF rd Suc.prems(1) zero Suc.prems(3,2)])
      fix h' rest' assume "rest = h' # rest'" "length (acc @ h # blk) < cap"
      then show "encoder_post ((acc @ of_nat (length blk + 1) # blk) @ cobs_blocks [] xs)
          ((acc @ of_nat (length blk + 1) # blk) @ h' # [] @ rest') cap
          (encode_at src srcLen cap (rd + 1) (acc @ of_nat (length blk + 1) # blk) h' [] rest')"
        using Suc.prems(2) by (intro IH) simp_all
    qed simp
    then show ?thesis using split zero by simp
  next
    case full
    let ?ys = "if xs = [] then [] else cobs_blocks [] xs"
    have "encoder_post (acc @ 0xFF # blk @ [src ! rd] @ ?ys) (acc @ h # blk @ rest) cap
        (encode_at src srcLen cap rd acc h blk rest)"
    proof (rule encode_at_full [OF rd Suc.prems(1) refl full Suc.prems(3,2)])
      show "?ys = [] \<longleftrightarrow> rd + 1 = srcLen" using fin by simp
    next
      fix y h' rest' assume as: "rest = y # h' # rest'" "length acc + 255 < cap" "?ys \<noteq> []"
      then have "xs \<noteq> []" by (metis (full_types))
      with as show "encoder_post ((acc @ 0xFF # blk @ [src ! rd]) @ ?ys)
          ((acc @ 0xFF # blk @ [src ! rd]) @ h' # [] @ rest') cap
          (encode_at src srcLen cap (rd + 1) (acc @ 0xFF # blk @ [src ! rd]) h' [] rest')"
        using IH [of "acc @ 0xFF # blk @ [src ! rd]" h' "[]" rest'] Suc.prems(2) full by simp
    qed
    then show ?thesis using split full by (simp split: if_splits)
  next
    case more
    have "encoder_post (acc @ cobs_blocks (blk @ [src ! rd]) xs) (acc @ h # blk @ rest) cap
        (encode_at src srcLen cap rd acc h blk rest)"
    proof (rule encode_at_more [OF rd Suc.prems(1) refl more Suc.prems(3,2)])
      show "length (blk @ [src ! rd]) < length (cobs_blocks (blk @ [src ! rd]) xs)"
        using length_cobs_blocks_ge [of "blk @ [src ! rd]" xs] by linarith
    next
      fix h' rest' assume "rest = h' # rest'" "length (acc @ h # blk) < cap"
      then show "encoder_post (acc @ cobs_blocks (blk @ [src ! rd]) xs)
          (acc @ h # (blk @ [src ! rd]) @ rest') cap
          (encode_at src srcLen cap (rd + 1) acc h (blk @ [src ! rd]) rest')"
        using Suc.prems(2) more by (intro IH) simp_all
    qed
    then show ?thesis using split more by simp
  qed
qed

lemma cobs_encode_post:
  assumes "srcLen \<le> length src" "dstCap \<le> length dst"
  shows "encoder_post (cobs_encoding (take srcLen src)) dst dstCap (cobs_encode src srcLen dst dstCap)"
proof (cases dst)
  case Nil
  then show ?thesis using assms by (simp add: cobs_encode_def cobs_encoding_def encoder_post_def)
next
  case (Cons h rest)
  then show ?thesis
    using assms cobs_encode_loop_post [of srcLen src dstCap "[]" h "[]" rest 0]
    by (auto simp: cobs_encode_def cobs_encoding_def encoder_post_def)
qed
section \<open>The decoder loop inverts the format\<close>

definition untouched_from :: "nat \<Rightarrow> buf \<Rightarrow> buf \<Rightarrow> bool" where
  "untouched_from cap d d' \<longleftrightarrow> length d = length d' \<and> drop cap d = drop cap d'"

lemma untouched_from_refl [simp]: "untouched_from cap d d"
  by (simp add: untouched_from_def)

lemma untouched_from_trans:
  "\<lbrakk>untouched_from cap d d'; untouched_from cap d' d''\<rbrakk> \<Longrightarrow> untouched_from cap d d''"
  by (simp add: untouched_from_def)

lemma untouched_from_blit:
  "\<lbrakk>p + length bs \<le> cap; cap \<le> length d\<rbrakk> \<Longrightarrow> untouched_from cap (blit p bs d) d"
  by (simp add: untouched_from_def length_blit drop_blit_after)

lemma cobs_copy_done:
  "\<not> i < code \<Longrightarrow> cobs_copy src srcLen cap code i rd wr dst = Some (Inr (rd, wr), dst)"
  by (subst cobs_copy.simps) simp

lemma cobs_copy_step:
  assumes "i < code" "rd < srcLen" "srcLen \<le> length src" "wr < cap" "cap \<le> length dst"
  shows "cobs_copy src srcLen cap code i rd wr dst =
    cobs_copy src srcLen cap code (i + 1) (rd + 1) (wr + 1) (blit wr [src ! rd] dst)"
  using assms by (subst cobs_copy.simps) (simp add: list_update_blit)

lemma cobs_copy_short:
  assumes "i < code" "srcLen \<le> rd"
  shows "cobs_copy src srcLen cap code i rd wr dst = Some (Inl MalformedInput, dst)"
  using assms by (subst cobs_copy.simps) simp

lemma cobs_copy_full:
  assumes "i < code" "rd < srcLen" "cap \<le> wr"
  shows "cobs_copy src srcLen cap code i rd wr dst = Some (Inl OutputTooSmall, dst)"
  using assms by (subst cobs_copy.simps) simp

lemma cobs_copy_ok:
  assumes "rd + n \<le> srcLen" "srcLen \<le> length src" "wr + n \<le> cap" "cap \<le> length dst"
    and "unat i + n = unat code"
  shows "cobs_copy src srcLen cap code i rd wr dst =
    Some (Inr (rd + n, wr + n), blit wr (take n (drop rd src)) dst)"
  using assms
proof (induction n arbitrary: i rd wr dst)
  case 0
  then show ?case by (simp add: cobs_copy_done word_less_nat_alt)
next
  case (Suc n)
  then have i: "i < code" by (simp add: word_less_nat_alt)
  have split: "take (Suc n) (drop rd src) = src ! rd # take n (drop (rd + 1) src)"
    using Suc.prems by (simp add: Cons_nth_drop_Suc [symmetric])
  have "cobs_copy src srcLen cap code i rd wr dst
      = Some (Inr (rd + Suc n, wr + Suc n),
              blit (wr + 1) (take n (drop (rd + 1) src)) (blit wr [src ! rd] dst))"
    using Suc.prems i unat_Suc_less [OF i]
    by (simp add: cobs_copy_step Suc.IH length_blit)
  also have "blit (wr + 1) (take n (drop (rd + 1) src)) (blit wr [src ! rd] dst)
      = blit wr (take (Suc n) (drop rd src)) dst"
    using Suc.prems blit_blit_append [of wr "[src ! rd]" "take n (drop (rd + 1) src)" dst] split
    by simp
  finally show ?case .
qed

lemma cobs_copy_error:
  assumes "rd + m = srcLen" "srcLen \<le> length src" "wr \<le> cap" "cap \<le> length dst"
    and "unat i + n = unat code" "m < n \<or> cap < wr + n"
  shows "\<exists>d. cobs_copy src srcLen cap code i rd wr dst =
      Some (Inl (if m < n \<and> wr + m \<le> cap then MalformedInput else OutputTooSmall), d) \<and>
      untouched_from cap d dst"
  using assms
proof (induction n arbitrary: m i rd wr dst)
  case 0
  then show ?case by simp
next
  case (Suc n)
  then have i: "i < code" by (simp add: word_less_nat_alt)
  consider (short) "m = 0" | (full) k where "m = Suc k" "wr = cap" | (step) k where "m = Suc k" "wr < cap"
    using Suc.prems(3) by (cases m) (auto simp: le_less)
  then show ?case
  proof cases
    case short
    then show ?thesis using i Suc.prems by (simp add: cobs_copy_short)
  next
    case full
    then show ?thesis using i Suc.prems by (simp add: cobs_copy_full)
  next
    case step
    let ?d = "blit wr [src ! rd] dst"
    have "length ?d = length dst" using step Suc.prems by (simp add: length_blit)
    moreover have "untouched_from cap ?d dst"
      using step Suc.prems by (intro untouched_from_blit) simp_all
    ultimately show ?thesis
      using Suc.IH [of "rd + 1" k "wr + 1" ?d "i + 1"] Suc.prems step i unat_Suc_less [OF i]
      by (auto simp: cobs_copy_step intro: untouched_from_trans)
  qed
qed

text \<open>
  The outcome of a decoder run over the region \<open>xs\<close>, as \<open>cobs_unblock xs\<close> and the room left
  after \<open>wr\<close> bytes determine it.
\<close>

definition decoder_post ::
  "byte list \<Rightarrow> nat \<Rightarrow> buf \<Rightarrow> nat \<Rightarrow> (CobsResult \<times> buf) option \<Rightarrow> bool" where
  "decoder_post xs wr dst cap r =
     (case cobs_unblock xs of
        Some out \<Rightarrow>
          if wr + length out \<le> cap
          then r = Some ((Cobs_Ok, wr + length out), blit wr out dst)
          else \<exists>d. r = Some ((OutputTooSmall, 0), d) \<and> untouched_from cap d dst
      | None \<Rightarrow>
          \<exists>st d. r = Some ((st, 0), d) \<and> untouched_from cap d dst \<and>
            (st = MalformedInput \<or> st = OutputTooSmall \<and> cap < wr + length xs))"

lemma length_cobs_unblock: "cobs_unblock xs = Some out \<Longrightarrow> length out \<le> length xs - 1"
proof (induction xs arbitrary: out rule: cobs_unblock.induct)
  case (2 c xs)
  let ?n = "unat c - 1"
  from 2(2) obtain r where r: "c \<noteq> 0" "?n \<le> length xs" "cobs_unblock (drop ?n xs) = Some r"
    and out: "out = take ?n xs @ (if c \<noteq> 0xFF \<and> drop ?n xs \<noteq> [] then [0] else []) @ r"
    by (auto simp: Let_def split: if_splits)
  have "length r \<le> length (drop ?n xs) - 1" using 2(1) r by (simp add: Let_def)
  then show ?case using r(2) out by (auto split: if_splits)
qed simp

lemma decoder_post_prefix:
  assumes "decoder_post ys (wr + length p) (blit wr p dst) cap r"
    and "cobs_unblock xs = map_option (\<lambda>out. p @ out) (cobs_unblock ys)"
    and "wr + length p \<le> cap" "cap \<le> length dst" "length p + length ys \<le> length xs"
  shows "decoder_post xs wr dst cap r"
  using assms untouched_from_blit [of wr p cap dst]
  by (auto simp: decoder_post_def blit_blit_append split: option.splits if_splits
      intro: untouched_from_trans)

lemma decode_loop_error:
  assumes "rd < srcLen" "srcLen \<le> length src" "src ! rd \<noteq> 0"
    and "cobs_copy src srcLen cap (src ! rd) 1 (rd + 1) wr dst = Some (Inl st, d)"
  shows "cobs_decode_loop src srcLen cap rd wr dst = Some ((st, 0), d)"
  using assms by (subst cobs_decode_loop.simps) simp

lemma decode_loop_block:
  assumes "rd < srcLen" "srcLen \<le> length src" "src ! rd = c" "c \<noteq> 0"
    and "cobs_copy src srcLen cap c 1 (rd + 1) wr dst = Some (Inr (rd', wr'), d)"
  shows "cobs_decode_loop src srcLen cap rd wr dst =
    (if c \<noteq> 0xFF \<and> rd' < srcLen then
       if wr' \<ge> cap then Some ((OutputTooSmall, 0), d)
       else do { d \<leftarrow> mem_write d wr' 0; cobs_decode_loop src srcLen cap rd' (wr' + 1) d }
     else cobs_decode_loop src srcLen cap rd' wr' d)"
  using assms by (subst cobs_decode_loop.simps) (simp cong: if_cong)

lemma cobs_unblock_Cons:
  assumes "c \<noteq> 0" "unat c - 1 \<le> length xs"
  shows "cobs_unblock (c # xs) = map_option
    (\<lambda>out. (take (unat c - 1) xs @ (if c \<noteq> 0xFF \<and> drop (unat c - 1) xs \<noteq> [] then [0] else [])) @ out)
    (cobs_unblock (drop (unat c - 1) xs))"
  using assms by (simp add: Let_def)

lemma decoder_post_error:
  assumes "c \<noteq> 0" "length xs < unat c - 1 \<or> cap < wr + (unat c - 1)" "untouched_from cap d dst"
  shows "decoder_post (c # xs) wr dst cap
    (Some ((if length xs < unat c - 1 \<and> wr + length xs \<le> cap then MalformedInput
            else OutputTooSmall, 0), d))"
proof (cases "length xs < unat c - 1")
  case True
  then show ?thesis using assms by (simp add: decoder_post_def Let_def)
next
  case False
  then show ?thesis using assms
    by (auto simp: decoder_post_def cobs_unblock_Cons split: option.split simp del: cobs_unblock.simps)
qed

lemma decoder_post_room:
  assumes "c \<noteq> 0" "c \<noteq> 0xFF" "length blk + 1 = unat c" "rest \<noteq> []"
    and "cap \<le> wr + length blk" "untouched_from cap d dst"
  shows "decoder_post (c # blk @ rest) wr dst cap (Some ((OutputTooSmall, 0), d))"
proof -
  have "unat c - 1 = length blk" using assms by simp
  then show ?thesis using assms
    by (auto simp: decoder_post_def cobs_unblock_Cons split: option.split simp del: cobs_unblock.simps)
qed

lemma decode_loop_block_post:
  assumes rd: "rd < srcLen" "srcLen \<le> length src" "src ! rd = c" "c \<noteq> 0"
    and xs: "drop (rd + 1) (take srcLen src) = blk @ rest" and len: "length blk + 1 = unat c"
    and cap: "wr + length blk \<le> cap" "cap \<le> length dst"
    and IH: "\<And>wr' d. \<lbrakk>wr' \<le> cap; cap \<le> length d\<rbrakk> \<Longrightarrow> decoder_post rest wr' d cap
      (cobs_decode_loop src srcLen cap (rd + 1 + length blk) wr' d)"
  shows "decoder_post (c # blk @ rest) wr dst cap (cobs_decode_loop src srcLen cap rd wr dst)"
proof -
  let ?rd = "rd + 1 + length blk" and ?wr = "wr + length blk"
  have n: "unat c - 1 = length blk" using len by simp
  have fits: "length blk + length rest = srcLen - (rd + 1)"
    using arg_cong [OF xs, of length] rd by simp
  have blk: "take (length blk) (drop (rd + 1) src) = blk"
  proof -
    have "take (length blk) (drop (rd + 1) (take srcLen src)) = blk" by (simp only: xs) simp
    then show ?thesis using fits rd by (simp add: drop_take min_def split: if_splits)
  qed
  have copy: "cobs_copy src srcLen cap c 1 (rd + 1) wr dst = Some (Inr (?rd, ?wr), blit wr blk dst)"
    using cobs_copy_ok [of "rd + 1" "length blk" srcLen src wr cap dst 1 c] rd fits cap len blk by simp
  note run = decode_loop_block [OF rd copy]
  have at_end: "?rd < srcLen \<longleftrightarrow> rest \<noteq> []" using fits rd by (cases rest) auto
  have post: "decoder_post (c # blk @ rest) wr dst cap r"
    if "decoder_post rest (wr + length p) (blit wr p dst) cap r" "wr + length p \<le> cap"
      "p = blk @ (if c \<noteq> 0xFF \<and> rest \<noteq> [] then [0] else [])" for p r
    by (rule decoder_post_prefix [OF that(1)])
      (use that cap n \<open>c \<noteq> 0\<close> in \<open>simp_all add: cobs_unblock_Cons del: cobs_unblock.simps\<close>)
  show ?thesis
  proof (cases "c \<noteq> 0xFF \<and> rest \<noteq> []")
    case False
    then show ?thesis
      using post [of blk] IH [of ?wr "blit wr blk dst"] run at_end cap by (auto simp: length_blit)
  next
    case True
    show ?thesis
    proof (cases "?wr \<ge> cap")
      case True
      then show ?thesis using \<open>c \<noteq> 0xFF \<and> rest \<noteq> []\<close> run at_end rd len cap
        by (simp add: decoder_post_room untouched_from_blit)
    next
      case False
      then have "mem_write (blit wr blk dst) ?wr 0 = Some (blit wr (blk @ [0]) dst)"
        using cap by (intro blit_snoc_write) simp
      then have eq: "cobs_decode_loop src srcLen cap rd wr dst =
          cobs_decode_loop src srcLen cap ?rd (?wr + 1) (blit wr (blk @ [0]) dst)"
        using run at_end False \<open>c \<noteq> 0xFF \<and> rest \<noteq> []\<close> by simp
      have "decoder_post rest (?wr + 1) (blit wr (blk @ [0]) dst) cap
          (cobs_decode_loop src srcLen cap ?rd (?wr + 1) (blit wr (blk @ [0]) dst))"
        using False cap by (intro IH) (simp_all add: length_blit)
      then show ?thesis unfolding eq
        by (intro post [of "blk @ [0]"]) (use False \<open>c \<noteq> 0xFF \<and> rest \<noteq> []\<close> in simp_all)
    qed
  qed
qed

lemma cobs_decode_loop_post:
  assumes "rd \<le> srcLen" "srcLen \<le> length src" "wr \<le> cap" "cap \<le> length dst"
  shows "decoder_post (drop rd (take srcLen src)) wr dst cap
    (cobs_decode_loop src srcLen cap rd wr dst)"
  using assms
proof (induction "srcLen - rd" arbitrary: rd wr dst rule: less_induct)
  case less
  show ?case
  proof (cases "rd < srcLen")
    case False
    then show ?thesis using less.prems
      by (subst cobs_decode_loop.simps) (simp add: decoder_post_def)
  next
    case rd: True
    define c xs n where "c = src ! rd" and "xs = drop (rd + 1) (take srcLen src)" and "n = unat c - 1"
    have split: "drop rd (take srcLen src) = c # xs" and len: "length xs = srcLen - (rd + 1)"
      using rd less.prems by (simp_all add: c_def xs_def Cons_nth_drop_Suc [symmetric])
    have one: "unat (1 :: byte) + n = unat c" if "c \<noteq> 0"
      using that by (simp add: n_def unat_gt_0 Suc_leI)
    consider (zero) "c = 0" | (error) "c \<noteq> 0" "length xs < n \<or> cap < wr + n"
      | (block) "c \<noteq> 0" "n \<le> length xs" "wr + n \<le> cap"
      by linarith
    then show ?thesis
    proof cases
      case zero
      then show ?thesis using rd less.prems split
        by (subst cobs_decode_loop.simps) (simp add: decoder_post_def c_def)
    next
      case error
      then obtain d where d: "cobs_copy src srcLen cap c 1 (rd + 1) wr dst = Some (Inl
            (if length xs < n \<and> wr + length xs \<le> cap then MalformedInput
             else OutputTooSmall), d)" "untouched_from cap d dst"
        using cobs_copy_error [of "rd + 1" "length xs" srcLen src wr cap dst 1 n c] rd less.prems one len
        by auto
      then show ?thesis
        using decode_loop_error [OF rd less.prems(2), of cap wr dst] error split
          decoder_post_error [of c xs cap wr d dst] by (simp add: c_def n_def)
    next
      case block
      have xs_split: "drop (rd + 1) (take srcLen src) = take n xs @ drop n xs"
        by (simp only: xs_def append_take_drop_id)
      have tail: "drop n xs = drop (rd + 1 + n) (take srcLen src)" "length (take n xs) = n"
        using block(2) by (simp_all add: xs_def add.commute)
      have "decoder_post (c # take n xs @ drop n xs) wr dst cap
          (cobs_decode_loop src srcLen cap rd wr dst)"
      proof (rule decode_loop_block_post [OF rd less.prems(2) c_def [symmetric] block(1) xs_split])
        fix wr' and d :: buf assume "wr' \<le> cap" "cap \<le> length d"
        then show "decoder_post (drop n xs) wr' d cap
            (cobs_decode_loop src srcLen cap (rd + 1 + length (take n xs)) wr' d)"
          using less.hyps [of "rd + 1 + n" wr' d] block len rd less.prems(2) tail by simp
      qed (use block one less.prems in simp_all)
      then show ?thesis using split by simp
    qed
  qed
qed

lemma cobs_decode_post:
  assumes "srcLen \<le> length src" "dstCap \<le> length dst"
  shows "decoder_post (take srcLen src) 0 dst dstCap (cobs_decode src srcLen dst dstCap)"
  using cobs_decode_loop_post [of 0 srcLen src 0 dstCap dst] assms by (simp add: cobs_decode_def)
lemma unat_255: "unat (0xFF :: byte) = 255" by simp

section \<open>Every short region has one meaning and one spelling\<close>

lemma cobs_blocks_run:
  "\<lbrakk>0 \<notin> set run; length blk + length run < 254\<rbrakk> \<Longrightarrow> cobs_blocks blk run = of_nat (length blk + length run + 1) # blk @ run"
  by (induction run arbitrary: blk) auto

lemma cobs_blocks_run_zero:
  "\<lbrakk>0 \<notin> set run; length blk + length run < 254\<rbrakk> \<Longrightarrow>
   cobs_blocks blk (run @ 0 # xs) = of_nat (length blk + length run + 1) # blk @ run @ cobs_blocks [] xs"
  by (induction run arbitrary: blk) auto

lemma cobs_blocks_run_full:
  "\<lbrakk>0 \<notin> set run; run \<noteq> []; length blk + length run = 254\<rbrakk> \<Longrightarrow> cobs_blocks blk run = 0xFF # blk @ run"
proof (induction run arbitrary: blk)
  case (Cons x run)
  show ?case
  proof (cases "run = []")
    case False
    then have "length blk < 253" using Cons.prems(3) by (cases run) auto
    then show ?thesis using Cons.IH [of "blk @ [x]"] Cons.prems False by simp
  qed (use Cons.prems in simp)
qed simp

lemma cobs_unblock_canonical:
  "\<lbrakk>cobs_unblock r = Some xs; r \<noteq> []; 0 \<notin> set r; length r \<le> 255\<rbrakk> \<Longrightarrow> cobs_encoding xs = r"
  unfolding cobs_encoding_def
proof (induction r arbitrary: xs rule: cobs_unblock.induct)
  case (2 c ys)
  define blk rest where "blk = take (unat c - 1) ys" and "rest = drop (unat c - 1) ys"
  have ys: "ys = blk @ rest" by (simp add: blk_def rest_def)
  from "2.prems"(1) have c: "c \<noteq> 0" "unat c - 1 \<le> length ys" by (auto simp: Let_def split: if_splits)
  then have len: "length blk + 1 = unat c" by (simp add: blk_def unat_gt_0 Suc_leI)
  then have code: "of_nat (length blk + 1) = c" by (subst len) simp
  obtain zs where zs: "cobs_unblock rest = Some zs"
      "xs = blk @ (if c \<noteq> 0xFF \<and> rest \<noteq> [] then [0] else []) @ zs"
    using "2.prems"(1) c by (auto simp: cobs_unblock_Cons blk_def rest_def simp del: cobs_unblock.simps)
  have blk0: "0 \<notin> set blk" "0 \<notin> set rest" using "2.prems"(3) ys by auto
  have c255: "unat c < 255" if "c \<noteq> 0xFF"
    using that unat_byte_le [of c] by (metis le_neq_implies_less unat_255 word_unat_eq_iff)
  consider (full) "c = 0xFF" | (last) "c \<noteq> 0xFF" "rest = []" | (more) "c \<noteq> 0xFF" "rest \<noteq> []" by blast
  then show ?case
  proof cases
    case full
    then have "length blk = 254" "rest = []" using len "2.prems"(4) ys by simp_all
    then show ?thesis using zs full blk0 ys cobs_blocks_run_full [of blk "[]"] by fastforce
  next
    case last
    then have "length blk < 254" using len c255 by simp
    then show ?thesis using zs last blk0 ys code cobs_blocks_run [of blk "[]"] by simp
  next
    case more
    then have "length blk < 254" using len c255 by simp
    moreover have "cobs_blocks [] zs = rest"
      using "2.IH" [OF refl refl refl, of zs] zs(1) more(2) blk0 "2.prems"(4) c
      by (auto simp: rest_def not_less)
    ultimately show ?thesis using zs more blk0 ys code cobs_blocks_run_zero [of blk "[]" zs] by simp
  qed
qed simp

section \<open>The interface the frame layer uses\<close>

text \<open>
  What a byte-stuffing pair promises to its client: on buffers, \<open>enc\<close> and \<open>dec\<close> compute the
  list functions \<open>code\<close> and \<open>uncode\<close> as far as the capacity allows and fail cleanly
  otherwise; on lists, \<open>uncode\<close> inverts \<open>code\<close>, and \<open>code\<close> avoids the delimiter.
\<close>

locale stuffing =
  fixes enc dec :: "buf \<Rightarrow> nat \<Rightarrow> buf \<Rightarrow> nat \<Rightarrow> (CobsResult \<times> buf) option"
    and code :: "byte list \<Rightarrow> byte list"
    and uncode :: "byte list \<Rightarrow> byte list option"
  assumes enc_ok: "\<lbrakk>n \<le> length src; cap \<le> length dst; length (code (take n src)) \<le> cap\<rbrakk> \<Longrightarrow>
      enc src n dst cap =
        Some ((Cobs_Ok, length (code (take n src))), blit 0 (code (take n src)) dst)"
    and enc_small: "\<lbrakk>n \<le> length src; cap \<le> length dst; cap < length (code (take n src))\<rbrakk> \<Longrightarrow>
      \<exists>d. enc src n dst cap = Some ((OutputTooSmall, 0), d) \<and> untouched_from cap d dst"
    and dec_ok: "\<lbrakk>n \<le> length src; cap \<le> length dst; uncode (take n src) = Some out; length out \<le> cap\<rbrakk> \<Longrightarrow>
      dec src n dst cap = Some ((Cobs_Ok, length out), blit 0 out dst)"
    and dec_error: "\<lbrakk>n \<le> length src; cap \<le> length dst;
        uncode (take n src) = None \<or> cap < length (the (uncode (take n src)))\<rbrakk> \<Longrightarrow>
      \<exists>st d. dec src n dst cap = Some ((st, 0), d) \<and> st \<noteq> Cobs_Ok \<and> untouched_from cap d dst"
    and uncode_code: "uncode (code xs) = Some xs"
    and code_no_zero: "0 \<notin> set (code xs)"
begin

lemma enc_safe:
  "\<lbrakk>n \<le> length src; cap \<le> length dst\<rbrakk> \<Longrightarrow>
   \<exists>r d. enc src n dst cap = Some (r, d) \<and> untouched_from cap d dst"
  using enc_ok [of n src cap dst] enc_small [of n src cap dst]
  by (cases "length (code (take n src)) \<le> cap") (auto simp: not_le intro: untouched_from_blit)

lemma dec_safe:
  "\<lbrakk>n \<le> length src; cap \<le> length dst\<rbrakk> \<Longrightarrow>
   \<exists>r d. dec src n dst cap = Some (r, d) \<and> untouched_from cap d dst"
  using dec_ok [of n src cap dst "the (uncode (take n src))"] dec_error [of n src cap dst]
  by (cases "uncode (take n src)"; cases "length (the (uncode (take n src))) \<le> cap")
     (auto simp: not_le intro: untouched_from_blit)

lemma enc_dec:
  assumes "n \<le> length src" "length (code (take n src)) \<le> cap" "cap \<le> length mid"
    and "n \<le> cap'" "cap' \<le> length dst"
  shows "\<exists>m mid'. enc src n mid cap = Some ((Cobs_Ok, m), mid') \<and> 0 \<notin> set (take m mid') \<and>
    dec mid' m dst cap' = Some ((Cobs_Ok, n), blit 0 (take n src) dst)"
proof (intro exI conjI)
  let ?w = "code (take n src)"
  let ?mid = "blit 0 ?w mid"
  show enc: "enc src n mid cap = Some ((Cobs_Ok, length ?w), ?mid)"
    using assms by (intro enc_ok) simp_all
  have wire: "take (length ?w) ?mid = ?w" using assms by (simp add: blit_def)
  then show "0 \<notin> set (take (length ?w) ?mid)" by (simp add: code_no_zero)
  show "dec ?mid (length ?w) dst cap' = Some ((Cobs_Ok, n), blit 0 (take n src) dst)"
    using assms wire dec_ok [of "length ?w" ?mid cap' dst "take n src"]
    by (simp add: length_blit uncode_code)
qed

lemma code_inj: "code xs = code ys \<longleftrightarrow> xs = ys"
  by (metis option.inject uncode_code)

end

interpretation cobs_io: stuffing cobs_encode cobs_decode cobs_encoding cobs_unblock
proof
  show "cobs_encode src n dst cap = Some ((Cobs_Ok, length (cobs_encoding (take n src))),
      blit 0 (cobs_encoding (take n src)) dst)"
    if "n \<le> length src" "cap \<le> length dst" "length (cobs_encoding (take n src)) \<le> cap"
    for n src cap dst
    using cobs_encode_post [OF that(1,2)] that(3) by (simp add: encoder_post_def blit_def)
  show "\<exists>d. cobs_encode src n dst cap = Some ((OutputTooSmall, 0), d) \<and> untouched_from cap d dst"
    if "n \<le> length src" "cap \<le> length dst" "cap < length (cobs_encoding (take n src))"
    for n src cap dst
    using cobs_encode_post [OF that(1,2)] that(3) by (simp add: encoder_post_def untouched_from_def)
  show "cobs_decode src n dst cap = Some ((Cobs_Ok, length out), blit 0 out dst)"
    if "n \<le> length src" "cap \<le> length dst" "cobs_unblock (take n src) = Some out" "length out \<le> cap"
    for n src cap dst out
    using cobs_decode_post [OF that(1,2)] that(3,4) by (simp add: decoder_post_def)
  show "\<exists>st d. cobs_decode src n dst cap = Some ((st, 0), d) \<and> st \<noteq> Cobs_Ok \<and> untouched_from cap d dst"
    if "n \<le> length src" "cap \<le> length dst"
      "cobs_unblock (take n src) = None \<or> cap < length (the (cobs_unblock (take n src)))"
    for n src cap dst
    using cobs_decode_post [OF that(1,2)] that(3)
    by (auto simp: decoder_post_def split: option.splits)
  show "cobs_unblock (cobs_encoding xs) = Some xs" for xs
    by (simp add: cobs_encoding_def cobs_unblock_blocks)
  show "0 \<notin> set (cobs_encoding xs)" for xs
    by (simp add: cobs_encoding_def cobs_blocks_no_zero)
qed

lemma length_cobs_encoding_small:
  "length xs \<le> 254 \<Longrightarrow> length (cobs_encoding xs) = length xs + 1"
  by (simp add: cobs_encoding_def length_cobs_blocks_small)

lemma length_cobs_encoding_le: "length (cobs_encoding xs) \<le> cobs_max_encoded_size (length xs)"
  using length_cobs_blocks_le [of "[]" xs] by (simp add: cobs_encoding_def)

text \<open>The decoder looks for zeros only where it expects a code byte: one among the bytes of a
  block is copied like any other, although the header documents it as malformed input.
  (Regions that come from \<open>FrameReader\<close> hold no zero.)\<close>

lemma cobs_decode_inner_zero:
  "cobs_decode [3, 0, 5] 3 [9, 9, 9] 3 = Some ((Cobs_Ok, 2), [0, 5, 9])"
  by code_simp

section \<open>Properties\<close>

text \<open>C32: whatever the \<open>n\<close> source bytes are, encoding them into a buffer of the documented
  worst-case size succeeds, the encoding holds no zero byte, and decoding it gives the
  source bytes back.\<close>

theorem cobs_roundtrip:
  assumes "n \<le> length src" "cobs_max_encoded_size n \<le> cap" "cap \<le> length mid"
    and "n \<le> cap'" "cap' \<le> length dst"
  shows "\<exists>m mid'. cobs_encode src n mid cap = Some ((Cobs_Ok, m), mid') \<and> 0 \<notin> set (take m mid') \<and>
    cobs_decode mid' m dst cap' = Some ((Cobs_Ok, n), blit 0 (take n src) dst)"
  using assms length_cobs_encoding_le [of "take n src"] by (intro cobs_io.enc_dec) simp_all

theorem cobs_roundtrip_witness:
  "\<exists>m mid'. cobs_encode [0x11, 0, 0, 0x22] 4 (replicate 5 0) 5 = Some ((Cobs_Ok, m), mid') \<and>
    0 \<notin> set (take m mid') \<and>
    cobs_decode mid' m [9, 9, 9, 9, 9] 4 = Some ((Cobs_Ok, 4), [0x11, 0, 0, 0x22, 9])"
  using cobs_roundtrip [of 4 "[0x11, 0, 0, 0x22]" 5 "replicate 5 0" 4 "[9, 9, 9, 9, 9]"]
  by (simp add: cobs_max_encoded_size_def blit_def)

text \<open>C39: the encoder reports success exactly when the encoding fits the capacity; the
  encoding of the at most 254 bytes of a raw block has one overhead byte, any encoding at
  most the documented worst case. Nothing beyond the capacity is written in either case.\<close>

theorem cobs_encode_capacity:
  assumes "n \<le> length src" "cap \<le> length dst"
  shows "(\<exists>d. cobs_encode src n dst cap =
      Some (if length (cobs_encoding (take n src)) \<le> cap
            then (Cobs_Ok, length (cobs_encoding (take n src))) else (OutputTooSmall, 0), d) \<and>
      untouched_from cap d dst) \<and>
    length (cobs_encoding (take n src)) \<le> cobs_max_encoded_size n \<and>
    (n \<le> 254 \<longrightarrow> length (cobs_encoding (take n src)) = n + 1)"
  using assms cobs_io.enc_ok [OF assms] cobs_io.enc_small [OF assms]
    length_cobs_encoding_le [of "take n src"] length_cobs_encoding_small [of "take n src"]
  by (auto simp: not_le intro: untouched_from_blit)

theorem cobs_encode_capacity_witness:
  "\<exists>d. cobs_encode [1, 2, 3] 3 [7, 7] 2 = Some ((OutputTooSmall, 0), d) \<and> untouched_from 2 d [7, 7]"
  using cobs_encode_capacity [of 3 "[1, 2, 3]" 2 "[7, 7]"] by auto

text \<open>Decoding never leaves its buffers, for any input, and rejects a block only with an
  error status and length zero.\<close>

lemma cobs_decode_safe:
  assumes "n \<le> length src" "cap \<le> length dst"
  shows "\<exists>st m d. cobs_decode src n dst cap = Some ((st, m), d) \<and> untouched_from cap d dst \<and>
    (if st = Cobs_Ok then m \<le> cap \<and> m \<le> n \<and> cobs_unblock (take n src) = Some (take m d) else m = 0)"
proof (cases "cobs_unblock (take n src)")
  case None
  then show ?thesis using cobs_io.dec_error [OF assms] by fastforce
next
  case (Some out)
  then have len: "length out \<le> n" using length_cobs_unblock [OF Some] assms by simp
  show ?thesis
  proof (cases "length out \<le> cap")
    case True
    then show ?thesis
      using cobs_io.dec_ok [OF assms Some True] Some len assms untouched_from_blit [of 0 out cap dst]
      by (auto simp: blit_def)
  next
    case False
    then show ?thesis using cobs_io.dec_error [OF assms] Some by fastforce
  qed
qed

text \<open>A region without zero bytes that fits the receive buffer and decodes at all is the
  encoding of what it decodes to: no two such regions carry the same block.\<close>

lemma cobs_region_canonical:
  assumes "n \<le> length region" "n \<le> 255" "0 < n" "0 \<notin> set (take n region)"
    and "cobs_decode region n dst cap = Some ((Cobs_Ok, m), d)" "cap \<le> length dst"
  shows "take n region = cobs_encoding (take m d)"
proof -
  have "cobs_unblock (take n region) = Some (take m d)"
    using cobs_decode_safe [OF assms(1,6)] assms(5) by auto
  moreover have "take n region \<noteq> []" using assms by auto
  ultimately show ?thesis using assms cobs_unblock_canonical [of "take n region" "take m d"] by simp
qed

end
