(* ===== verification/Crc16.thy ===== *)
theory Crc16
  imports Prelude
begin

text \<open>
  CRC-16/CCITT-FALSE: \<open>src/src/crc16.cpp\<close> and \<open>src/include/eup/crc16.hpp\<close>.
  \<open>crc16_bit\<close> is the body of the inner loop, \<open>crc16_byte\<close> one round of the outer
  one. The lemmas show that the running value may be computed over any split of the
  data, and which corruptions the checksum always detects.
\<close>

section \<open>The code\<close>

definition crc16_ccitt_init :: "16 word" where
  "crc16_ccitt_init = 0xFFFF"

definition crc16_bit :: "16 word \<Rightarrow> 16 word" where
  "crc16_bit crc =
     (if crc AND 0x8000 \<noteq> 0 then push_bit 1 crc XOR 0x1021 else push_bit 1 crc)"

fun crc16_bits :: "nat \<Rightarrow> 16 word \<Rightarrow> 16 word" where
  "crc16_bits 0 crc = crc"
| "crc16_bits (Suc n) crc = crc16_bits n (crc16_bit crc)"

definition crc16_byte :: "16 word \<Rightarrow> byte \<Rightarrow> 16 word" where
  "crc16_byte crc b = crc16_bits 8 (crc XOR push_bit 8 (ucast b))"

function crc16_loop :: "buf \<Rightarrow> nat \<Rightarrow> nat \<Rightarrow> 16 word \<Rightarrow> 16 word option" where
  "crc16_loop data len i crc =
     (if i < len then do {
        b \<leftarrow> mem_read data i;
        crc16_loop data len (i + 1) (crc16_byte crc b)
      } else Some crc)"
  by pat_completeness auto
termination
  by (relation "measure (\<lambda>(data, len, i, crc). len - i)") auto

declare crc16_loop.simps [simp del]

definition crc16_ccitt_update :: "16 word \<Rightarrow> buf \<Rightarrow> nat \<Rightarrow> 16 word option" where
  "crc16_ccitt_update crc data len = crc16_loop data len 0 crc"

definition crc16_ccitt :: "buf \<Rightarrow> nat \<Rightarrow> 16 word option" where
  "crc16_ccitt data len = crc16_ccitt_update crc16_ccitt_init data len"

section \<open>The checksum as a fold\<close>

definition crc16_fold :: "16 word \<Rightarrow> byte list \<Rightarrow> 16 word" where
  "crc16_fold = foldl crc16_byte"

lemma crc16_fold_simps [simp]:
  "crc16_fold crc [] = crc"
  "crc16_fold crc (b # bs) = crc16_fold (crc16_byte crc b) bs"
  "crc16_fold crc (xs @ ys) = crc16_fold (crc16_fold crc xs) ys"
  by (simp_all add: crc16_fold_def)

lemma crc16_loop_fold:
  "len \<le> length data \<Longrightarrow>
   crc16_loop data len i crc = Some (crc16_fold crc (drop i (take len data)))"
proof (induction data len i crc rule: crc16_loop.induct)
  case (1 data len i crc)
  show ?case
  proof (cases "i < len")
    case True
    with 1 have "drop i (take len data) = data ! i # drop (Suc i) (take len data)"
      by (metis Cons_nth_drop_Suc length_take min.absorb2 nth_take)
    with True 1 show ?thesis by (simp add: crc16_loop.simps [of data len i])
  next
    case False
    then show ?thesis by (simp add: crc16_loop.simps [of data len i])
  qed
qed

lemma crc16_update_fold:
  "len \<le> length data \<Longrightarrow>
   crc16_ccitt_update crc data len = Some (crc16_fold crc (take len data))"
  by (simp add: crc16_ccitt_update_def crc16_loop_fold)

lemma crc16_ccitt_fold:
  "len \<le> length data \<Longrightarrow>
   crc16_ccitt data len = Some (crc16_fold crc16_ccitt_init (take len data))"
  by (simp add: crc16_ccitt_def crc16_update_fold)

section \<open>The step is linear and one-to-one\<close>

lemma bit_crc16_poly: "bit (0x1021 :: 16 word) n \<longleftrightarrow> n \<in> {0, 5, 12}"
proof -
  have "(0x1021 :: 16 word) = push_bit 12 1 XOR (push_bit 5 1 XOR 1)" by simp
  then show ?thesis
    by (simp only: bit_simps possible_bit_word) auto
qed

lemma crc16_msb: "(crc AND 0x8000 \<noteq> 0) = bit (crc :: 16 word) 15"
proof -
  have "(0x8000 :: 16 word) = push_bit 15 1" by simp
  then have "crc AND 0x8000 = push_bit 15 (of_bool (bit crc 15))"
    by (auto intro!: bit_word_eqI simp only: bit_simps possible_bit_word)
       (auto simp: less_Suc_eq numeral_eq_Suc)
  then show ?thesis by simp
qed

lemma bit_crc16_bit:
  "bit (crc16_bit x) n \<longleftrightarrow>
   n < 16 \<and> ((0 < n \<and> bit x (n - 1)) \<noteq> (bit x 15 \<and> n \<in> {0, 5, 12}))"
  unfolding crc16_bit_def crc16_msb
  by (cases "bit x 15") (auto simp only: if_True if_False bit_xor_iff bit_push_bit_iff bit_crc16_poly, auto)

lemma crc16_bit_xor: "crc16_bit (x XOR y) = crc16_bit x XOR crc16_bit y"
  by (rule bit_word_eqI) (auto simp add: bit_crc16_bit bit_xor_iff)

lemma crc16_bit_inj: "crc16_bit x = crc16_bit y \<longleftrightarrow> x = y"
proof
  assume eq: "crc16_bit x = crc16_bit y"
  then have iff: "bit (crc16_bit x) n = bit (crc16_bit y) n" for n by simp
  have 15: "bit x 15 = bit y 15" using iff [of 0] by (simp add: bit_crc16_bit)
  show "x = y"
  proof (rule bit_word_eqI)
    fix n assume n: "n < LENGTH(16)"
    show "bit x n = bit y n"
      using iff [of "Suc n"] 15 n by (cases "n = 15") (auto simp add: bit_crc16_bit)
  qed
qed simp

lemma crc16_bits_xor: "crc16_bits n (x XOR y) = crc16_bits n x XOR crc16_bits n y"
  by (induction n arbitrary: x y) (simp_all add: crc16_bit_xor)

lemma crc16_bits_inj: "crc16_bits n x = crc16_bits n y \<longleftrightarrow> x = y"
  by (induction n arbitrary: x y) (simp_all add: crc16_bit_inj)

lemma crc16_bits_add: "crc16_bits m (crc16_bits n x) = crc16_bits (n + m) x"
  by (induction n arbitrary: x) simp_all

text \<open>As long as no set bit reaches the top, a round is a plain shift.\<close>

lemma crc16_bits_shift:
  "\<lbrakk>n \<le> 16; \<forall>i. bit y i \<longrightarrow> i + n < 16\<rbrakk> \<Longrightarrow> crc16_bits n y = push_bit n y"
proof (induction n arbitrary: y)
  case 0
  then show ?case by simp
next
  case (Suc n)
  have "\<not> bit y 15" using Suc.prems by auto
  then have step: "crc16_bit y = push_bit 1 y" by (simp only: crc16_bit_def crc16_msb if_False)
  have "\<forall>i. bit (push_bit 1 y) i \<longrightarrow> i + n < 16"
  proof (intro allI impI)
    fix i assume "bit (push_bit 1 y) i"
    then have "bit y (i - 1)" "1 \<le> i" by (auto simp only: bit_push_bit_iff)
    then have "(i - 1) + Suc n < 16" using Suc.prems by blast
    with \<open>1 \<le> i\<close> show "i + n < 16" by simp
  qed
  then have "crc16_bits n (push_bit 1 y) = push_bit n (push_bit 1 y)" using Suc by simp
  then show ?case by (simp only: crc16_bits.simps step push_bit_push_bit) simp
qed

lemma crc16_bits_byte: "crc16_bits 8 (ucast (b :: byte)) = push_bit 8 (ucast b)"
  by (rule crc16_bits_shift) (auto simp: bit_simps dest: bit_imp_le_length)

lemma crc16_two_bytes:
  "crc16_byte (crc16_byte s a) b = crc16_bits 16 (s XOR (push_bit 8 (ucast a) XOR ucast b))"
proof -
  have "crc16_byte (crc16_byte s a) b
      = crc16_bits 8 (crc16_bits 8 (s XOR push_bit 8 (ucast a)) XOR crc16_bits 8 (ucast b))"
    by (simp only: crc16_byte_def crc16_bits_byte)
  also have "\<dots> = crc16_bits 16 ((s XOR push_bit 8 (ucast a)) XOR ucast b)"
    by (simp only: crc16_bits_xor [symmetric] crc16_bits_add) simp
  finally show ?thesis by (simp only: xor.assoc)
qed

lemma byte_pair_inj:
  assumes "push_bit 8 (ucast a) XOR ucast b = push_bit 8 (ucast a') XOR (ucast b' :: 16 word)"
  shows "a = (a' :: byte) \<and> b = (b' :: byte)"
proof -
  have bits: "bit (push_bit 8 (ucast a) XOR (ucast b :: 16 word)) n
      = bit (push_bit 8 (ucast a') XOR (ucast b' :: 16 word)) n" for n
    using assms by simp
  have "a = a'"
  proof (rule bit_word_eqI)
    fix n assume "n < LENGTH(8)"
    then show "bit a n = bit a' n" using bits [of "n + 8"]
      by (auto simp: bit_simps dest: bit_imp_le_length)
  qed
  moreover have "b = b'"
  proof (rule bit_word_eqI)
    fix n assume "n < LENGTH(8)"
    then show "bit b n = bit b' n" using bits [of n] by (auto simp: bit_simps)
  qed
  ultimately show ?thesis by simp
qed

lemma push_ucast_inj:
  "push_bit 8 (ucast a :: 16 word) = push_bit 8 (ucast (b :: byte)) \<longleftrightarrow> a = b"
  using byte_pair_inj [of a 0 b 0] by auto

lemma crc16_byte_inj: "crc16_byte s a = crc16_byte t a \<longleftrightarrow> s = t"
  by (simp add: crc16_byte_def crc16_bits_inj word_xor_cancel)

lemma crc16_fold_inj: "crc16_fold s xs = crc16_fold t xs \<longleftrightarrow> s = t"
  by (induction xs arbitrary: s t) (simp_all add: crc16_byte_inj)

lemma crc16_burst:
  "crc16_fold s (xs @ a # b # ys) = crc16_fold s (xs @ a' # b' # ys) \<longleftrightarrow> a = a' \<and> b = b'"
  by (auto simp: crc16_fold_inj crc16_two_bytes crc16_bits_inj word_xor_cancel dest: byte_pair_inj)

lemma crc16_single:
  "crc16_fold s (xs @ a # ys) = crc16_fold s (xs @ a' # ys) \<longleftrightarrow> a = a'"
  by (simp add: crc16_fold_inj crc16_byte_def crc16_bits_inj word_xor_cancel push_ucast_inj)
section \<open>The interface the frame layer uses\<close>

text \<open>
  A checksum function over buffers computes a function \<open>total\<close> of the bytes, and any change
  confined to one byte or to two neighbouring bytes changes it.
\<close>

locale checksum =
  fixes crc :: "buf \<Rightarrow> nat \<Rightarrow> 16 word option"
    and total :: "byte list \<Rightarrow> 16 word"
  assumes crc_total: "n \<le> length b \<Longrightarrow> crc b n = Some (total (take n b))"
    and total_single: "total (xs @ a # ys) = total (xs @ a' # ys) \<longleftrightarrow> a = a'"
    and total_burst: "total (xs @ a # c # ys) = total (xs @ a' # c' # ys) \<longleftrightarrow> a = a' \<and> c = c'"
begin

lemma total_update:
  assumes "i < length xs"
  shows "total (xs[i := a]) = total xs \<longleftrightarrow> xs ! i = a"
  using assms total_single [of "take i xs" a "drop (Suc i) xs" "xs ! i"]
  by (metis id_take_nth_drop upd_conv_take_nth_drop)

lemma total_update2:
  assumes "Suc i < length xs"
  shows "total (xs[i := a, Suc i := c]) = total xs \<longleftrightarrow> xs ! i = a \<and> xs ! Suc i = c"
proof -
  let ?u = "take i xs" and ?v = "drop (Suc (Suc i)) xs"
  have xs: "xs = ?u @ xs ! i # xs ! Suc i # ?v"
    using assms by (simp add: Cons_nth_drop_Suc)
  have "xs[i := a, Suc i := c] = ?u @ a # c # ?v"
    using assms by (subst xs) (simp add: list_update_append min_def)
  then show ?thesis using total_burst [of ?u a c ?v "xs ! i" "xs ! Suc i"] xs by metis
qed

end

interpretation crc_sum: checksum crc16_ccitt "crc16_fold crc16_ccitt_init"
  by unfold_locales (simp_all only: crc16_ccitt_fold crc16_single crc16_burst)

section \<open>Properties\<close>

text \<open>The CRC may be computed incrementally: updating over the first \<open>m\<close> bytes and
  then over the next \<open>n\<close> gives what one update over all \<open>m + n\<close> bytes gives.\<close>

lemma crc16_incremental:
  assumes "m + n \<le> length data"
  shows "crc16_ccitt_update crc data (m + n) =
    do { c \<leftarrow> crc16_ccitt_update crc data m; crc16_ccitt_update c (drop m data) n }"
  using assms by (simp add: crc16_update_fold take_add)

text \<open>Two blocks of the same length that differ in at most two neighbouring bytes have
  the same CRC only if they are equal: every burst of errors inside two neighbouring
  bytes is detected.\<close>

lemma crc16_detects_two_byte_burst:
  "crc16_ccitt (xs @ a # b # ys) (length xs + 2 + length ys) =
   crc16_ccitt (xs @ a' # b' # ys) (length xs + 2 + length ys) \<longleftrightarrow> a = a' \<and> b = b'"
  by (simp add: crc_sum.crc_total crc_sum.total_burst [simplified])

text \<open>The check value that \<open>crc16.hpp\<close> documents for the digits 1 to 9.\<close>

lemma crc16_check_value:
  "crc16_ccitt [0x31, 0x32, 0x33, 0x34, 0x35, 0x36, 0x37, 0x38, 0x39] 9 = Some 0x29B1"
  by code_simp

end
