(* ===== verification/Frame.thy ===== *)
theory Frame
  imports Cobs_Correct Crc16
begin

text \<open>
  The packet layer: \<open>src/include/eup/frame.hpp\<close> and the functions \<open>encode_frame\<close> and
  \<open>decode_region\<close> of \<open>src/src/frame.cpp\<close>, over buffers. \<open>frame_raw\<close> and \<open>frame_wire\<close> are
  the wire format on byte lists, \<open>frame_check\<close> the receiver's verdict on a raw block; the
  lemmas relate them and show that the functions compute them. Enumerations with a fixed
  underlying type that the code casts from arbitrary bytes (\<open>MessageType\<close>) are bytes.
\<close>

section \<open>The code\<close>

definition kMaxPayload :: nat where "kMaxPayload = 250"
definition kMaxPacket :: nat where "kMaxPacket = 256"
definition kCrcSize :: nat where "kCrcSize = 2"
definition kHeaderSize :: nat where "kHeaderSize = 2"
definition kDelimiter :: byte where "kDelimiter = 0"

lemmas frame_consts = kMaxPayload_def kMaxPacket_def kCrcSize_def kHeaderSize_def kDelimiter_def

type_synonym MessageType = byte

definition MT_Invalid :: MessageType where "MT_Invalid = 0"
definition MT_Command :: MessageType where "MT_Command = 1"
definition MT_Reply :: MessageType where "MT_Reply = 2"
definition MT_Stream :: MessageType where "MT_Stream = 3"

lemmas message_types = MT_Invalid_def MT_Command_def MT_Reply_def MT_Stream_def

record Frame =
  ftype :: MessageType
  flength :: byte
  payload :: buf

definition Frame_init :: Frame where
  "Frame_init = \<lparr>ftype = MT_Invalid, flength = 0, payload = replicate kMaxPayload 0\<rparr>"

datatype FrameStatus =
  Frame_Ok | PayloadTooLarge | BufferTooSmall | Truncated | LengthMismatch | CrcMismatch | CobsError

type_synonym EncodeResult = "FrameStatus \<times> nat"
type_synonym DecodeResult = "FrameStatus \<times> 16 word"

text \<open>
  The local array \<open>raw\<close> of both functions is not initialised in the code. Its contents on
  entry are the parameter \<open>raw0\<close> of the \<open>_on\<close> versions, and the results are shown not to
  depend on it; the plain versions fix it.
\<close>

definition kRawSize :: nat where "kRawSize = kHeaderSize + kMaxPayload + kCrcSize"

definition raw_stack :: buf where "raw_stack = replicate kRawSize 0"

text \<open>The loop that copies the payload into \<open>raw\<close>; a null \<open>payload\<close> pointer is \<open>None\<close>.\<close>

function frame_fill :: "buf option \<Rightarrow> byte \<Rightarrow> byte \<Rightarrow> buf \<Rightarrow> buf option" where
  "frame_fill pl len i raw =
     (if i < len then do {
        v \<leftarrow> (case pl of None \<Rightarrow> Some 0 | Some p \<Rightarrow> mem_read p (unat i));
        raw \<leftarrow> mem_write raw (kHeaderSize + unat i) v;
        frame_fill pl len (i + 1) raw
      } else Some raw)"
  by pat_completeness auto
termination
  by (relation "measure (\<lambda>(pl, len, i, raw). unat len - unat i)")
     (auto simp: unat_Suc_less word_less_nat_alt)

declare frame_fill.simps [simp del]

text \<open>The raw block: header, payload, CRC with its low byte first.\<close>

definition build_raw :: "buf \<Rightarrow> MessageType \<Rightarrow> buf option \<Rightarrow> byte \<Rightarrow> buf option" where
  "build_raw raw0 type pl len =
     do {
       raw \<leftarrow> mem_write raw0 0 type;
       raw \<leftarrow> mem_write raw 1 len;
       raw \<leftarrow> frame_fill pl len 0 raw;
       let crcCovered = kHeaderSize + unat len;
       crc \<leftarrow> crc16_ccitt raw crcCovered;
       raw \<leftarrow> mem_write raw (crcCovered + 0) (ucast (crc AND 0xFF));
       mem_write raw (crcCovered + 1) (ucast (drop_bit 8 crc AND 0xFF))
     }"

definition encode_frame_on ::
  "buf \<Rightarrow> MessageType \<Rightarrow> buf option \<Rightarrow> byte \<Rightarrow> buf \<Rightarrow> nat \<Rightarrow> (EncodeResult \<times> buf) option" where
  "encode_frame_on raw0 type pl len out outCap =
     (if unat len > kMaxPayload then Some ((PayloadTooLarge, 0), out)
      else do {
        raw \<leftarrow> build_raw raw0 type pl len;
        let rawLen = kHeaderSize + unat len + kCrcSize;
        if outCap < 2 then Some ((BufferTooSmall, 0), out)
        else do {
          cap \<leftarrow> size_sub outCap 1;
          ((encStatus, encLen), out) \<leftarrow> cobs_encode raw rawLen out cap;
          if encStatus = OutputTooSmall then Some ((BufferTooSmall, 0), out)
          else if encStatus \<noteq> Cobs_Ok then Some ((CobsError, 0), out)
          else do {
            out \<leftarrow> mem_write out encLen kDelimiter;
            Some ((Frame_Ok, encLen + 1), out)
          }
        }
      })"

definition encode_frame ::
  "MessageType \<Rightarrow> buf option \<Rightarrow> byte \<Rightarrow> buf \<Rightarrow> nat \<Rightarrow> (EncodeResult \<times> buf) option" where
  "encode_frame type pl len out outCap = encode_frame_on raw_stack type pl len out outCap"

text \<open>The loop that copies the payload out of \<open>raw\<close> into the caller's frame.\<close>

function frame_take :: "buf \<Rightarrow> byte \<Rightarrow> byte \<Rightarrow> buf \<Rightarrow> buf option" where
  "frame_take raw len i dst =
     (if i < len then do {
        v \<leftarrow> mem_read raw (kHeaderSize + unat i);
        dst \<leftarrow> mem_write dst (unat i) v;
        frame_take raw len (i + 1) dst
      } else Some dst)"
  by pat_completeness auto
termination
  by (relation "measure (\<lambda>(raw, len, i, dst). unat len - unat i)")
     (auto simp: unat_Suc_less word_less_nat_alt)

declare frame_take.simps [simp del]

definition decode_region_on ::
  "buf \<Rightarrow> buf \<Rightarrow> nat \<Rightarrow> Frame \<Rightarrow> (DecodeResult \<times> Frame) option" where
  "decode_region_on raw0 region regionLen out =
     do {
       ((decStatus, decLen), raw) \<leftarrow> cobs_decode region regionLen raw0 kRawSize;
       if decStatus \<noteq> Cobs_Ok then Some ((CobsError, 0), out)
       else if decLen < kHeaderSize + kCrcSize then Some ((Truncated, 0), out)
       else do {
         type \<leftarrow> mem_read raw 0;
         len \<leftarrow> mem_read raw 1;
         if unat len > kMaxPayload then Some ((LengthMismatch, 0), out)
         else do {
           let expected = kHeaderSize + unat len + kCrcSize;
           if decLen \<noteq> expected then Some ((LengthMismatch, 0), out)
           else do {
             let crcCovered = kHeaderSize + unat len;
             lo \<leftarrow> mem_read raw crcCovered;
             hi \<leftarrow> mem_read raw (crcCovered + 1);
             let rxCrc = (ucast lo OR push_bit 8 (ucast hi) :: 16 word);
             calcCrc \<leftarrow> crc16_ccitt raw crcCovered;
             if rxCrc \<noteq> calcCrc then Some ((CrcMismatch, rxCrc), out)
             else do {
               let out = out\<lparr>ftype := type, flength := len\<rparr>;
               pl \<leftarrow> frame_take raw len 0 (payload out);
               Some ((Frame_Ok, rxCrc), out\<lparr>payload := pl\<rparr>)
             }
           }
         }
       }
     }"

definition decode_region :: "buf \<Rightarrow> nat \<Rightarrow> Frame \<Rightarrow> (DecodeResult \<times> Frame) option" where
  "decode_region region regionLen out = decode_region_on raw_stack region regionLen out"

section \<open>The wire format on byte lists\<close>

definition crc_bytes :: "16 word \<Rightarrow> byte list" where
  "crc_bytes crc = [ucast (crc AND 0xFF), ucast (drop_bit 8 crc AND 0xFF)]"

definition frame_body :: "MessageType \<Rightarrow> byte list \<Rightarrow> byte list" where
  "frame_body t ps = t # of_nat (length ps) # ps"

definition frame_crc :: "MessageType \<Rightarrow> byte list \<Rightarrow> 16 word" where
  "frame_crc t ps = crc16_fold crc16_ccitt_init (frame_body t ps)"

definition frame_raw :: "MessageType \<Rightarrow> byte list \<Rightarrow> byte list" where
  "frame_raw t ps = frame_body t ps @ crc_bytes (frame_crc t ps)"

definition frame_wire :: "MessageType \<Rightarrow> byte list \<Rightarrow> byte list" where
  "frame_wire t ps = cobs_encoding (frame_raw t ps) @ [kDelimiter]"

text \<open>The bytes an \<open>encode_frame\<close> call is asked to send.\<close>

definition payload_bytes :: "buf option \<Rightarrow> byte \<Rightarrow> byte list" where
  "payload_bytes pl len =
     (case pl of None \<Rightarrow> replicate (unat len) 0 | Some p \<Rightarrow> take (unat len) p)"

definition payload_valid :: "buf option \<Rightarrow> byte \<Rightarrow> bool" where
  "payload_valid pl len \<longleftrightarrow> (case pl of None \<Rightarrow> True | Some p \<Rightarrow> unat len \<le> length p)"

text \<open>The receiver's verdict on a decoded raw block.\<close>

definition frame_check :: "byte list \<Rightarrow> DecodeResult" where
  "frame_check raw =
     (if length raw < 4 then (Truncated, 0)
      else if unat (raw ! 1) > 250 \<or> length raw \<noteq> unat (raw ! 1) + 4 then (LengthMismatch, 0)
      else
        let n = unat (raw ! 1) + 2; rx = ucast (raw ! n) OR push_bit 8 (ucast (raw ! (n + 1)))
        in if rx = crc16_fold crc16_ccitt_init (take n raw) then (Frame_Ok, rx) else (CrcMismatch, rx))"

lemma length_payload_bytes [simp]:
  "payload_valid pl len \<Longrightarrow> length (payload_bytes pl len) = unat len"
  by (auto simp: payload_bytes_def payload_valid_def split: option.splits)

lemma length_frame_raw [simp]: "length (frame_raw t ps) = length ps + 4"
  by (simp add: frame_raw_def frame_body_def crc_bytes_def)

lemma length_frame_body [simp]: "length (frame_body t ps) = length ps + 2"
  by (simp add: frame_body_def)

lemma length_frame_wire: "length ps \<le> 250 \<Longrightarrow> length (frame_wire t ps) = length ps + 6"
  by (simp add: frame_wire_def length_cobs_encoding_small)

lemma frame_wire_delimiter:
  "last (frame_wire t ps) = kDelimiter" "kDelimiter \<notin> set (butlast (frame_wire t ps))"
  using cobs_io.code_no_zero by (simp_all add: frame_wire_def kDelimiter_def)

lemma crc_bytes_join:
  "(ucast (crc_bytes w ! 0) OR push_bit 8 (ucast (crc_bytes w ! 1)) :: 16 word) = w"
proof (rule bit_word_eqI)
  fix n assume "n < LENGTH(16)"
  then have "n < 16" by simp
  have mask: "(0xFF :: 16 word) = mask 8" by (simp add: mask_eq_exp_minus_1)
  show "bit (ucast (crc_bytes w ! 0) OR push_bit 8 (ucast (crc_bytes w ! 1)) :: 16 word) n = bit w n"
    using \<open>n < 16\<close> unfolding crc_bytes_def mask
    by (auto simp: bit_simps)
qed

lemma crc_bytes_split:
  "crc_bytes (ucast lo OR push_bit 8 (ucast hi)) = [lo, hi]"
proof -
  have mask: "(0xFF :: 16 word) = mask 8" by (simp add: mask_eq_exp_minus_1)
  show ?thesis unfolding crc_bytes_def mask
    by (auto intro!: bit_word_eqI simp: bit_simps dest: bit_imp_le_length)
qed

lemma frame_body_nth [simp]:
  "frame_body t ps ! 0 = t" "frame_body t ps ! Suc 0 = of_nat (length ps)"
  by (simp_all add: frame_body_def)

lemma frame_raw_nth [simp]:
  "frame_raw t ps ! 0 = t" "frame_raw t ps ! Suc 0 = of_nat (length ps)"
  by (simp_all add: frame_raw_def frame_body_def)

lemma frame_raw_crc:
  "frame_raw t ps ! (length ps + 2) = crc_bytes (frame_crc t ps) ! 0"
  "frame_raw t ps ! (length ps + 3) = crc_bytes (frame_crc t ps) ! 1"
  by (simp_all add: frame_raw_def nth_append)

lemma take_frame_raw: "take (length ps + 2) (frame_raw t ps) = frame_body t ps"
  by (simp add: frame_raw_def)

lemma frame_check_raw:
  assumes "length ps \<le> 250"
  shows "frame_check (frame_raw t ps) = (Frame_Ok, frame_crc t ps)"
  using assms unat_of_nat_byte [of "length ps"] frame_raw_crc [of t ps] crc_bytes_join [of "frame_crc t ps"]
    take_frame_raw [of ps t]
  by (simp add: frame_check_def Let_def frame_crc_def numeral_3_eq_3)

lemma frame_check_OkD:
  assumes ok: "frame_check raw = (Frame_Ok, c)"
  shows "\<exists>t ps. raw = frame_raw t ps \<and> length ps \<le> 250 \<and> c = frame_crc t ps \<and>
    t = raw ! 0 \<and> ps = take (unat (raw ! 1)) (drop 2 raw)"
proof -
  obtain t l rest where raw: "raw = t # l # rest"
    using ok by (auto simp: frame_check_def numeral_eq_Suc less_Suc_eq split: if_splits prod.splits; cases raw; cases "tl raw"; auto)
  have l: "unat l \<le> 250" "length rest = unat l + 2"
    using ok raw by (simp_all add: frame_check_def Let_def split: if_splits)
  define ps lo hi where "ps = take (unat l) rest" and "lo = rest ! unat l" and "hi = rest ! (unat l + 1)"
  have rest: "rest = ps @ [lo, hi]"
  proof -
    have "drop (unat l) rest = [lo, hi]"
      using l by (simp add: lo_def hi_def Cons_nth_drop_Suc [symmetric])
    then show ?thesis by (metis append_take_drop_id ps_def)
  qed
  have len: "length ps = unat l" using l by (simp add: ps_def)
  then have body: "take (unat l + 2) raw = frame_body t ps"
    using raw rest by (simp add: frame_body_def)
  have at: "raw ! (unat l + 2) = lo" "raw ! (unat l + 2 + 1) = hi"
    using raw by (simp_all add: lo_def hi_def)
  have "crc16_fold crc16_ccitt_init (take (unat l + 2) raw) = frame_crc t ps"
    by (simp only: body frame_crc_def)
  moreover have "raw ! 1 = l" "length raw = unat l + 4" using raw l by simp_all
  ultimately have "c = ucast lo OR push_bit 8 (ucast hi)" "c = frame_crc t ps"
    using ok l at by (simp_all add: frame_check_def Let_def split: if_splits)
  then have "crc_bytes (frame_crc t ps) = [lo, hi]" by (simp add: crc_bytes_split)
  then have "raw = frame_raw t ps"
    using raw rest len by (simp add: frame_raw_def frame_body_def)
  moreover have "ps = take (unat (raw ! 1)) (drop 2 raw)" using raw by (simp add: ps_def)
  moreover have "t = raw ! 0" "length ps \<le> 250" using raw l(1) len by simp_all
  ultimately show ?thesis using \<open>c = frame_crc t ps\<close> by blast
qed

section \<open>\<open>encode_frame\<close> produces the wire format\<close>

lemma frame_fill_copy:
  assumes "payload_valid pl len" "kHeaderSize + unat len \<le> length raw" "i \<le> len"
  shows "frame_fill pl len i raw =
    Some (blit (kHeaderSize + unat i) (drop (unat i) (payload_bytes pl len)) raw)"
  using assms
proof (induction pl len i raw rule: frame_fill.induct)
  case (1 pl len i raw)
  show ?case
  proof (cases "i < len")
    case False
    with 1 show ?thesis by (subst frame_fill.simps) (simp add: frame_consts)
  next
    case True
    let ?ps = "payload_bytes pl len"
    have i: "unat i < unat len" "unat (i + 1) = Suc (unat i)" "i + 1 \<le> len"
      using True unat_Suc_less [OF True] by (simp_all add: word_less_nat_alt word_le_nat_alt)
    have v: "(case pl of None \<Rightarrow> Some 0 | Some p \<Rightarrow> mem_read p (unat i)) = Some (?ps ! unat i)"
      using 1(2) i by (auto simp: payload_bytes_def payload_valid_def split: option.splits)
    have split: "drop (unat i) ?ps = ?ps ! unat i # drop (Suc (unat i)) ?ps"
      using 1(2) i by (simp add: Cons_nth_drop_Suc)
    have w: "mem_write raw (kHeaderSize + unat i) (?ps ! unat i)
        = Some (blit (kHeaderSize + unat i) [?ps ! unat i] raw)"
      using 1(3) i by (intro mem_write_blit) simp
    have "frame_fill pl len i raw = Some (blit (kHeaderSize + unat i + 1) (drop (Suc (unat i)) ?ps)
        (blit (kHeaderSize + unat i) [?ps ! unat i] raw))"
      using True v w 1 i by (subst frame_fill.simps) (simp add: length_blit)
    then show ?thesis
      using blit_blit_append [of "kHeaderSize + unat i" "[?ps ! unat i]" "drop (Suc (unat i)) ?ps" raw]
        split 1 i by simp
  qed
qed

lemma blit_two_writes:
  "\<lbrakk>p + 1 < length b\<rbrakk> \<Longrightarrow> b[p := x, Suc p := y] = blit p [x, y] b"
  by (simp add: list_update_blit length_blit blit_blit_append [of p "[x]" "[y]" b, simplified])

lemma raw_block_built:
  assumes "payload_valid pl len" "unat len \<le> kMaxPayload" "length raw0 = kRawSize"
  shows "build_raw raw0 type pl len = Some (blit 0 (frame_raw type (payload_bytes pl len)) raw0)"
proof -
  let ?ps = "payload_bytes pl len"
  let ?body = "frame_body type ?ps"
  have len: "length ?ps = unat len" using assms(1) by simp
  have size: "length raw0 = 254" using assms(3) by (simp add: kRawSize_def frame_consts)
  have hdr: "raw0[0 := type, Suc 0 := len] = blit 0 [type, len] raw0"
    using size by (intro blit_two_writes) simp
  have fill: "frame_fill pl len 0 (blit 0 [type, len] raw0) = Some (blit 0 ?body raw0)"
    using assms(1,2) size len blit_blit_append [of 0 "[type, len]" ?ps raw0]
    by (subst frame_fill_copy) (simp_all add: frame_consts length_blit frame_body_def numeral_2_eq_2)
  have crc: "crc16_ccitt (blit 0 ?body raw0) (kHeaderSize + unat len) = Some (frame_crc type ?ps)"
    using assms(2) size len
    by (subst crc_sum.crc_total) (simp_all add: frame_consts length_blit frame_crc_def blit_def)
  have tail: "(blit 0 ?body raw0)[unat len + 2 := x, Suc (unat len + 2) := y]
      = blit 0 (?body @ [x, y]) raw0" for x y
    using assms(2) size len blit_blit_append [of 0 ?body "[x, y]" raw0]
    by (subst blit_two_writes) (simp_all add: length_blit frame_consts add.commute)
  have "length (blit 0 ?body raw0) = 254" using size len assms(2) by (simp add: length_blit frame_consts)
  then show ?thesis
    using hdr fill crc tail size assms(2)
    by (simp add: build_raw_def Let_def frame_consts frame_raw_def crc_bytes_def)
qed

lemma encode_frame_on_result:
  assumes pl: "unat len \<le> 250 \<Longrightarrow> payload_valid pl len"
    and cap: "outCap \<le> length out" and raw0: "length raw0 = kRawSize"
  shows "\<exists>d. encode_frame_on raw0 type pl len out outCap =
      Some (if unat len > 250 then (PayloadTooLarge, 0)
            else if outCap < unat len + 6 then (BufferTooSmall, 0)
            else (Frame_Ok, unat len + 6), d) \<and>
    untouched_from outCap d out \<and>
    (unat len \<le> 250 \<and> unat len + 6 \<le> outCap \<longrightarrow> d = blit 0 (frame_wire type (payload_bytes pl len)) out)"
proof (cases "unat len \<le> 250")
  case False
  then show ?thesis by (simp add: encode_frame_on_def frame_consts)
next
  case len: True
  let ?raw = "frame_raw type (payload_bytes pl len)"
  let ?buf = "blit 0 ?raw raw0"
  have valid: "payload_valid pl len" using pl len by simp
  then have size: "length ?raw = unat len + 4" by simp
  have "length raw0 = 254" using raw0 by (simp add: kRawSize_def frame_consts)
  then have build: "build_raw raw0 type pl len = Some ?buf" and take: "take (unat len + 4) ?buf = ?raw"
      and buf: "unat len + 4 \<le> length ?buf"
    using raw_block_built [OF valid _ raw0] len size by (simp_all add: frame_consts blit_def)
  have code: "length (cobs_encoding ?raw) = unat len + 5"
    using len size by (simp add: length_cobs_encoding_small)
  have four: "kHeaderSize + unat len + kCrcSize = unat len + 4" by (simp add: frame_consts)
  show ?thesis
  proof (cases "outCap < unat len + 6")
    case True
    show ?thesis
    proof (cases "outCap < 2")
      case True
      then show ?thesis using build len by (simp add: encode_frame_on_def Let_def four kMaxPayload_def)
    next
      case False
      have "outCap - 1 \<le> length out" "outCap - 1 < length (cobs_encoding (take (unat len + 4) ?buf))"
        using \<open>outCap < unat len + 6\<close> cap code take by simp_all
      from cobs_io.enc_small [OF buf this]
      obtain d where "cobs_encode ?buf (unat len + 4) out (outCap - 1) = Some ((OutputTooSmall, 0), d)"
        "untouched_from (outCap - 1) d out" by blast
      then show ?thesis using build len False True
        by (auto simp: encode_frame_on_def Let_def four kMaxPayload_def untouched_from_def intro: drop_eq_mono [where k = "outCap - 1"])
    qed
  next
    case False
    have enc: "cobs_encode ?buf (unat len + 4) out (outCap - 1)
        = Some ((Cobs_Ok, unat len + 5), blit 0 (cobs_encoding ?raw) out)"
      using cobs_io.enc_ok [OF buf, of "outCap - 1" out] cap False code take by simp
    have "mem_write (blit 0 (cobs_encoding ?raw) out) (unat len + 5) kDelimiter
        = Some (blit 0 (frame_wire type (payload_bytes pl len)) out)"
      using blit_snoc_write [of 0 "cobs_encoding ?raw" out kDelimiter] code False cap
      by (simp add: frame_wire_def)
    moreover have "untouched_from outCap (blit 0 (frame_wire type (payload_bytes pl len)) out) out"
      using False cap len valid by (intro untouched_from_blit) (simp_all add: length_frame_wire)
    ultimately show ?thesis
      using build len False enc by (simp add: encode_frame_on_def Let_def four kMaxPayload_def)
  qed
qed
section \<open>\<open>decode_region\<close> computes the verdict\<close>

lemma frame_take_copy:
  assumes "kHeaderSize + unat len \<le> length raw" "unat len \<le> length dst" "i \<le> len"
  shows "frame_take raw len i dst =
    Some (blit (unat i) (drop (unat i) (take (unat len) (drop 2 raw))) dst)"
  using assms
proof (induction raw len i dst rule: frame_take.induct)
  case (1 raw len i dst)
  let ?ps = "take (unat len) (drop 2 raw)"
  have ps: "length ?ps = unat len" using 1(2) by (simp add: frame_consts)
  show ?case
  proof (cases "i < len")
    case False
    with 1 ps show ?thesis by (subst frame_take.simps) (simp add: frame_consts word_less_nat_alt)
  next
    case True
    have i: "unat i < unat len" "unat (i + 1) = Suc (unat i)" "i + 1 \<le> len"
      using True unat_Suc_less [OF True] by (simp_all add: word_less_nat_alt word_le_nat_alt)
    have v: "mem_read raw (kHeaderSize + unat i) = Some (?ps ! unat i)"
      using 1(2) i by (simp add: frame_consts)
    have split: "drop (unat i) ?ps = ?ps ! unat i # drop (Suc (unat i)) ?ps"
      by (rule Cons_nth_drop_Suc [symmetric]) (use ps i in simp)
    have w: "mem_write dst (unat i) (?ps ! unat i) = Some (blit (unat i) [?ps ! unat i] dst)"
      using 1(3) i by (intro mem_write_blit) simp
    have "frame_take raw len i dst = Some (blit (unat i + 1) (drop (Suc (unat i)) ?ps)
        (blit (unat i) [?ps ! unat i] dst))"
      using True v w 1 i by (subst frame_take.simps) (simp add: length_blit)
    then show ?thesis
      using blit_blit_append [of "unat i" "[?ps ! unat i]" "drop (Suc (unat i)) ?ps" dst]
        split 1(3) i ps by simp
  qed
qed

definition frame_store :: "byte list \<Rightarrow> Frame \<Rightarrow> Frame" where
  "frame_store raw out = out\<lparr>ftype := raw ! 0, flength := raw ! 1,
     payload := blit 0 (take (unat (raw ! 1)) (drop 2 raw)) (payload out)\<rparr>"

definition region_verdict :: "byte list \<Rightarrow> Frame \<Rightarrow> DecodeResult \<times> Frame" where
  "region_verdict region out =
     (case cobs_unblock region of
        None \<Rightarrow> ((CobsError, 0), out)
      | Some raw \<Rightarrow>
          if length raw > 254 then ((CobsError, 0), out)
          else (frame_check raw, if fst (frame_check raw) = Frame_Ok then frame_store raw out else out))"

lemma decode_region_on_verdict:
  assumes region: "n \<le> length region" and raw0: "length raw0 = kRawSize"
    and out: "length (payload out) = kMaxPayload"
  shows "decode_region_on raw0 region n out = Some (region_verdict (take n region) out)"
proof (cases "\<exists>raw. cobs_unblock (take n region) = Some raw \<and> length raw \<le> 254")
  case False
  have size: "kRawSize \<le> length raw0" "kRawSize = 254" using raw0 by (simp_all add: kRawSize_def frame_consts)
  have "cobs_unblock (take n region) = None \<or> kRawSize < length (the (cobs_unblock (take n region)))"
    using False size by (cases "cobs_unblock (take n region)") auto
  from cobs_io.dec_error [OF region size(1) this]
  obtain st d where "cobs_decode region n raw0 kRawSize = Some ((st, 0), d)" "st \<noteq> Cobs_Ok" by blast
  then show ?thesis using False
    by (auto simp: decode_region_on_def region_verdict_def split: option.splits)
next
  case True
  then obtain raw where raw: "cobs_unblock (take n region) = Some raw" "length raw \<le> 254" by blast
  have size: "length raw0 = 254" "kRawSize = 254" using raw0 by (simp_all add: kRawSize_def frame_consts)
  define b where "b = blit 0 raw raw0"
  have b: "length b = 254" "take (length raw) b = raw" "\<And>i. i < length raw \<Longrightarrow> b ! i = raw ! i"
    using size raw(2) by (simp_all add: b_def length_blit blit_def nth_append)
  have dec: "cobs_decode region n raw0 kRawSize = Some ((Cobs_Ok, length raw), b)"
    using cobs_io.dec_ok [OF region _ raw(1)] raw(2) size b_def by simp
  show ?thesis
  proof (cases "length raw < 4 \<or> unat (raw ! 1) > 250 \<or> length raw \<noteq> unat (raw ! 1) + 4")
    case True
    then show ?thesis using dec b raw
      by (auto simp: decode_region_on_def region_verdict_def frame_check_def frame_consts Let_def)
  next
    case False
    define l where "l = raw ! 1"
    have len: "unat l \<le> 250" "length raw = unat l + 4" using False by (simp_all add: l_def)
    have tk: "take k b = take k raw" if "k \<le> length raw" for k
      using b(2) that by (metis min.absorb1 take_take)
    have crc: "crc16_ccitt b (2 + unat l) = Some (crc16_fold crc16_ccitt_init (take (unat l + 2) raw))"
      using b(1) len tk [of "unat l + 2"] by (subst crc_sum.crc_total) (simp_all add: add.commute)
    have "take (unat l) (drop 2 b) = take (unat l) (drop 2 raw)"
      using tk [of "unat l + 2"] len by (simp add: take_drop add.commute)
    then have store: "frame_take b l 0 (payload out) =
        Some (blit 0 (take (unat l) (drop 2 raw)) (payload out))"
      using b(1) len out by (subst frame_take_copy) (simp_all add: frame_consts)
    have at: "mem_read b 0 = Some (raw ! 0)" "mem_read b 1 = Some l"
      "mem_read b (2 + unat l) = Some (raw ! (unat l + 2))"
      "mem_read b (2 + unat l + 1) = Some (raw ! (unat l + 3))"
      using b len by (simp_all add: l_def add.commute numeral_3_eq_3)
    have "decode_region_on raw0 region n out =
        (let rx = ucast (raw ! (unat l + 2)) OR push_bit 8 (ucast (raw ! (unat l + 3)))
         in if rx \<noteq> crc16_fold crc16_ccitt_init (take (unat l + 2) raw) then Some ((CrcMismatch, rx), out)
            else Some ((Frame_Ok, rx), frame_store raw out))"
      using dec len at crc store
      by (simp add: decode_region_on_def frame_consts Let_def frame_store_def l_def)
    then show ?thesis using raw len
      by (auto simp: region_verdict_def frame_check_def Let_def l_def numeral_3_eq_3)
  qed
qed

section \<open>What sender and receiver promise each other\<close>

lemma frame_store_raw:
  "length ps \<le> 250 \<Longrightarrow> frame_store (frame_raw t ps) out =
     out\<lparr>ftype := t, flength := of_nat (length ps), payload := blit 0 ps (payload out)\<rparr>"
  using unat_of_nat_byte [of "length ps"]
  by (simp add: frame_store_def frame_raw_def frame_body_def)

lemma region_verdict_wire:
  "length ps \<le> 250 \<Longrightarrow> region_verdict (cobs_encoding (frame_raw t ps)) out =
     ((Frame_Ok, frame_crc t ps), frame_store (frame_raw t ps) out)"
  by (simp add: region_verdict_def cobs_io.uncode_code frame_check_raw)

lemma region_verdict_OkD:
  assumes "region_verdict r out = ((Frame_Ok, c), out')"
  shows "\<exists>t ps. length ps \<le> 250 \<and> cobs_unblock r = Some (frame_raw t ps) \<and> c = frame_crc t ps \<and>
    out' = frame_store (frame_raw t ps) out"
proof -
  obtain raw where raw: "cobs_unblock r = Some raw" "frame_check raw = (Frame_Ok, c)"
      "out' = frame_store raw out"
    using assms by (auto simp: region_verdict_def split: option.splits if_splits)
  from raw(2) obtain t ps where "raw = frame_raw t ps" "length ps \<le> 250" "c = frame_crc t ps"
    using frame_check_OkD by blast
  then show ?thesis using raw by blast
qed

lemma region_verdict_error:
  "fst (fst (region_verdict r out)) \<noteq> Frame_Ok \<Longrightarrow> snd (region_verdict r out) = out"
  by (auto simp: region_verdict_def split: option.splits if_splits)

text \<open>The invariant of every frame the code handles: the array is there, the length fits it.\<close>

definition frame_wf :: "Frame \<Rightarrow> bool" where
  "frame_wf f \<longleftrightarrow> length (payload f) = kMaxPayload \<and> unat (flength f) \<le> kMaxPayload"

text \<open>The bytes of a frame that mean something.\<close>

definition frame_data :: "Frame \<Rightarrow> byte list" where
  "frame_data f = take (unat (flength f)) (payload f)"

lemma frame_wf_init [simp]: "frame_wf Frame_init"
  by (simp add: frame_wf_def Frame_init_def frame_consts)

lemma frame_store_wf:
  "\<lbrakk>length ps \<le> 250; length (payload out) = kMaxPayload\<rbrakk> \<Longrightarrow> frame_wf (frame_store (frame_raw t ps) out)"
  using unat_of_nat_byte [of "length ps"]
  by (simp add: frame_store_raw frame_wf_def frame_consts length_blit)

lemma frame_store_data:
  "\<lbrakk>length ps \<le> 250; length (payload out) = kMaxPayload\<rbrakk> \<Longrightarrow>
   ftype (frame_store (frame_raw t ps) out) = t \<and>
   flength (frame_store (frame_raw t ps) out) = of_nat (length ps) \<and>
   frame_data (frame_store (frame_raw t ps) out) = ps"
  using unat_of_nat_byte [of "length ps"]
  by (simp add: frame_store_raw frame_data_def blit_def frame_consts)

lemma region_verdict_wf:
  "frame_wf out \<Longrightarrow> frame_wf (snd (region_verdict r out))"
  by (metis frame_store_wf frame_wf_def prod.collapse region_verdict_OkD region_verdict_error)

lemma decode_region_verdict:
  "\<lbrakk>n \<le> length region; frame_wf out\<rbrakk> \<Longrightarrow>
   decode_region region n out = Some (region_verdict (take n region) out)"
  unfolding decode_region_def
  by (rule decode_region_on_verdict) (simp_all add: raw_stack_def frame_wf_def)

lemma encode_frame_result:
  assumes "unat len \<le> 250 \<Longrightarrow> payload_valid pl len" "outCap \<le> length out"
  shows "\<exists>d. encode_frame type pl len out outCap =
      Some (if unat len > 250 then (PayloadTooLarge, 0)
            else if outCap < unat len + 6 then (BufferTooSmall, 0)
            else (Frame_Ok, unat len + 6), d) \<and>
    untouched_from outCap d out \<and>
    (unat len \<le> 250 \<and> unat len + 6 \<le> outCap \<longrightarrow> d = blit 0 (frame_wire type (payload_bytes pl len)) out)"
  unfolding encode_frame_def by (rule encode_frame_on_result) (use assms in \<open>simp_all add: raw_stack_def\<close>)

lemma encode_frame_Ok:
  assumes "unat len \<le> 250" "payload_valid pl len" "unat len + 6 \<le> outCap" "outCap \<le> length out"
  shows "encode_frame type pl len out outCap =
    Some ((Frame_Ok, unat len + 6), blit 0 (frame_wire type (payload_bytes pl len)) out)"
  using encode_frame_result [of len pl outCap out type] assms by auto

lemma take_wire_region:
  assumes "length ps \<le> 250" "length ps + 6 \<le> length out"
  shows "take (length ps + 5) (blit 0 (frame_wire t ps) out) = cobs_encoding (frame_raw t ps)"
  using assms by (simp add: blit_def frame_wire_def length_cobs_encoding_small)

text \<open>A block with one or two neighbouring bytes changed fails the check.\<close>

lemma crc_bytes_inj: "crc_bytes c = crc_bytes c' \<longleftrightarrow> c = c'"
  by (metis crc_bytes_join)

lemma frame_check_corrupted:
  assumes "Suc i < length ps + 4" "i \<noteq> length ps + 1"
    and "(frame_raw t ps)[i := a, Suc i := b] \<noteq> frame_raw t ps"
  shows "fst (frame_check ((frame_raw t ps)[i := a, Suc i := b])) \<noteq> Frame_Ok"
proof
  let ?bad = "(frame_raw t ps)[i := a, Suc i := b]"
  assume "fst (frame_check ?bad) = Frame_Ok"
  then obtain u qs where bad: "?bad = frame_raw u qs"
    using frame_check_OkD by (metis prod.collapse)
  have qs: "length qs = length ps" using arg_cong [OF bad, of length] by simp
  have len: "length (frame_body t ps) = length ps + 2" "length (frame_body u qs) = length ps + 2"
    using qs by (simp_all add: frame_body_def)
  show False
  proof (cases "Suc i < length ps + 2")
    case True
    then have "frame_body u qs = (frame_body t ps)[i := a, Suc i := b]"
        "crc_bytes (frame_crc u qs) = crc_bytes (frame_crc t ps)"
      using bad len by (simp_all add: frame_raw_def list_update_append)
    moreover from this have "frame_body u qs = frame_body t ps"
      using True len crc_sum.total_update2 [of i "frame_body t ps" a b]
      by (auto simp: crc_bytes_inj frame_crc_def list_update_id)
    ultimately show False using assms(3) bad by (simp add: frame_raw_def)
  next
    case False
    then have "frame_body u qs = frame_body t ps"
      using bad len assms(2) by (simp add: frame_raw_def list_update_append)
    then show False using assms(3) bad by (simp add: frame_raw_def frame_crc_def)
  qed
qed

section \<open>Properties\<close>

text \<open>C2: a message of at most 250 payload bytes, given room, is encoded to \<open>len + 6\<close> bytes,
  and decoding the region before the delimiter gives back its type, length and payload,
  whatever the receiving frame held before.\<close>

theorem frame_roundtrip:
  assumes "unat len \<le> 250" "payload_valid pl len" "unat len + 6 \<le> outCap" "outCap \<le> length out"
    and "frame_wf f"
  shows "\<exists>wire crc f'.
    encode_frame type pl len out outCap = Some ((Frame_Ok, unat len + 6), wire) \<and>
    decode_region wire (unat len + 5) f = Some ((Frame_Ok, crc), f') \<and>
    ftype f' = type \<and> flength f' = len \<and> frame_data f' = payload_bytes pl len \<and> frame_wf f'"
proof -
  let ?ps = "payload_bytes pl len"
  let ?wire = "blit 0 (frame_wire type ?ps) out"
  have ps: "length ?ps = unat len" "length ?ps \<le> 250" using assms by simp_all
  have "length ?wire = length out" using ps assms by (simp add: length_blit length_frame_wire)
  then have "decode_region ?wire (unat len + 5) f
      = Some ((Frame_Ok, frame_crc type ?ps), frame_store (frame_raw type ?ps) f)"
    using assms ps take_wire_region [of ?ps out type]
    by (simp add: decode_region_verdict region_verdict_wire)
  then show ?thesis
    using encode_frame_Ok [OF assms(1-4), of type] frame_store_data [OF ps(2)] frame_store_wf [OF ps(2)]
      assms(1,5) ps by (simp add: frame_wf_def kMaxPayload_def)
qed

theorem frame_roundtrip_witness:
  "\<exists>wire crc f'.
    encode_frame MT_Command (Some [0x10, 0, 0x20]) 3 (replicate 256 0) 256
      = Some ((Frame_Ok, unat (3 :: byte) + 6), wire) \<and>
    decode_region wire (unat (3 :: byte) + 5) Frame_init = Some ((Frame_Ok, crc), f') \<and>
    ftype f' = MT_Command \<and> flength f' = 3 \<and> frame_data f' = payload_bytes (Some [0x10, 0, 0x20]) 3 \<and>
    frame_wf f'"
  by (rule frame_roundtrip) (simp_all add: payload_valid_def)

text \<open>C38: the outcome of \<open>encode_frame\<close> for every type, length, payload of that length (or none) and
  capacity within the buffer: too large a payload and
  too small a buffer are reported as such, \<open>CobsError\<close> never is, and on success the packet is
  \<open>len + 6 \<le> 256\<close> bytes, the code of the raw block and one delimiter after it, of which exactly the
  last byte is the delimiter (there is none in front). No byte beyond the capacity is touched.\<close>

theorem encode_frame_outcome:
  assumes "unat len \<le> 250 \<Longrightarrow> payload_valid pl len" "outCap \<le> length out"
  shows "\<exists>st n d. encode_frame type pl len out outCap = Some ((st, n), d) \<and>
    untouched_from outCap d out \<and>
    (st, n) = (if unat len > kMaxPayload then (PayloadTooLarge, 0)
               else if outCap < unat len + 6 then (BufferTooSmall, 0)
               else (Frame_Ok, unat len + 6)) \<and>
    n \<le> kMaxPacket \<and> n \<le> outCap \<and>
    (st = Frame_Ok \<longrightarrow> take n d = frame_wire type (payload_bytes pl len) \<and>
      d ! (n - 1) = kDelimiter \<and> kDelimiter \<notin> set (take (n - 1) d))"
proof (cases "unat len > 250 \<or> outCap < unat len + 6")
  case True
  then show ?thesis using encode_frame_result [OF assms, of type] by (auto simp: frame_consts)
next
  case False
  let ?ps = "payload_bytes pl len"
  let ?d = "blit 0 (frame_wire type ?ps) out"
  have small: "unat len \<le> 250" "unat len + 6 \<le> outCap" using False by simp_all
  have ps: "length ?ps = unat len" "payload_valid pl len" using small assms(1) by simp_all
  have enc: "encode_frame type pl len out outCap = Some ((Frame_Ok, unat len + 6), ?d)"
    and unt: "untouched_from outCap ?d out"
    using encode_frame_result [OF assms, of type] small by auto
  have code: "take (unat len + 5) ?d = cobs_encoding (frame_raw type ?ps)"
    using take_wire_region [of ?ps out type] ps small assms(2) by simp
  have last: "?d ! (unat len + 5) = kDelimiter"
    using ps small by (simp add: blit_def frame_wire_def nth_append length_cobs_encoding_small)
  have "kDelimiter \<notin> set (take (unat len + 5) ?d)"
    unfolding code using cobs_io.code_no_zero by (simp add: kDelimiter_def)
  moreover have "take (unat len + 6) ?d = frame_wire type ?ps"
    using ps small assms(2) length_frame_wire [of ?ps type] by (simp add: blit_def)
  ultimately show ?thesis using enc unt last small
    by (intro exI [of _ Frame_Ok] exI [of _ "unat len + 6"] exI [of _ ?d]) (simp add: frame_consts add.commute)
qed

text \<open>Three bytes into a buffer of nine, and of eight.\<close>

theorem encode_frame_outcome_witness:
  "(\<exists>d. encode_frame MT_Command (Some [1, 2, 0]) 3 (replicate 9 7) 9 = Some ((Frame_Ok, 9), d) \<and>
      take 9 d = frame_wire MT_Command [1, 2, 0] \<and> d ! 8 = kDelimiter) \<and>
    (\<exists>d. encode_frame MT_Command (Some [1, 2, 0]) 3 (replicate 9 7) 8 = Some ((BufferTooSmall, 0), d) \<and> drop 8 d = [7])"
  using encode_frame_outcome [of 3 "Some [1, 2, 0]" 9 "replicate 9 7" MT_Command]
    encode_frame_outcome [of 3 "Some [1, 2, 0]" 8 "replicate 9 7" MT_Command]
  by (auto simp: payload_valid_def payload_bytes_def untouched_from_def frame_consts)

text \<open>Decoding is total and safe for every region: it never leaves a buffer, whatever
  garbage the uninitialised \<open>raw\<close> array held it gives the same answer, it keeps the invariant
  of the caller's frame, and a frame that is rejected leaves the caller's frame as it was.\<close>

lemma decode_region_safe:
  assumes "n \<le> length region" "frame_wf out" "length raw0 = kRawSize"
  shows "\<exists>st crc out'. decode_region_on raw0 region n out = Some ((st, crc), out') \<and>
    decode_region region n out = Some ((st, crc), out') \<and>
    frame_wf out' \<and> (st \<noteq> Frame_Ok \<longrightarrow> out' = out)"
proof -
  have "decode_region_on raw0 region n out = Some (region_verdict (take n region) out)"
    using assms by (intro decode_region_on_verdict) (simp_all add: frame_wf_def)
  then show ?thesis
    using decode_region_verdict [OF assms(1,2)] region_verdict_wf [OF assms(2), of "take n region"]
      region_verdict_error [of "take n region" out]
    by (cases "region_verdict (take n region) out") auto
qed

text \<open>A zero inside a block is no error to \<open>decode_region\<close>: a raw block may follow its code byte as it is.\<close>

lemma decode_region_takes_zeros:
  assumes "length ps \<le> 249" "frame_wf out"
  shows "decode_region (of_nat (length ps + 5) # frame_raw t ps) (length ps + 5) out =
    Some ((Frame_Ok, frame_crc t ps), frame_store (frame_raw t ps) out)"
proof -
  let ?r = "of_nat (length ps + 5) # frame_raw t ps"
  have c: "unat (of_nat (length ps + 5) :: byte) = length ps + 5" using assms(1) by (intro unat_of_nat_byte) simp
  then have "(of_nat (length ps + 5) :: byte) \<noteq> 0" by (metis add_is_0 unat_0 zero_neq_numeral)
  then have "cobs_unblock ?r = Some (frame_raw t ps)" using c by (simp add: Let_def)
  then have "region_verdict ?r out = ((Frame_Ok, frame_crc t ps), frame_store (frame_raw t ps) out)"
    using assms(1) by (simp add: region_verdict_def frame_check_raw)
  then show ?thesis using decode_region_verdict [of "length ps + 5" ?r out] assms(2) by simp
qed

text \<open>C8: an accepted region of the kind the reader hands over, 1 to 255 bytes and no zero among them, is byte
  for byte the packet the encoder builds from the frame it was decoded to, and the checksum returned is
  that frame's. (\<open>decode_region\<close> alone is more liberal: it copies a zero inside a block, and takes
  256 bytes that begin with a full block and end with an empty one.)\<close>

theorem decode_region_canonical:
  assumes "n \<le> length region" "0 < n" "n \<le> 255" "0 \<notin> set (take n region)" "frame_wf out"
    and "decode_region region n out = Some ((Frame_Ok, crc), f)"
  shows "take n region @ [kDelimiter] = frame_wire (ftype f) (frame_data f) \<and>
    crc = frame_crc (ftype f) (frame_data f) \<and> n = unat (flength f) + 5"
proof -
  have "region_verdict (take n region) out = ((Frame_Ok, crc), f)"
    using decode_region_verdict [OF assms(1,5)] assms(6) by simp
  from region_verdict_OkD [OF this] obtain t ps where ps: "length ps \<le> 250"
      "cobs_unblock (take n region) = Some (frame_raw t ps)" "crc = frame_crc t ps"
      "f = frame_store (frame_raw t ps) out" by blast
  have f: "ftype f = t" "flength f = of_nat (length ps)" "frame_data f = ps"
    using frame_store_data [OF ps(1), of out t] assms(5) ps(4) by (simp_all add: frame_wf_def)
  have "take n region \<noteq> []" "length (take n region) \<le> 255" using assms by auto
  then have region: "take n region = cobs_encoding (frame_raw t ps)"
    using cobs_unblock_canonical [OF ps(2)] assms(4) by simp
  have "n = length (cobs_encoding (frame_raw t ps))"
    unfolding region [symmetric] using assms(1) by simp
  then have "n = length ps + 5" using ps(1) by (simp add: length_cobs_encoding_small)
  then show ?thesis using region f ps(1,3) unat_of_nat_byte [of "length ps"] by (simp add: frame_wire_def)
qed

theorem decode_region_canonical_witness:
  "take 5 (cobs_encoding (frame_raw MT_Reply [])) @ [kDelimiter]
     = frame_wire (ftype (frame_store (frame_raw MT_Reply []) Frame_init))
         (frame_data (frame_store (frame_raw MT_Reply []) Frame_init)) \<and>
   frame_crc MT_Reply [] = frame_crc (ftype (frame_store (frame_raw MT_Reply []) Frame_init))
         (frame_data (frame_store (frame_raw MT_Reply []) Frame_init)) \<and>
   5 = unat (flength (frame_store (frame_raw MT_Reply []) Frame_init)) + 5"
proof (rule decode_region_canonical [where out = Frame_init])
  have len: "length (cobs_encoding (frame_raw MT_Reply [])) = 5"
    by (simp add: length_cobs_encoding_small)
  then show "5 \<le> length (cobs_encoding (frame_raw MT_Reply []))" by simp
  show "0 \<notin> set (take 5 (cobs_encoding (frame_raw MT_Reply [])))"
    using len cobs_io.code_no_zero by simp
  show "decode_region (cobs_encoding (frame_raw MT_Reply [])) 5 Frame_init
      = Some ((Frame_Ok, frame_crc MT_Reply []), frame_store (frame_raw MT_Reply []) Frame_init)"
    using len by (simp add: decode_region_verdict region_verdict_wire)
qed simp_all

text \<open>C9: corruption of a raw block in transit is detected: when one byte of the block, or two
  neighbouring bytes on one side of the payload/CRC border, arrive changed, the region is
  rejected and the caller's frame is left alone.\<close>

theorem frame_corruption_detected:
  assumes "length ps \<le> 250" "Suc i < length ps + 4" "i \<noteq> length ps + 1"
    and "(frame_raw t ps)[i := a, Suc i := b] \<noteq> frame_raw t ps" "frame_wf out"
  shows "\<exists>st crc. decode_region (cobs_encoding ((frame_raw t ps)[i := a, Suc i := b])) (length ps + 5) out
      = Some ((st, crc), out) \<and> st \<in> {LengthMismatch, CrcMismatch}"
proof -
  define bad where "bad = (frame_raw t ps)[i := a, Suc i := b]"
  have len: "length bad = length ps + 4" by (simp add: bad_def)
  have "fst (frame_check bad) \<noteq> Frame_Ok"
    using frame_check_corrupted [OF assms(2-4)] by (simp add: bad_def)
  then have bad: "fst (frame_check bad) \<in> {LengthMismatch, CrcMismatch}"
    using len by (auto simp: frame_check_def Let_def)
  have code: "length (cobs_encoding bad) = length ps + 5"
    using len assms(1) by (simp add: length_cobs_encoding_small)
  then have "decode_region (cobs_encoding bad) (length ps + 5) out = Some (region_verdict (cobs_encoding bad) out)"
    using assms(5) by (simp add: decode_region_verdict)
  also have "region_verdict (cobs_encoding bad) out = (frame_check bad, out)"
    using bad len assms(1) by (auto simp: region_verdict_def cobs_io.uncode_code)
  finally show ?thesis using bad by (cases "frame_check bad") (auto simp: bad_def)
qed

theorem frame_corruption_detected_witness:
  "\<exists>st crc. decode_region (cobs_encoding ((frame_raw MT_Command [0x10, 7])[2 := 0x11, Suc 2 := 7]))
      (length [0x10, 7 :: byte] + 5) Frame_init
      = Some ((st, crc), Frame_init) \<and> st \<in> {LengthMismatch, CrcMismatch}"
  by (rule frame_corruption_detected) (simp_all add: frame_raw_def frame_body_def)

end
