(* ===== verification/Command.thy ===== *)
theory Command
  imports Tuples Frame
begin

text \<open>
  Command registration and dispatch: \<open>src/include/eup/status.hpp\<close>,
  \<open>src/include/eup/command.hpp\<close> and \<open>src/src/command.cpp\<close>. A handler is a function from its
  argument tuple and the device's state to its result tuple and the new state. The locale
  \<open>contract\<close> is a \<open>CommandDef\<close> with the static assertions of \<open>command()\<close>, \<open>handler_contract\<close>
  adds a handler; \<open>service\<close> is a whole table. What they serve is stated on byte lists
  (\<open>answer\<close>, \<open>serve\<close>): a request payload in, a reply payload and the new state out.
\<close>

section \<open>The code\<close>

type_synonym StatusCode = byte

definition SC_Ok :: StatusCode where "SC_Ok = 0x00"
definition SC_UnknownCommand :: StatusCode where "SC_UnknownCommand = 0x01"
definition SC_BadArguments :: StatusCode where "SC_BadArguments = 0x02"
definition SC_ReplyTooLarge :: StatusCode where "SC_ReplyTooLarge = 0x03"
definition SC_Busy :: StatusCode where "SC_Busy = 0x04"
definition SC_TransportError :: StatusCode where "SC_TransportError = 0x05"
definition SC_kAppBase :: StatusCode where "SC_kAppBase = 0x20"

lemmas status_codes = SC_Ok_def SC_UnknownCommand_def SC_BadArguments_def SC_ReplyTooLarge_def
  SC_Busy_def SC_TransportError_def SC_kAppBase_def

type_synonym DispatchResult = "StatusCode \<times> nat"

text \<open>A thunk gets the argument bytes and the reply buffer as buffer, offset and length.\<close>

type_synonym 'st DispatchFn =
  "buf \<Rightarrow> nat \<Rightarrow> nat \<Rightarrow> buf \<Rightarrow> nat \<Rightarrow> nat \<Rightarrow> 'st \<Rightarrow> (DispatchResult \<times> buf \<times> 'st) option"

type_synonym ('st, 'a, 'r) Handler = "'a \<Rightarrow> 'st \<Rightarrow> ((StatusCode \<times> 'r) \<times> 'st) option"

definition encode_results :: "'r Pack \<Rightarrow> StatusCode \<times> 'r \<Rightarrow> buf \<Rightarrow> nat \<Rightarrow> nat \<Rightarrow> (bool \<times> nat \<times> buf) option" where
  "encode_results p t out base cap = do {
     (ok, off, out) \<leftarrow> enc_pack p (snd t) out base cap True 0;
     Some (ok, off, out)
   }"

definition dispatch_thunk :: "'a Pack \<Rightarrow> 'r Pack \<Rightarrow> ('st, 'a, 'r) Handler \<Rightarrow> 'st DispatchFn" where
  "dispatch_thunk pa pr fn args argBase argLen reply replyBase replyCap st =
     do {
       (ok, a) \<leftarrow> decode_tuple pa args argBase argLen (tuple_init pa);
       if \<not> ok then Some ((SC_BadArguments, 0), reply, st)
       else do {
         (result, st) \<leftarrow> fn a st;
         let status = fst result;
         (ok, written, reply) \<leftarrow> encode_results pr result reply replyBase replyCap;
         if \<not> ok then Some ((SC_ReplyTooLarge, 0), reply, st)
         else Some ((status, written), reply, st)
       }
     }"

record ('a, 'r) CommandDef =
  def_opcode :: byte
  ArgsTuple :: "'a Pack"
  RetsTuple :: "'r Pack"

record 'st CommandEntry =
  opcode :: byte
  dispatch_fn :: "'st DispatchFn"

definition command :: "('a, 'r) CommandDef \<Rightarrow> ('st, 'a, 'r) Handler \<Rightarrow> 'st CommandEntry" where
  "command d fn = \<lparr>opcode = def_opcode d, dispatch_fn = dispatch_thunk (ArgsTuple d) (RetsTuple d) fn\<rparr>"

function find_entry_loop ::
  "'st CommandEntry list \<Rightarrow> nat \<Rightarrow> byte \<Rightarrow> nat \<Rightarrow> 'st CommandEntry option option" where
  "find_entry_loop table tableLen opc i =
     (if i < tableLen then do {
        e \<leftarrow> mem_read table i;
        if opcode e = opc then Some (Some e) else find_entry_loop table tableLen opc (i + 1)
      } else Some None)"
  by pat_completeness auto
termination by (relation "measure (\<lambda>(table, tableLen, opc, i). tableLen - i)") auto

declare find_entry_loop.simps [simp del]

definition find_entry :: "'st CommandEntry list \<Rightarrow> nat \<Rightarrow> byte \<Rightarrow> 'st CommandEntry option option" where
  "find_entry table tableLen opc = find_entry_loop table tableLen opc 0"

definition write_status_only :: "StatusCode \<Rightarrow> buf \<Rightarrow> nat \<Rightarrow> byte \<Rightarrow> ((bool \<times> byte) \<times> buf) option" where
  "write_status_only status reply replyCap replyLen =
     (if replyCap < 1 then Some ((False, replyLen), reply)
      else do {
        reply \<leftarrow> mem_write reply 0 status;
        Some ((True, 1), reply)
      })"

definition dispatch ::
  "'st CommandEntry list \<Rightarrow> nat \<Rightarrow> Frame \<Rightarrow> buf \<Rightarrow> nat \<Rightarrow> byte \<Rightarrow> 'st \<Rightarrow> ((bool \<times> byte) \<times> buf \<times> 'st) option" where
  "dispatch table tableLen cmd reply replyCap replyLen st =
     (if replyCap < 1 then Some ((False, replyLen), reply, st)
      else if unat (flength cmd) < 1 then do {
        (r, reply) \<leftarrow> write_status_only SC_UnknownCommand reply replyCap replyLen;
        Some (r, reply, st)
      } else do {
        opc \<leftarrow> mem_read (payload cmd) 0;
        entry \<leftarrow> find_entry table tableLen opc;
        case entry of
          None \<Rightarrow> do {
            (r, reply) \<leftarrow> write_status_only SC_UnknownCommand reply replyCap replyLen;
            Some (r, reply, st)
          }
        | Some e \<Rightarrow> do {
            argLen \<leftarrow> size_sub (unat (flength cmd)) 1;
            cap \<leftarrow> size_sub replyCap 1;
            ((status, len), reply, st) \<leftarrow> dispatch_fn e (payload cmd) 1 argLen reply 1 cap st;
            reply \<leftarrow> mem_write reply 0 status;
            Some ((True, of_nat (1 + len)), reply, st)
          }
      })"

text \<open>The overload for a \<open>std::array\<close> table.\<close>

definition dispatch_array ::
  "'st CommandEntry list \<Rightarrow> Frame \<Rightarrow> buf \<Rightarrow> nat \<Rightarrow> byte \<Rightarrow> 'st \<Rightarrow> ((bool \<times> byte) \<times> buf \<times> 'st) option" where
  "dispatch_array table cmd reply replyCap replyLen st =
     dispatch table (length table) cmd reply replyCap replyLen st"

section \<open>One command\<close>

text \<open>The reply to the argument bytes, given \<open>cap\<close> bytes for the results.\<close>

definition answer :: "'a Spec \<Rightarrow> 'r Spec \<Rightarrow> ('st, 'a, 'r) Handler \<Rightarrow> nat \<Rightarrow> byte list \<Rightarrow> 'st \<Rightarrow> byte list \<times> 'st" where
  "answer sa sr fn cap bs st =
     (case parse sa bs of None \<Rightarrow> ([SC_BadArguments], st)
      | Some a \<Rightarrow> (case the (fn a st) of ((c, r), st') \<Rightarrow>
          (if length (ser sr r) \<le> cap then c # ser sr r else [SC_ReplyTooLarge], st')))"

locale contract = args: pack "ArgsTuple d" sa + rets: pack "RetsTuple d" sr
  for d :: "('a, 'r) CommandDef" and sa :: "'a Spec" and sr :: "'r Spec" +
  assumes args_budget: "maxSize (ArgsTuple d) \<le> kMaxPayload - 1"
    and rets_budget: "maxSize (RetsTuple d) \<le> kMaxPayload - 1"

locale handler_contract = contract d sa sr
  for d :: "('a, 'r) CommandDef" and sa :: "'a Spec" and sr :: "'r Spec" +
  fixes fn :: "('st, 'a, 'r) Handler" and sinv :: "'st \<Rightarrow> bool"
  assumes handler_total: "\<lbrakk>sinv st; valid sa a\<rbrakk> \<Longrightarrow>
      \<exists>c r st'. fn a st = Some ((c, r), st') \<and> valid sr r \<and> sinv st'"
begin

lemma thunk_answer:
  assumes "argBase + argLen \<le> length args" "replyBase + cap \<le> length reply" "sinv st"
  shows "\<exists>c n d' st'. dispatch_fn (command d fn) args argBase argLen reply replyBase cap st = Some ((c, n), d', st') \<and>
    n \<le> cap \<and> confined replyBase (replyBase + cap) d' reply \<and> sinv st' \<and>
    answer sa sr fn cap (take argLen (drop argBase args)) st = (c # take n (drop replyBase d'), st')"
proof (cases "parse sa (take argLen (drop argBase args))")
  case None
  then obtain x where "decode_tuple (ArgsTuple d) args argBase argLen (tuple_init (ArgsTuple d)) = Some (False, x)"
    using args.decode_tuple_parse [OF assms(1)] by auto
  then show ?thesis using None assms by (simp add: command_def dispatch_thunk_def answer_def)
next
  case (Some a)
  then have dec: "decode_tuple (ArgsTuple d) args argBase argLen (tuple_init (ArgsTuple d)) = Some (True, a)"
    using args.decode_tuple_parse [OF assms(1)] by simp
  have "valid sa a" using Some args.par_valid by (auto simp: parse_def split: option.splits if_splits)
  then obtain c r st' where fn: "fn a st = Some ((c, r), st')" "valid sr r" "sinv st'"
    using handler_total assms(3) by blast
  show ?thesis
  proof (cases "length (ser sr r) \<le> cap")
    case True
    then have "enc_pack (RetsTuple d) r reply replyBase cap True 0
        = Some (True, length (ser sr r), blit replyBase (ser sr r) reply)"
      using rets.enc_fits [OF fn(2) assms(2), of 0] by simp
    moreover have "confined replyBase (replyBase + cap) (blit replyBase (ser sr r) reply) reply"
      using True assms(2) by (intro confined_blit) simp_all
    ultimately show ?thesis using True Some dec fn assms(2)
      by (simp add: command_def dispatch_thunk_def encode_results_def answer_def slice_blit)
  next
    case False
    then obtain k d' where "enc_pack (RetsTuple d) r reply replyBase cap True 0 = Some (False, k, d')"
        "confined replyBase (replyBase + cap) d' reply"
      using rets.enc_full [OF fn(2) assms(2), of 0] by auto
    then show ?thesis using False Some dec fn
      by (simp add: command_def dispatch_thunk_def encode_results_def answer_def)
  qed
qed

lemma thunk_runs_handler:
  assumes "valid sa a" "sinv st"
    and "argBase + argLen \<le> length args" "take argLen (drop argBase args) = ser sa a"
    and "kMaxPayload - 1 \<le> cap" "replyBase + cap \<le> length reply"
  shows "\<exists>c r st'. fn (canon sa a) st = Some ((c, r), st') \<and> sinv st' \<and>
    dispatch_fn (command d fn) args argBase argLen reply replyBase cap st
      = Some ((c, length (ser sr r)), blit replyBase (ser sr r) reply, st')"
proof -
  have "parse sa (take argLen (drop argBase args)) = Some (canon sa a)"
    using args.parse_ser [OF assms(1)] assms(4) by simp
  then have dec: "decode_tuple (ArgsTuple d) args argBase argLen (tuple_init (ArgsTuple d)) = Some (True, canon sa a)"
    using args.decode_tuple_parse [OF assms(3)] by simp
  obtain c r st' where fn: "fn (canon sa a) st = Some ((c, r), st')" "valid sr r" "sinv st'"
    using handler_total [OF assms(2)] args.canon_valid [OF assms(1)] by blast
  have "length (ser sr r) \<le> cap" using rets.ser_bound [OF fn(2)] rets_budget assms(5) by simp
  then have "enc_pack (RetsTuple d) r reply replyBase cap True 0
      = Some (True, length (ser sr r), blit replyBase (ser sr r) reply)"
    using rets.enc_fits [OF fn(2) assms(6), of 0] by simp
  then show ?thesis using dec fn by (simp add: command_def dispatch_thunk_def encode_results_def)
qed

lemma answer_fits: "kMaxPayload - 1 \<le> cap \<Longrightarrow> answer sa sr fn cap bs st = answer sa sr fn (kMaxPayload - 1) bs st \<or> \<not> sinv st"
proof (cases "parse sa bs")
  case (Some a)
  assume cap: "kMaxPayload - 1 \<le> cap"
  have "valid sa a" using Some args.par_valid by (auto simp: parse_def split: option.splits if_splits)
  then show ?thesis
    using handler_total [of st a] rets.ser_bound rets_budget cap Some
    by (fastforce simp: answer_def)
qed (simp add: answer_def)

end

section \<open>A table\<close>

text \<open>\<open>serves sinv f e\<close>: the entry \<open>e\<close> answers argument bytes as \<open>f\<close> says and keeps \<open>sinv\<close>, within
  the space it is given.\<close>

type_synonym 'st server = "nat \<Rightarrow> byte list \<Rightarrow> 'st \<Rightarrow> byte list \<times> 'st"

definition serves :: "('st \<Rightarrow> bool) \<Rightarrow> 'st server \<Rightarrow> 'st CommandEntry \<Rightarrow> bool" where
  "serves sinv f e \<longleftrightarrow>
     (\<forall>args argBase argLen reply replyBase cap st.
        argBase + argLen \<le> length args \<longrightarrow> replyBase + cap \<le> length reply \<longrightarrow> sinv st \<longrightarrow>
        (\<exists>c n d st'. dispatch_fn e args argBase argLen reply replyBase cap st = Some ((c, n), d, st') \<and>
           n \<le> cap \<and> confined replyBase (replyBase + cap) d reply \<and> sinv st' \<and>
           f cap (take argLen (drop argBase args)) st = (c # take n (drop replyBase d), st')))"

lemma servesD:
  assumes "serves sinv f e" "argBase + argLen \<le> length args" "replyBase + cap \<le> length reply" "sinv st"
  obtains c n d st' where
    "dispatch_fn e args argBase argLen reply replyBase cap st = Some ((c, n), d, st')"
    "n \<le> cap" "confined replyBase (replyBase + cap) d reply" "sinv st'"
    "f cap (take argLen (drop argBase args)) st = (c # take n (drop replyBase d), st')"
  using assms unfolding serves_def by blast

context handler_contract
begin

lemma command_serves: "serves sinv (answer sa sr fn) (command d fn)"
  unfolding serves_def using thunk_answer by blast

end

text \<open>The reply payload to a request payload: the first entry with the opcode answers.\<close>

definition serve :: "(byte \<times> 'st server) list \<Rightarrow> nat \<Rightarrow> byte list \<Rightarrow> 'st \<Rightarrow> byte list \<times> 'st" where
  "serve tbl cap bs st =
     (case bs of [] \<Rightarrow> ([SC_UnknownCommand], st)
      | opc # args \<Rightarrow> (case map_of tbl opc of None \<Rightarrow> ([SC_UnknownCommand], st)
          | Some f \<Rightarrow> f (cap - 1) args st))"

locale service =
  fixes table :: "'st CommandEntry list" and tbl :: "(byte \<times> 'st server) list" and sinv :: "'st \<Rightarrow> bool"
  assumes entries: "list_all2 (\<lambda>e (opc, f). opcode e = opc \<and> serves sinv f e) table tbl"
begin

lemma find_entry_loop_map_of:
  "i \<le> length table \<Longrightarrow>
   case map_of (drop i tbl) opc of
     None \<Rightarrow> find_entry_loop table (length table) opc i = Some None
   | Some f \<Rightarrow> \<exists>e. find_entry_loop table (length table) opc i = Some (Some e) \<and> serves sinv f e"
proof (induction "length table - i" arbitrary: i)
  case 0
  then have "drop i tbl = []" using entries by (simp add: list_all2_lengthD)
  moreover have "find_entry_loop table (length table) opc i = Some None"
    using 0 by (subst find_entry_loop.simps) simp
  ultimately show ?case by simp
next
  case (Suc k)
  then have i: "i < length table" "i < length tbl" using list_all2_lengthD [OF entries] by simp_all
  obtain o' f where f: "tbl ! i = (o', f)" by (cases "tbl ! i")
  have e: "opcode (table ! i) = o'" "serves sinv f (table ! i)"
    using list_all2_nthD [OF entries i(1)] f by simp_all
  have "drop i tbl = (o', f) # drop (Suc i) tbl" using i(2) f by (simp add: Cons_nth_drop_Suc [symmetric])
  moreover have "find_entry_loop table (length table) opc i =
      (if o' = opc then Some (Some (table ! i)) else find_entry_loop table (length table) opc (Suc i))"
    using i e by (subst find_entry_loop.simps) simp
  moreover have "k = length table - Suc i" "Suc i \<le> length table" using Suc.hyps(2) i by simp_all
  note Suc.hyps(1) [OF this]
  ultimately show ?case using e by (cases "o' = opc") (simp_all split: option.splits)
qed

lemma dispatch_serves:
  assumes cmd: "frame_wf cmd" and cap: "1 \<le> cap" "cap \<le> 255" "cap \<le> length reply" and st: "sinv st"
  shows "\<exists>len d st'. dispatch table (length table) cmd reply cap replyLen st = Some ((True, len), d, st') \<and>
    1 \<le> unat len \<and> unat len \<le> cap \<and> confined 0 cap d reply \<and> sinv st' \<and>
    serve tbl cap (frame_data cmd) st = (take (unat len) d, st')"
proof -
  have unknown: "\<exists>d. write_status_only SC_UnknownCommand reply cap replyLen = Some ((True, 1), d) \<and>
      confined 0 cap d reply \<and> take 1 d = [SC_UnknownCommand]"
  proof (intro exI conjI)
    have "mem_write reply 0 SC_UnknownCommand = Some (blit 0 [SC_UnknownCommand] reply)"
      using cap by (intro mem_write_blit) linarith
    then show "write_status_only SC_UnknownCommand reply cap replyLen
        = Some ((True, 1), blit 0 [SC_UnknownCommand] reply)"
      using cap(1) by (simp add: write_status_only_def)
    show "confined 0 cap (blit 0 [SC_UnknownCommand] reply) reply"
      using cap by (intro confined_blit) simp_all
  qed (simp add: blit_def)
  have size: "length (payload cmd) = 250" "unat (flength cmd) \<le> 250"
    using cmd by (simp_all add: frame_wf_def frame_consts)
  show ?thesis
  proof (cases "unat (flength cmd) < 1")
    case True
    then have "frame_data cmd = []" by (simp add: frame_data_def)
    then show ?thesis using unknown True cap st by (auto simp: dispatch_def serve_def)
  next
    case False
    then obtain opc where opc: "mem_read (payload cmd) 0 = Some opc" using size by (simp add: mem_read_def)
    obtain k where k: "unat (flength cmd) = Suc k" using False by (cases "unat (flength cmd)") auto
    have data: "frame_data cmd = opc # take k (drop 1 (payload cmd))"
      using opc k size by (cases "payload cmd") (auto simp: frame_data_def mem_read_def)
    show ?thesis
    proof (cases "map_of tbl opc")
      case None
      then have "find_entry table (length table) opc = Some None"
        using find_entry_loop_map_of [of 0 opc] by (simp add: find_entry_def)
      then show ?thesis using unknown None False cap st opc data by (auto simp: dispatch_def serve_def)
    next
      case (Some f)
      then obtain e where e: "find_entry table (length table) opc = Some (Some e)" "serves sinv f e"
        using find_entry_loop_map_of [of 0 opc] by (auto simp: find_entry_def)
      have room: "1 + k \<le> length (payload cmd)" "1 + (cap - 1) \<le> length reply" using k size cap by simp_all
      obtain c n d st' where r: "dispatch_fn e (payload cmd) 1 k reply 1 (cap - 1) st = Some ((c, n), d, st')"
          "n \<le> cap - 1" "confined 1 (1 + (cap - 1)) d reply" "sinv st'"
          "f (cap - 1) (take k (drop 1 (payload cmd))) st = (c # take n (drop 1 d), st')"
        by (rule servesD [OF e(2) room st])
      have d: "length d = length reply" using confined_length [OF r(3)] .
      have "confined 0 cap (blit 0 [c] d) reply"
        using confined_trans [OF confined_blit confined_mono [OF r(3), of 0 cap]] cap d by simp
      moreover have "take (Suc n) (blit 0 [c] d) = c # take n (drop 1 d)" by (simp add: blit_def)
      moreover have "unat (of_nat (1 + n) :: byte) = 1 + n" using r(2) cap by (intro unat_of_nat_byte) simp
      moreover have "mem_write d 0 c = Some (blit 0 [c] d)" using d cap by (intro mem_write_blit) linarith
      ultimately show ?thesis
        using False k opc e(1) r cap data Some by (simp add: dispatch_def serve_def)
    qed
  qed
qed

end

section \<open>Properties\<close>

text \<open>The smallest service: one command that returns its argument.\<close>

definition echo_def :: "(byte \<times> unit, byte \<times> unit) CommandDef" where
  "echo_def = \<lparr>def_opcode = 7, ArgsTuple = tcons u8_codec tnil, RetsTuple = tcons u8_codec tnil\<rparr>"

definition echo :: "(nat, byte \<times> unit, byte \<times> unit) Handler" where
  "echo a n = Some ((SC_Ok, a), n + 1)"

interpretation echo: handler_contract echo_def "tcons_spec uint_spec tnil_spec" "tcons_spec uint_spec tnil_spec"
    echo "\<lambda>_. True"
proof -
  have pk: "pack (tcons u8_codec tnil) (tcons_spec uint_spec tnil_spec)"
    by (rule tcons_packI [OF u8.codec_axioms nil_pack.pack_axioms])
  show "handler_contract echo_def (tcons_spec uint_spec tnil_spec) (tcons_spec uint_spec tnil_spec) echo (\<lambda>_. True)"
    by (intro handler_contract.intro contract.intro contract_axioms.intro handler_contract_axioms.intro)
       (auto simp: echo_def_def echo_def pk codec_sel kMaxPayload_def)
qed

interpretation echo_service: service "[command echo_def echo]" "[(7, answer (tcons_spec uint_spec tnil_spec) (tcons_spec uint_spec tnil_spec) echo)]" "\<lambda>_. True"
  using echo.command_serves by unfold_locales (simp add: command_def echo_def_def)

text \<open>C7: dispatching a frame against a table of registered commands is total: it answers
  whenever there is room for a status byte, with a payload that fits, keeps the device
  invariant, writes nowhere else, and the answer is that of the abstract service.\<close>

theorem dispatch_refines_service:
  assumes "service table tbl sinv" "frame_wf cmd" "replyCap \<le> length reply" "replyCap \<le> 255" "sinv st"
  shows "\<exists>ok len d st'. dispatch_array table cmd reply replyCap replyLen st = Some ((ok, len), d, st') \<and>
    sinv st' \<and> confined 0 replyCap d reply \<and> (ok \<longleftrightarrow> 1 \<le> replyCap) \<and>
    (if ok then 1 \<le> unat len \<and> unat len \<le> replyCap \<and>
        serve tbl replyCap (frame_data cmd) st = (take (unat len) d, st')
     else len = replyLen \<and> d = reply \<and> st' = st)"
proof (cases "1 \<le> replyCap")
  case True
  then show ?thesis
    using service.dispatch_serves [OF assms(1,2) True assms(4,3,5), of replyLen]
    by (auto simp: dispatch_array_def)
next
  case False
  then show ?thesis using assms(5)
    by (intro exI [of _ False] exI [of _ replyLen] exI [of _ reply] exI [of _ st])
       (simp add: dispatch_array_def dispatch_def)
qed

theorem dispatch_refines_service_witness:
  "\<exists>ok len d st'. dispatch_array [command echo_def echo] Frame_init [9, 9, 9] 2 0 (5 :: nat) = Some ((ok, len), d, st') \<and>
    True \<and> confined 0 2 d [9, 9, 9] \<and> (ok \<longleftrightarrow> 1 \<le> (2 :: nat)) \<and>
    (if ok then 1 \<le> unat len \<and> unat len \<le> 2 \<and>
        serve [(7, answer (tcons_spec uint_spec tnil_spec) (tcons_spec uint_spec tnil_spec) echo)] 2 (frame_data Frame_init) 5 = (take (unat len) d, st')
     else len = 0 \<and> d = [9, 9, 9] \<and> st' = 5)"
  by (rule dispatch_refines_service [OF echo_service.service_axioms]) simp_all

text \<open>An opcode that no entry has, or no opcode at all, is answered by the single byte
  \<open>UnknownCommand\<close>, whatever the table's thunks are; the device state is not touched.\<close>

lemma dispatch_unknown_command:
  assumes "frame_wf cmd" "1 \<le> replyCap" "replyCap \<le> length reply"
    and "flength cmd = 0 \<or> (\<forall>e \<in> set table. opcode e \<noteq> payload cmd ! 0)"
  shows "\<exists>d. dispatch_array table cmd reply replyCap replyLen st = Some ((True, 1), d, st) \<and>
    d = reply[0 := SC_UnknownCommand]"
proof -
  have w: "write_status_only SC_UnknownCommand reply replyCap replyLen = Some ((True, 1), reply[0 := SC_UnknownCommand])"
    using assms(2,3) by (cases reply) (simp_all add: write_status_only_def mem_write_def)
  show ?thesis
  proof (cases "flength cmd = 0")
    case True
    then show ?thesis using w assms(2) by (simp add: dispatch_array_def dispatch_def)
  next
    case False
    have loop: "find_entry_loop table (length table) (payload cmd ! 0) i = Some None" for i
      using assms(4) False
    proof (induction "length table - i" arbitrary: i)
      case 0
      then show ?case by (subst find_entry_loop.simps) simp
    next
      case (Suc k)
      then show ?case by (subst find_entry_loop.simps) simp
    qed
    have "length (payload cmd) = 250" using assms(1) by (simp add: frame_wf_def frame_consts)
    then have "mem_read (payload cmd) 0 = Some (payload cmd ! 0)" by (intro mem_read_Some) linarith
    moreover have "\<not> unat (flength cmd) < 1" using False by (simp add: unat_eq_zero)
    ultimately show ?thesis using w assms(2) loop
      by (simp add: dispatch_array_def dispatch_def find_entry_def)
  qed
qed

text \<open>A registered command given the encoding of its arguments runs its handler once, on
  those arguments, and returns the handler's status followed by the encoded results; the
  payload budgets checked at compile time leave no case of \<open>ReplyTooLarge\<close>.\<close>

lemma command_runs_handler:
  assumes "handler_contract d sa sr fn sinv" "valid sa a" "sinv st"
    and "argBase + argLen \<le> length args" "take argLen (drop argBase args) = ser sa a"
    and "kMaxPayload - 1 \<le> cap" "replyBase + cap \<le> length reply"
  shows "\<exists>c r st'. fn (canon sa a) st = Some ((c, r), st') \<and> sinv st' \<and>
    dispatch_fn (command d fn) args argBase argLen reply replyBase cap st
      = Some ((c, length (ser sr r)), blit replyBase (ser sr r) reply, st')"
  by (rule handler_contract.thunk_runs_handler [OF assms])

text \<open>Arguments that are not exactly the encoding of an argument tuple never reach the
  handler, whatever it is: the answer is \<open>BadArguments\<close>, the reply buffer and the device state
  are untouched.\<close>

lemma command_bad_arguments:
  assumes "strict_pack (ArgsTuple d) sa" "argBase + argLen \<le> length args"
    and "\<nexists>a. valid sa a \<and> take argLen (drop argBase args) = ser sa a"
  shows "dispatch_fn (command d fn) args argBase argLen reply replyBase cap st
    = Some ((SC_BadArguments, 0), reply, st)"
proof -
  note pk = strict_pack.axioms(1) [OF assms(1)]
  have "parse sa (take argLen (drop argBase args)) = None"
  proof (rule ccontr)
    assume "parse sa (take argLen (drop argBase args)) \<noteq> None"
    then obtain a where "parse sa (take argLen (drop argBase args)) = Some a" by blast
    moreover from this have "valid sa a"
      using pack.par_valid [OF pk] by (auto simp: parse_def split: option.splits if_splits)
    ultimately show False using assms(3) strict_pack.parse_strict [OF assms(1)] by blast
  qed
  then show ?thesis
    using pack.decode_tuple_parse [OF pk assms(2)] by (auto simp: command_def dispatch_thunk_def)
qed

end
