(* ===== verification/Host.thy ===== *)
theory Host
  imports Command
begin

text \<open>
  The host's side of a command: \<open>call\<close> of \<open>src/include/eup/host.hpp\<close>. The transport is the
  template parameter of the code: its two methods are arguments of \<open>call\<close>, functions on a
  transport state. The locale \<open>link\<close> states the contract the header documents for them: the
  reply that \<open>await_reply\<close> hands back is the device's answer to the request that
  \<open>send_command\<close> was given. The local arrays \<open>payload\<close> and \<open>wire\<close> are not initialised in the code;
  their contents are the arguments \<open>payload0\<close> and \<open>wire0\<close>.
\<close>

section \<open>The code\<close>

type_synonym 't Sender = "buf \<Rightarrow> nat \<Rightarrow> 't \<Rightarrow> (bool \<times> 't) option"
type_synonym 't Awaiter = "Frame \<Rightarrow> 't \<Rightarrow> (bool \<times> Frame \<times> 't) option"

text \<open>Copying the results behind the status: the whole tail of the result tuple.\<close>

definition assign_tail :: "StatusCode \<times> 'r \<Rightarrow> 'r \<Rightarrow> StatusCode \<times> 'r" where
  "assign_tail out rets = (fst out, rets)"

definition call_request ::
  "buf \<Rightarrow> buf \<Rightarrow> ('a, 'r) CommandDef \<Rightarrow> 'a \<Rightarrow> (EncodeResult \<times> buf) option" where
  "call_request payload0 wire0 d a =
     do {
       payload \<leftarrow> mem_write payload0 0 (def_opcode d);
       (ok, argLen, payload) \<leftarrow> encode_tuple (ArgsTuple d) a payload 1 (kMaxPayload - 1);
       encode_frame MT_Command (Some payload) (of_nat (1 + argLen)) wire0 kMaxPacket
     }"

definition call_reply :: "('a, 'r) CommandDef \<Rightarrow> Frame \<Rightarrow> StatusCode \<times> 'r \<Rightarrow> (StatusCode \<times> 'r) option" where
  "call_reply d reply out =
     do {
       status \<leftarrow> mem_read (payload reply) 0;
       let out = (status, snd out);
       if fst out = SC_Ok then do {
         n \<leftarrow> size_sub (unat (flength reply)) 1;
         (ok, rets) \<leftarrow> decode_tuple (RetsTuple d) (payload reply) 1 n (tuple_init (RetsTuple d));
         if \<not> ok then Some (SC_BadArguments, snd out) else Some (assign_tail out rets)
       } else Some out
     }"

definition call ::
  "buf \<Rightarrow> buf \<Rightarrow> 't Sender \<Rightarrow> 't Awaiter \<Rightarrow> ('a, 'r) CommandDef \<Rightarrow> 'a \<Rightarrow> 't \<Rightarrow> ((StatusCode \<times> 'r) \<times> 't) option" where
  "call payload0 wire0 send_command await_reply d a tx =
     do {
       let out = (SC_Ok, tuple_init (RetsTuple d));
       ((enc, wlen), wire) \<leftarrow> call_request payload0 wire0 d a;
       (sent, tx) \<leftarrow> (if enc \<noteq> Frame_Ok then Some (False, tx) else send_command wire wlen tx);
       if \<not> sent then Some ((SC_TransportError, snd out), tx)
       else do {
         (got, reply, tx) \<leftarrow> await_reply Frame_init tx;
         if \<not> got \<or> ftype reply \<noteq> MT_Reply \<or> unat (flength reply) < 1
         then Some ((SC_TransportError, snd out), tx)
         else do {
           out \<leftarrow> call_reply d reply out;
           Some (out, tx)
         }
       }
     }"

section \<open>What \<open>call\<close> sends and how it reads the answer\<close>

text \<open>The request payload of a call.\<close>

definition request :: "('a, 'r) CommandDef \<Rightarrow> 'a Spec \<Rightarrow> 'a \<Rightarrow> byte list" where
  "request d sa a = def_opcode d # ser sa a"

text \<open>The result tuple that a reply payload stands for.\<close>

definition result_of :: "('a, 'r) CommandDef \<Rightarrow> 'r Spec \<Rightarrow> byte list \<Rightarrow> StatusCode \<times> 'r" where
  "result_of d sr bs =
     (case bs of [] \<Rightarrow> (SC_TransportError, tuple_init (RetsTuple d))
      | c # rs \<Rightarrow>
          if c \<noteq> SC_Ok then (c, tuple_init (RetsTuple d))
          else (case parse sr rs of None \<Rightarrow> (SC_BadArguments, tuple_init (RetsTuple d)) | Some r \<Rightarrow> (c, r)))"

context contract
begin

lemma request_bound: "valid sa a \<Longrightarrow> length (request d sa a) \<le> kMaxPayload"
  using args.ser_bound [of a] args_budget by (simp add: request_def kMaxPayload_def)

lemma call_request_wire:
  assumes "valid sa a" "length payload0 = kMaxPayload" "length wire0 = kMaxPacket"
  shows "call_request payload0 wire0 d a =
    Some ((Frame_Ok, length (frame_wire MT_Command (request d sa a))), blit 0 (frame_wire MT_Command (request d sa a)) wire0)"
proof -
  let ?n = "length (ser sa a)" and ?pl = "blit 0 (request d sa a) payload0"
  have n: "?n \<le> 249" "length (request d sa a) = Suc ?n" "length (request d sa a) \<le> 250"
    using args.ser_bound [OF assms(1)] args_budget by (simp_all add: kMaxPayload_def request_def)
  have pl: "length payload0 = 250" "length wire0 = 256" using assms by (simp_all add: frame_consts)
  have "mem_write payload0 0 (def_opcode d) = Some (blit 0 [def_opcode d] payload0)"
    using pl by (intro mem_write_blit) linarith
  moreover have "encode_tuple (ArgsTuple d) a (blit 0 [def_opcode d] payload0) 1 (kMaxPayload - 1) = Some (True, ?n, ?pl)"
    using args.encode_tuple_fits [OF assms(1), of 1 249 "blit 0 [def_opcode d] payload0"] n pl
      blit_blit_append [of 0 "[def_opcode d]" "ser sa a" payload0]
    by (simp add: length_blit kMaxPayload_def request_def)
  moreover have len: "unat (of_nat (1 + ?n) :: byte) = 1 + ?n" using n by (intro unat_of_nat_byte) simp
  moreover have bytes: "payload_bytes (Some ?pl) (of_nat (1 + ?n)) = request d sa a"
    using len n by (simp add: payload_bytes_def blit_def)
  moreover have "length ?pl = 250" using n pl by (simp add: length_blit)
  then have "payload_valid (Some ?pl) (of_nat (1 + ?n))" using len n by (simp add: payload_valid_def)
  then have "encode_frame MT_Command (Some ?pl) (of_nat (1 + ?n)) wire0 256
      = Some ((Frame_Ok, Suc ?n + 6), blit 0 (frame_wire MT_Command (request d sa a)) wire0)"
    using encode_frame_Ok [of "of_nat (1 + ?n)" "Some ?pl" 256 wire0 MT_Command] len n pl bytes by simp
  moreover have "length (frame_wire MT_Command (request d sa a)) = Suc ?n + 6"
    using n by (simp add: length_frame_wire)
  ultimately show ?thesis by (simp add: call_request_def kMaxPacket_def)
qed

lemma call_reply_result:
  assumes "frame_wf f" "1 \<le> unat (flength f)"
  shows "call_reply d f (c0, tuple_init (RetsTuple d)) = Some (result_of d sr (frame_data f))"
proof -
  obtain k where k: "unat (flength f) = Suc k" using assms(2) by (cases "unat (flength f)") auto
  have size: "length (payload f) = 250" "Suc k \<le> 250" using assms k by (simp_all add: frame_wf_def kMaxPayload_def)
  obtain c pl where pl: "payload f = c # pl" using size by (cases "payload f") auto
  have data: "frame_data f = c # take k (drop 1 (payload f))" using k pl by (simp add: frame_data_def)
  have "case parse sr (take k (drop 1 (payload f))) of
      Some r \<Rightarrow> decode_tuple (RetsTuple d) (payload f) 1 k (tuple_init (RetsTuple d)) = Some (True, r)
    | None \<Rightarrow> \<exists>x. decode_tuple (RetsTuple d) (payload f) 1 k (tuple_init (RetsTuple d)) = Some (False, x)"
    using size by (intro rets.decode_tuple_parse) simp
  then show ?thesis unfolding data
    using k pl by (auto simp: call_reply_def result_of_def assign_tail_def mem_read_def split: option.splits)
qed

lemma result_of_answer:
  assumes "valid sr r"
  shows "result_of d sr (c # ser sr r) = (c, if c = SC_Ok then canon sr r else tuple_init (RetsTuple d))"
  using rets.parse_ser [OF assms] by (simp add: result_of_def)

end

context contract
begin

lemma call_cases:
  assumes "valid sa a" "length payload0 = kMaxPayload" "length wire0 = kMaxPacket"
    and send: "\<And>w n t. \<exists>ok t'. send w n t = Some (ok, t')"
    and await: "\<And>f t. frame_wf f \<Longrightarrow> \<exists>got g t'. await f t = Some (got, g, t') \<and> frame_wf g"
  shows "\<exists>sent t1 c r t'.
    send (blit 0 (frame_wire MT_Command (request d sa a)) wire0)
      (length (frame_wire MT_Command (request d sa a))) t = Some (sent, t1) \<and>
    call payload0 wire0 send await d a t = Some ((c, r), t') \<and>
    (c \<noteq> SC_Ok \<longrightarrow> r = tuple_init (RetsTuple d)) \<and>
    (if \<not> sent then c = SC_TransportError \<and> t' = t1
     else \<exists>got reply. await Frame_init t1 = Some (got, reply, t') \<and>
       (c, r) = (if \<not> got \<or> ftype reply \<noteq> MT_Reply then (SC_TransportError, tuple_init (RetsTuple d))
                 else result_of d sr (frame_data reply)))"
proof -
  let ?w = "frame_wire MT_Command (request d sa a)"
  note req = call_request_wire [OF assms(1-3)]
  obtain sent t1 where s: "send (blit 0 ?w wire0) (length ?w) t = Some (sent, t1)" using send by blast
  obtain got reply t2 where w: "await Frame_init t1 = Some (got, reply, t2)" "frame_wf reply"
    using await [OF frame_wf_init] by blast
  have res: "fst (result_of d sr bs) \<noteq> SC_Ok \<Longrightarrow> snd (result_of d sr bs) = tuple_init (RetsTuple d)" for bs
    by (auto simp: result_of_def split: list.splits option.splits if_splits)
  have ne: "SC_TransportError \<noteq> SC_Ok" by (simp add: status_codes)
  consider (unsent) "\<not> sent" | (bad) "sent" "\<not> got \<or> ftype reply \<noteq> MT_Reply \<or> unat (flength reply) < 1"
    | (read) "sent" "got" "ftype reply = MT_Reply" "1 \<le> unat (flength reply)" by linarith
  then show ?thesis
  proof cases
    case unsent
    then show ?thesis using s req by (auto simp: call_def)
  next
    case bad
    have "frame_data reply = []" if "unat (flength reply) < 1" using that by (simp add: frame_data_def)
    then have "(if \<not> got \<or> ftype reply \<noteq> MT_Reply then (SC_TransportError, tuple_init (RetsTuple d))
        else result_of d sr (frame_data reply)) = (SC_TransportError, tuple_init (RetsTuple d))"
      using bad(2) by (auto simp: result_of_def)
    moreover have "call payload0 wire0 send await d a t = Some ((SC_TransportError, tuple_init (RetsTuple d)), t2)"
      using bad s w(1) req by (simp add: call_def)
    ultimately show ?thesis using bad(1) s w(1) ne by auto
  next
    case read
    have "call payload0 wire0 send await d a t = Some (result_of d sr (frame_data reply), t2)"
      using read s w(1) req call_reply_result [OF w(2) read(4)] by (simp add: call_def)
    then show ?thesis using read s w(1) res [of "frame_data reply"]
      by (cases "result_of d sr (frame_data reply)") auto
  qed
qed

end

section \<open>The transport's contract\<close>

text \<open>\<open>srv\<close> is the device: the reply payload to a request payload. \<open>view\<close> is the part of the
  transport's state the device keeps.\<close>

locale link =
  fixes send :: "'t Sender" and await :: "'t Awaiter"
    and srv :: "byte list \<Rightarrow> 'st \<Rightarrow> byte list \<times> 'st"
    and view :: "'t \<Rightarrow> 'st" and good :: "'t \<Rightarrow> bool"
  assumes round_trip: "\<lbrakk>good t; length ps \<le> kMaxPayload; length wire = kMaxPacket;
      take (length (frame_wire MT_Command ps)) wire = frame_wire MT_Command ps; frame_wf f\<rbrakk> \<Longrightarrow>
      \<exists>t1 reply t2. send wire (length (frame_wire MT_Command ps)) t = Some (True, t1) \<and>
        await f t1 = Some (True, reply, t2) \<and> good t2 \<and> frame_wf reply \<and> ftype reply = MT_Reply \<and>
        srv ps (view t) = (frame_data reply, view t2) \<and> 1 \<le> unat (flength reply)"

locale remote = link send await srv view good + contract d sa sr
  for send :: "'t Sender" and await :: "'t Awaiter"
    and srv :: "byte list \<Rightarrow> 'st \<Rightarrow> byte list \<times> 'st"
    and view :: "'t \<Rightarrow> 'st" and good :: "'t \<Rightarrow> bool"
    and d :: "('a, 'r) CommandDef" and sa :: "'a Spec" and sr :: "'r Spec"
begin

lemma call_served:
  assumes "valid sa a" "good t" "length payload0 = kMaxPayload" "length wire0 = kMaxPacket"
  shows "\<exists>t'. call payload0 wire0 send await d a t = Some (result_of d sr (fst (srv (request d sa a) (view t))), t') \<and>
    good t' \<and> view t' = snd (srv (request d sa a) (view t))"
proof -
  let ?w = "frame_wire MT_Command (request d sa a)"
  have "length (request d sa a) \<le> 250" using request_bound [OF assms(1)] by (simp add: kMaxPayload_def)
  then have w: "length (blit 0 ?w wire0) = kMaxPacket" "take (length ?w) (blit 0 ?w wire0) = ?w"
    using assms(4) by (simp add: length_blit length_frame_wire kMaxPacket_def, simp add: blit_def)
  obtain t1 reply t2 where r: "send (blit 0 ?w wire0) (length ?w) t = Some (True, t1)"
      "await Frame_init t1 = Some (True, reply, t2)" "good t2" "frame_wf reply" "ftype reply = MT_Reply"
      "srv (request d sa a) (view t) = (frame_data reply, view t2)" "1 \<le> unat (flength reply)"
    using round_trip [OF assms(2) request_bound [OF assms(1)] w frame_wf_init] by blast
  then show ?thesis
    using call_request_wire [OF assms(1,3,4)] call_reply_result [OF r(4,7)]
    by (simp add: call_def)
qed

text \<open>Calling a command over the link is running its handler, seen through \<open>canon\<close>.\<close>

lemma call_runs_handler:
  assumes "handler_contract d sa sr fn sinv" "good t" "valid sa a" "sinv (view t)"
    and "length payload0 = kMaxPayload" "length wire0 = kMaxPacket"
    and served: "\<And>st. sinv st \<Longrightarrow> srv (request d sa a) st = answer sa sr fn (kMaxPayload - 1) (ser sa a) st"
  shows "\<exists>c r st' t'. fn (canon sa a) (view t) = Some ((c, r), st') \<and> sinv st' \<and>
    call payload0 wire0 send await d a t
      = Some ((c, if c = SC_Ok then canon sr r else tuple_init (RetsTuple d)), t') \<and>
    good t' \<and> view t' = st'"
proof -
  obtain c r st' where fn: "fn (canon sa a) (view t) = Some ((c, r), st')" "valid sr r" "sinv st'"
    using handler_contract.handler_total [OF assms(1,4)] args.canon_valid [OF assms(3)] by blast
  have "length (ser sr r) \<le> kMaxPayload - 1" using rets.ser_bound [OF fn(2)] rets_budget by simp
  then have "srv (request d sa a) (view t) = (c # ser sr r, st')"
    using served [OF assms(4)] fn args.parse_ser [OF assms(3)] by (simp add: answer_def)
  then show ?thesis
    using call_served [OF assms(3,2,5,6)] fn result_of_answer [OF fn(2), of c] by auto
qed

end

section \<open>Properties\<close>

text \<open>\<open>call\<close> sends exactly one packet, the Command frame of its opcode and encoded arguments,
  whatever its uninitialised arrays held; sending never fails for lack of space.\<close>

lemma call_request_packet:
  assumes "contract d sa sr" "valid sa a" "length payload0 = kMaxPayload" "length wire0 = kMaxPacket"
  shows "call_request payload0 wire0 d a =
      Some ((Frame_Ok, length (frame_wire MT_Command (request d sa a))),
            blit 0 (frame_wire MT_Command (request d sa a)) wire0) \<and>
    length (request d sa a) \<le> kMaxPayload"
  using contract.call_request_wire [OF assms] contract.request_bound [OF assms(1,2)] by blast

text \<open>Whatever the transport does, \<open>call\<close> is safe and total. A failed send, a failed wait, a
  frame of another type and an empty reply are all \<open>TransportError\<close>; nothing is awaited when
  the send failed. Otherwise the result is read off the reply: results only with status
  \<open>Ok\<close>, and zeroed results with every other status.\<close>

lemma call_outcome:
  assumes "contract d sa sr" "valid sa a" "length payload0 = kMaxPayload" "length wire0 = kMaxPacket"
    and send: "\<And>w n t. \<exists>ok t'. send w n t = Some (ok, t')"
    and await: "\<And>f t. frame_wf f \<Longrightarrow> \<exists>got g t'. await f t = Some (got, g, t') \<and> frame_wf g"
  shows "\<exists>sent t1 c r t'.
    send (blit 0 (frame_wire MT_Command (request d sa a)) wire0)
      (length (frame_wire MT_Command (request d sa a))) t = Some (sent, t1) \<and>
    call payload0 wire0 send await d a t = Some ((c, r), t') \<and>
    (c \<noteq> SC_Ok \<longrightarrow> r = tuple_init (RetsTuple d)) \<and>
    (if \<not> sent then c = SC_TransportError \<and> t' = t1
     else \<exists>got reply. await Frame_init t1 = Some (got, reply, t') \<and>
       (c, r) = (if \<not> got \<or> ftype reply \<noteq> MT_Reply then (SC_TransportError, tuple_init (RetsTuple d))
                 else result_of d sr (frame_data reply)))"
  by (rule contract.call_cases [OF assms])

end
