(* ===== verification/Stream.thy ===== *)
theory Stream
  imports Tuples Frame
begin

text \<open>
  Unsolicited packets: \<open>src/include/eup/stream.hpp\<close>. The device writes them
  (\<open>StreamWriter\<close>), the host dispatches them to handlers, functions of the counter, the
  fields and the host's state. The locale \<open>stream_contract\<close> is a \<open>StreamDef\<close> with the static
  assertion of its users. The uninitialised local array of \<open>write\<close> is the argument \<open>payload0\<close>.
\<close>

section \<open>The code\<close>

definition kStreamCounterSize :: nat where "kStreamCounterSize = 4"
definition kStreamHeaderSize :: nat where "kStreamHeaderSize = 1 + kStreamCounterSize"

record 'f StreamDef =
  stream_opcode :: byte
  stream_fields :: "'f Pack"

definition StreamWriter_write ::
  "buf \<Rightarrow> 'f StreamDef \<Rightarrow> buf \<Rightarrow> nat \<Rightarrow> 32 word \<Rightarrow> 'f \<Rightarrow> (EncodeResult \<times> buf) option" where
  "StreamWriter_write payload0 d out cap counter xs =
     do {
       payload \<leftarrow> mem_write payload0 0 (stream_opcode d);
       let off = 1;
       (ok, off, payload) \<leftarrow> encode_one u32_codec counter payload 0 kMaxPayload off;
       if \<not> ok then Some ((BufferTooSmall, 0), out)
       else do {
         let f = xs;
         room \<leftarrow> size_sub kMaxPayload off;
         (ok, fieldsWritten, payload) \<leftarrow> encode_tuple (stream_fields d) f payload off room;
         if \<not> ok then Some ((BufferTooSmall, 0), out)
         else
           let off = off + fieldsWritten
           in encode_frame MT_Stream (Some payload) (of_nat off) out cap
       }
     }"

text \<open>A thunk gets the body as buffer, offset and length.\<close>

type_synonym 'h StreamDispatchFn = "buf \<Rightarrow> nat \<Rightarrow> nat \<Rightarrow> 'h \<Rightarrow> (bool \<times> 'h) option"
type_synonym ('h, 'f) StreamHandler = "32 word \<Rightarrow> 'f \<Rightarrow> 'h \<Rightarrow> 'h"

record 'h StreamEntry =
  se_opcode :: byte
  se_dispatch :: "'h StreamDispatchFn"

definition stream_thunk :: "'f StreamDef \<Rightarrow> ('h, 'f) StreamHandler \<Rightarrow> 'h StreamDispatchFn" where
  "stream_thunk d fn body base bodyLen h =
     do {
       (ok, off, counter) \<leftarrow> decode_one u32_codec body base bodyLen 0 0;
       if \<not> ok then Some (False, h)
       else do {
         room \<leftarrow> size_sub bodyLen off;
         (ok, f) \<leftarrow> decode_tuple (stream_fields d) body (base + off) room (tuple_init (stream_fields d));
         if \<not> ok then Some (False, h)
         else Some (True, fn counter f h)
       }
     }"

definition stream :: "'f StreamDef \<Rightarrow> ('h, 'f) StreamHandler \<Rightarrow> 'h StreamEntry" where
  "stream d fn = \<lparr>se_opcode = stream_opcode d, se_dispatch = stream_thunk d fn\<rparr>"

function dispatch_stream_loop ::
  "'h StreamEntry list \<Rightarrow> nat \<Rightarrow> Frame \<Rightarrow> byte \<Rightarrow> nat \<Rightarrow> 'h \<Rightarrow> (bool \<times> 'h) option" where
  "dispatch_stream_loop table tableLen f opc i h =
     (if i < tableLen then do {
        e \<leftarrow> mem_read table i;
        if se_opcode e = opc then do {
          n \<leftarrow> size_sub (unat (flength f)) 1;
          se_dispatch e (payload f) 1 n h
        } else dispatch_stream_loop table tableLen f opc (i + 1) h
      } else Some (False, h))"
  by pat_completeness auto
termination by (relation "measure (\<lambda>(table, tableLen, f, opc, i, h). tableLen - i)") auto

declare dispatch_stream_loop.simps [simp del]

definition dispatch_stream :: "'h StreamEntry list \<Rightarrow> nat \<Rightarrow> Frame \<Rightarrow> 'h \<Rightarrow> (bool \<times> 'h) option" where
  "dispatch_stream table tableLen f h =
     (if unat (flength f) < 1 then Some (False, h)
      else do {
        opc \<leftarrow> mem_read (payload f) 0;
        dispatch_stream_loop table tableLen f opc 0 h
      })"

definition dispatch_stream_array :: "'h StreamEntry list \<Rightarrow> Frame \<Rightarrow> 'h \<Rightarrow> (bool \<times> 'h) option" where
  "dispatch_stream_array table f h = dispatch_stream table (length table) f h"

section \<open>One stream\<close>

text \<open>The body of a stream packet, and what a body carries.\<close>

definition stream_body :: "'f Spec \<Rightarrow> 32 word \<Rightarrow> 'f \<Rightarrow> byte list" where
  "stream_body sf counter f = le_bytes 4 counter @ ser sf f"

definition stream_parse :: "'f Spec \<Rightarrow> byte list \<Rightarrow> (32 word \<times> 'f) option" where
  "stream_parse sf bs =
     (if length bs < 4 then None
      else case parse sf (drop 4 bs) of None \<Rightarrow> None | Some f \<Rightarrow> Some (le_word (take 4 bs), f))"

definition stream_payload :: "'f StreamDef \<Rightarrow> 'f Spec \<Rightarrow> 32 word \<Rightarrow> 'f \<Rightarrow> byte list" where
  "stream_payload d sf counter f = stream_opcode d # stream_body sf counter f"

locale stream_contract = flds: pack "stream_fields d" sf
  for d :: "'f StreamDef" and sf :: "'f Spec" +
  assumes budget: "kStreamHeaderSize + maxSize (stream_fields d) \<le> kMaxPayload"
begin

lemma payload_bound: "valid sf f \<Longrightarrow> length (stream_payload d sf counter f) \<le> kMaxPayload"
  using flds.ser_bound [of f] budget
  by (simp add: stream_payload_def stream_body_def kStreamHeaderSize_def kStreamCounterSize_def)

lemma parse_body: "valid sf f \<Longrightarrow> stream_parse sf (stream_body sf counter f) = Some (counter, canon sf f)"
  using flds.parse_ser [of f] by (simp add: stream_parse_def stream_body_def le_word_bytes)

lemma counter_decodes:
  "base + n \<le> length body \<Longrightarrow> decode_one u32_codec body base n 0 0 =
     Some (if n < 4 then (False, 0, 0) else (True, 4, le_word (take 4 (drop base body))))"
proof (cases "n < 4")
  case True
  then show ?thesis by (simp add: decode_one_def UintCodec_def UintCodec_decode_def)
next
  case False
  assume "base + n \<le> length body"
  moreover from this have "min (length body - base) n = n" by simp
  then have "par (uint_spec :: 32 word Spec) (take n (drop base body)) = Some (le_word (take 4 (drop base body)), 4)"
    using False by (simp add: uint_spec_def)
  ultimately show ?thesis
    using u32.dec_some [of base n body] False by (simp add: decode_one_def codec_sel)
qed

lemma thunk_parses:
  assumes "base + n \<le> length body"
  shows "se_dispatch (stream d fn) body base n h =
    Some (case stream_parse sf (take n (drop base body)) of
            None \<Rightarrow> (False, h) | Some (counter, f) \<Rightarrow> (True, fn counter f h))"
proof (cases "n < 4")
  case True
  moreover have "min (length body - base) n = n" using assms by simp
  ultimately show ?thesis using counter_decodes [OF assms]
    by (simp add: stream_def stream_thunk_def stream_parse_def)
next
  case False
  have len: "base + 4 + (n - 4) \<le> length body" using assms False by simp
  have eq: "take (n - 4) (drop (base + 4) body) = drop 4 (take n (drop base body))"
    using False by (simp add: drop_take add.commute)
  show ?thesis
    using False assms counter_decodes [OF assms] flds.decode_tuple_parse [OF len]
    unfolding eq by (auto simp: stream_def stream_thunk_def stream_parse_def split: option.splits)
qed

lemma write_frames:
  assumes "valid sf f" "length payload0 = kMaxPayload" "cap \<le> length out"
  shows "\<exists>pl. StreamWriter_write payload0 d out cap counter f =
      encode_frame MT_Stream (Some pl) (of_nat (length (stream_payload d sf counter f))) out cap \<and>
    payload_valid (Some pl) (of_nat (length (stream_payload d sf counter f))) \<and>
    payload_bytes (Some pl) (of_nat (length (stream_payload d sf counter f))) = stream_payload d sf counter f"
proof -
  let ?sp = "stream_payload d sf counter f"
  let ?p1 = "blit 0 [stream_opcode d] payload0" and ?p2 = "blit 0 (stream_opcode d # le_bytes 4 counter) payload0"
  have n: "length ?sp = 5 + length (ser sf f)" "length ?sp \<le> 250" "length (ser sf f) \<le> 245"
    using payload_bound [OF assms(1), of counter]
    by (simp_all add: stream_payload_def stream_body_def kMaxPayload_def)
  have size: "length payload0 = 250" using assms(2) by (simp add: kMaxPayload_def)
  have w: "mem_write payload0 0 (stream_opcode d) = Some ?p1" using size by (intro mem_write_blit) linarith
  have c: "encode_one u32_codec counter ?p1 0 kMaxPayload 1 = Some (True, 5, ?p2)"
    using u32.enc_fits [of counter 1 249 ?p1] size blit_blit_append [of 0 "[stream_opcode d]" "le_bytes 4 counter" payload0]
    by (simp add: encode_one_def kMaxPayload_def codec_sel length_blit)
  have f: "encode_tuple (stream_fields d) f ?p2 5 (kMaxPayload - 5)
      = Some (True, length (ser sf f), blit 0 ?sp payload0)"
    using flds.encode_tuple_fits [OF assms(1), of 5 245 ?p2] size n
      blit_blit_append [of 0 "stream_opcode d # le_bytes 4 counter" "ser sf f" payload0]
    by (simp add: kMaxPayload_def length_blit stream_payload_def stream_body_def)
  have "unat (of_nat (length ?sp) :: byte) = length ?sp" using n by (intro unat_of_nat_byte) simp
  then have "payload_valid (Some (blit 0 ?sp payload0)) (of_nat (length ?sp))"
    "payload_bytes (Some (blit 0 ?sp payload0)) (of_nat (length ?sp)) = ?sp"
    using n size by (simp_all add: payload_valid_def payload_bytes_def length_blit) (simp add: blit_def)
  moreover have "StreamWriter_write payload0 d out cap counter f =
      encode_frame MT_Stream (Some (blit 0 ?sp payload0)) (of_nat (length ?sp)) out cap"
    using w c f n by (simp add: StreamWriter_write_def Let_def kMaxPayload_def)
  ultimately show ?thesis by blast
qed

end

section \<open>The table\<close>

lemma dispatch_stream_loop_find:
  "i \<le> length table \<Longrightarrow> dispatch_stream_loop table (length table) f opc i h =
     (case find (\<lambda>e. se_opcode e = opc) (drop i table) of
        None \<Rightarrow> Some (False, h)
      | Some e \<Rightarrow> do { n \<leftarrow> size_sub (unat (flength f)) 1; se_dispatch e (payload f) 1 n h })"
proof (induction "length table - i" arbitrary: i)
  case 0
  then show ?case by (subst dispatch_stream_loop.simps) simp
next
  case (Suc k)
  then have i: "i < length table" by simp
  then have "drop i table = table ! i # drop (Suc i) table" by (simp add: Cons_nth_drop_Suc)
  then show ?case using i Suc.hyps by (subst dispatch_stream_loop.simps) simp
qed

lemma dispatch_stream_find:
  assumes "frame_wf f"
  shows "dispatch_stream_array table f h =
    (case frame_data f of [] \<Rightarrow> Some (False, h)
     | opc # body \<Rightarrow>
         (case find (\<lambda>e. se_opcode e = opc) table of None \<Rightarrow> Some (False, h)
          | Some e \<Rightarrow> se_dispatch e (payload f) 1 (length body) h))"
proof (cases "unat (flength f)")
  case 0
  then show ?thesis by (simp add: dispatch_stream_array_def dispatch_stream_def frame_data_def)
next
  case (Suc k)
  have size: "length (payload f) = 250" "Suc k \<le> 250" using assms Suc by (simp_all add: frame_wf_def kMaxPayload_def)
  then obtain c pl where pl: "payload f = c # pl" by (cases "payload f") auto
  have "frame_data f = c # take k pl" "length (take k pl) = k" using Suc pl size by (simp_all add: frame_data_def)
  then show ?thesis using Suc pl dispatch_stream_loop_find [of 0 table f c h]
    by (simp add: dispatch_stream_array_def dispatch_stream_def mem_read_def split: option.splits)
qed

lemma frame_data_body:
  assumes "frame_wf f" "frame_data f = opc # body"
  shows "take (length body) (drop 1 (payload f)) = body" "1 + length body \<le> length (payload f)"
proof -
  have len: "length (frame_data f) = unat (flength f)" "length (payload f) = 250" "unat (flength f) \<le> 250"
    using assms(1) by (simp_all add: frame_wf_def frame_data_def kMaxPayload_def)
  then show "1 + length body \<le> length (payload f)" using assms(2) by simp
  have "take (length body) (drop 1 (payload f)) = drop 1 (take (1 + length body) (payload f))"
    by (simp add: take_drop)
  also have "\<dots> = drop 1 (frame_data f)"
  proof -
    have "unat (flength f) = 1 + length body" using len(1) assms(2) by simp
    then show ?thesis by (simp add: frame_data_def)
  qed
  finally show "take (length body) (drop 1 (payload f)) = body" using assms(2) by simp
qed

context stream_contract
begin

lemma delivered:
  assumes "valid sf xs" "length payload0 = kMaxPayload"
    and "kMaxPacket \<le> cap" "cap \<le> length out" "frame_wf f0"
    and "find (\<lambda>e. se_opcode e = stream_opcode d) table = Some (stream d fn)"
  shows "\<exists>n wire crc f. StreamWriter_write payload0 d out cap counter xs = Some ((Frame_Ok, n), wire) \<and>
    n \<le> kMaxPacket \<and> decode_region wire (n - 1) f0 = Some ((Frame_Ok, crc), f) \<and> ftype f = MT_Stream \<and>
    dispatch_stream_array table f h = Some (True, fn counter (canon sf xs) h)"
proof -
  let ?sp = "stream_payload d sf counter xs"
  have len: "length ?sp \<le> 250" using payload_bound [OF assms(1), of counter] by (simp add: kMaxPayload_def)
  then have un: "unat (of_nat (length ?sp) :: byte) = length ?sp" by (intro unat_of_nat_byte) simp
  obtain pl where pl: "StreamWriter_write payload0 d out cap counter xs =
        encode_frame MT_Stream (Some pl) (of_nat (length ?sp)) out cap"
      "payload_valid (Some pl) (of_nat (length ?sp))" "payload_bytes (Some pl) (of_nat (length ?sp)) = ?sp"
    using write_frames [OF assms(1,2,4), of counter] by blast
  let ?wire = "blit 0 (frame_wire MT_Stream ?sp) out" and ?f = "frame_store (frame_raw MT_Stream ?sp) f0"
  have cap: "length ?sp + 6 \<le> cap" "length ?sp + 6 \<le> length out" using len assms(3,4) by (simp_all add: kMaxPacket_def)
  have enc: "encode_frame MT_Stream (Some pl) (of_nat (length ?sp)) out cap = Some ((Frame_Ok, length ?sp + 6), ?wire)"
    using encode_frame_Ok [of "of_nat (length ?sp)" "Some pl" cap out MT_Stream] un len pl cap assms(4) by simp
  have "length ?wire = length out" using len cap by (simp add: length_blit length_frame_wire)
  then have dec: "decode_region ?wire (length ?sp + 5) f0 = Some ((Frame_Ok, frame_crc MT_Stream ?sp), ?f)"
    using take_wire_region [OF len cap(2)] len cap assms(5) by (simp add: decode_region_verdict region_verdict_wire)
  have p0: "length (payload f0) = kMaxPayload" using assms(5) by (simp add: frame_wf_def)
  have f: "frame_wf ?f" "ftype ?f = MT_Stream" "frame_data ?f = ?sp"
    using frame_store_wf [OF len p0] frame_store_data [OF len p0] by simp_all
  have body: "frame_data ?f = stream_opcode d # stream_body sf counter xs" using f(3) by (simp add: stream_payload_def)
  have "dispatch_stream_array table ?f h = Some (True, fn counter (canon sf xs) h)"
    using dispatch_stream_find [OF f(1), of table h] assms(6) body frame_data_body [OF f(1) body]
      thunk_parses [of 1 "length (stream_body sf counter xs)" "payload ?f" fn h] parse_body [OF assms(1), of counter]
    by simp
  then show ?thesis using pl(1) enc dec f(2) len
    by (intro exI [of _ "length ?sp + 6"] exI [of _ ?wire] exI [of _ "frame_crc MT_Stream ?sp"] exI [of _ ?f])
       (simp add: kMaxPacket_def add.commute)
qed

end

section \<open>Properties\<close>

text \<open>The stream of one unsigned byte, and a handler that keeps what it is given.\<close>

definition tick_def :: "(byte \<times> unit) StreamDef" where
  "tick_def = \<lparr>stream_opcode = 0x20, stream_fields = tcons u8_codec tnil\<rparr>"

definition on_tick :: "((32 word \<times> byte) list, byte \<times> unit) StreamHandler" where
  "on_tick counter f h = (counter, fst f) # h"

interpretation tick: stream_contract tick_def "tcons_spec uint_spec tnil_spec"
proof -
  have "pack (tcons u8_codec tnil) (tcons_spec uint_spec tnil_spec)"
    by (rule tcons_packI [OF u8.codec_axioms nil_pack.pack_axioms])
  then show "stream_contract tick_def (tcons_spec uint_spec tnil_spec)"
    by (simp add: stream_contract_def stream_contract_axioms_def tick_def_def codec_sel
        kStreamHeaderSize_def kStreamCounterSize_def kMaxPayload_def)
qed

text \<open>A stream packet written by the device, decoded and dispatched by the host, calls the
  handler registered for its opcode once, with the counter and the fields that were written;
  writing never fails when the output buffer holds a packet.\<close>

lemma stream_roundtrip:
  assumes "stream_contract d sf" "valid sf xs" "length payload0 = kMaxPayload"
    and "kMaxPacket \<le> cap" "cap \<le> length out" "frame_wf f0"
    and "find (\<lambda>e. se_opcode e = stream_opcode d) table = Some (stream d fn)"
  shows "\<exists>n wire crc f. StreamWriter_write payload0 d out cap counter xs = Some ((Frame_Ok, n), wire) \<and>
    n \<le> kMaxPacket \<and> decode_region wire (n - 1) f0 = Some ((Frame_Ok, crc), f) \<and> ftype f = MT_Stream \<and>
    dispatch_stream_array table f h = Some (True, fn counter (canon sf xs) h)"
  by (rule stream_contract.delivered [OF assms])

text \<open>A received stream frame is dispatched to the first entry with its opcode, and its
  handler runs exactly when the body is a counter and the exact encoding of the fields;
  every other frame is refused, and no handler runs.\<close>

lemma dispatch_stream_outcome:
  assumes "stream_contract d sf" "frame_wf f"
    and "\<And>opc body. frame_data f = opc # body \<Longrightarrow>
      find (\<lambda>e. se_opcode e = opc) table = (if opc = stream_opcode d then Some (stream d fn) else None)"
  shows "dispatch_stream_array table f h = Some
    (case frame_data f of [] \<Rightarrow> (False, h)
     | opc # body \<Rightarrow>
         if opc \<noteq> stream_opcode d then (False, h)
         else (case stream_parse sf body of None \<Rightarrow> (False, h) | Some (counter, xs) \<Rightarrow> (True, fn counter xs h)))"
proof (cases "frame_data f")
  case Nil
  then show ?thesis using dispatch_stream_find [OF assms(2)] by simp
next
  case (Cons opc body)
  then show ?thesis
    using dispatch_stream_find [OF assms(2), of table h] assms(3) [OF Cons] frame_data_body [OF assms(2) Cons]
      stream_contract.thunk_parses [OF assms(1), of 1 "length body" "payload f" fn h]
    by simp
qed

end
