(* ===== verification/Reader.thy ===== *)
theory Reader
  imports Frame
begin

text \<open>
  The streaming receiver: class \<open>FrameReader\<close> of \<open>src/include/eup/frame.hpp\<close> and
  \<open>src/src/frame.cpp\<close>, and the loop that drives it in the Python binding
  (\<open>feed\<close> in \<open>src/bindings/eup_core_pybind.hpp\<close>). \<open>rx_msgs\<close> is the receiver on byte
  lists: it splits at delimiters and judges the regions. The locale \<open>receiver\<close> is what
  the clients of \<open>push\<close> rely on; the class is its instance.
\<close>

section \<open>The code\<close>

definition kRegionCap :: nat where "kRegionCap = kMaxPacket - 1"

datatype Event = NeedMore | FrameReady | Event_Error

record FrameReader =
  region :: buf
  regionLen :: nat
  overflow :: bool
  frame :: Frame
  lastStatus :: FrameStatus

definition FrameReader_init :: FrameReader where
  "FrameReader_init = \<lparr>region = replicate kRegionCap 0, regionLen = 0, overflow = False,
     frame = Frame_init, lastStatus = Frame_Ok\<rparr>"

definition reset :: "FrameReader \<Rightarrow> FrameReader" where
  "reset r = r\<lparr>regionLen := 0, overflow := False\<rparr>"

definition push :: "FrameReader \<Rightarrow> byte \<Rightarrow> (Event \<times> FrameReader) option" where
  "push r byte =
     (if byte \<noteq> kDelimiter then
        if regionLen r < kRegionCap then do {
          bs \<leftarrow> mem_write (region r) (regionLen r) byte;
          Some (NeedMore, r\<lparr>region := bs, regionLen := regionLen r + 1\<rparr>)
        } else Some (NeedMore, r\<lparr>overflow := True\<rparr>)
      else if regionLen r = 0 \<and> \<not> overflow r then Some (NeedMore, r)
      else
        let wasOverflow = overflow r;
            len = regionLen r;
            r = r\<lparr>regionLen := 0, overflow := False\<rparr>
        in if wasOverflow then Some (Event_Error, r\<lparr>lastStatus := BufferTooSmall\<rparr>)
           else do {
             ((status, crc), f) \<leftarrow> decode_region (region r) len (frame r);
             let r = r\<lparr>frame := f, lastStatus := status\<rparr>;
             Some (if status = Frame_Ok then FrameReady else Event_Error, r)
           })"

text \<open>The loop of \<open>feed\<close>, over the reader's two methods it calls.\<close>

fun feed_loop ::
  "('r \<Rightarrow> byte \<Rightarrow> (Event \<times> 'r) option) \<Rightarrow> ('r \<Rightarrow> Frame) \<Rightarrow> 'r \<Rightarrow> byte list \<Rightarrow> (Frame list \<times> 'r) option" where
  "feed_loop psh frm r [] = Some ([], r)"
| "feed_loop psh frm r (b # s) = do {
     (ev, r) \<leftarrow> psh r b;
     (frames, r') \<leftarrow> feed_loop psh frm r s;
     Some (if ev = FrameReady then frm r # frames else frames, r')
   }"

definition feed :: "FrameReader \<Rightarrow> byte list \<Rightarrow> (Frame list \<times> FrameReader) option" where
  "feed r data = feed_loop push frame r data"

section \<open>The receiver on byte lists\<close>

type_synonym message = "MessageType \<times> byte list"

definition frame_msg :: "Frame \<Rightarrow> message" where
  "frame_msg f = (ftype f, frame_data f)"

text \<open>What the receiver holds of the region it is in; \<open>None\<close> once it is too long.\<close>

type_synonym held = "byte list option"

definition hold :: "held \<Rightarrow> byte \<Rightarrow> held" where
  "hold h b = (case h of None \<Rightarrow> None | Some xs \<Rightarrow> if length xs < 255 then Some (xs @ [b]) else None)"

text \<open>What a closed region carries: the status and, when it is a frame, the message.\<close>

definition region_msg :: "held \<Rightarrow> message option" where
  "region_msg h =
     (case h of None \<Rightarrow> None
      | Some xs \<Rightarrow>
          (case cobs_unblock xs of None \<Rightarrow> None
           | Some raw \<Rightarrow>
               if length raw \<le> 254 \<and> fst (frame_check raw) = Frame_Ok
               then Some (raw ! 0, take (unat (raw ! 1)) (drop 2 raw)) else None))"

fun rx_msgs :: "held \<Rightarrow> byte list \<Rightarrow> message list \<times> held" where
  "rx_msgs h [] = ([], h)"
| "rx_msgs h (b # s) =
     (if b \<noteq> kDelimiter then rx_msgs (hold h b) s
      else (case rx_msgs (Some []) s of (ms, h') \<Rightarrow>
        (case region_msg h of None \<Rightarrow> ms | Some m \<Rightarrow> m # ms, h')))"

lemma rx_msgs_append:
  "rx_msgs h (s @ s') = (case rx_msgs h s of (ms, h') \<Rightarrow> (case rx_msgs h' s' of (ms', h'') \<Rightarrow> (ms @ ms', h'')))"
  by (induction h s rule: rx_msgs.induct) (auto split: prod.splits option.splits)

lemma region_msg_empty [simp]: "region_msg (Some []) = None" "region_msg None = None"
  by (simp_all add: region_msg_def frame_check_def)

lemma region_msg_wire:
  "length ps \<le> 250 \<Longrightarrow> region_msg (Some (cobs_encoding (frame_raw t ps))) = Some (t, ps)"
  using unat_of_nat_byte [of "length ps"]
  by (simp add: region_msg_def cobs_io.uncode_code frame_check_raw)
     (simp add: frame_raw_def frame_body_def)

lemma region_msg_SomeD:
  assumes "region_msg (Some xs) = Some (t, ps)" "0 \<notin> set xs" "length xs \<le> 255"
  shows "xs @ [kDelimiter] = frame_wire t ps \<and> length ps \<le> 250"
proof -
  obtain raw where raw: "cobs_unblock xs = Some raw" "fst (frame_check raw) = Frame_Ok"
      "t = raw ! 0" "ps = take (unat (raw ! 1)) (drop 2 raw)"
    using assms(1) by (auto simp: region_msg_def split: option.splits if_splits)
  then obtain u qs where "raw = frame_raw u qs" "length qs \<le> 250" "u = raw ! 0"
      "qs = take (unat (raw ! 1)) (drop 2 raw)"
    using frame_check_OkD by (metis prod.collapse)
  moreover have "xs \<noteq> []" using assms(1) by auto
  ultimately show ?thesis
    using cobs_unblock_canonical [OF raw(1) _ assms(2,3)] raw by (simp add: frame_wire_def)
qed

lemma rx_msgs_nonzero:
  "\<lbrakk>0 \<notin> set s; length xs + length s \<le> 255\<rbrakk> \<Longrightarrow> rx_msgs (Some xs) s = ([], Some (xs @ s))"
  by (induction s arbitrary: xs) (auto simp: hold_def kDelimiter_def)

lemma rx_msgs_wire:
  assumes "length ps \<le> 250"
  shows "rx_msgs (Some []) (frame_wire t ps) = ([(t, ps)], Some [])"
proof -
  have "rx_msgs (Some []) (cobs_encoding (frame_raw t ps)) = ([], Some (cobs_encoding (frame_raw t ps)))"
    using rx_msgs_nonzero [OF cobs_io.code_no_zero, of "[]"] assms by (simp add: length_cobs_encoding_small)
  then show ?thesis
    using region_msg_wire [OF assms] by (simp add: frame_wire_def rx_msgs_append)
qed

lemma rx_msgs_wires:
  "\<forall>(t, ps) \<in> set ms. length ps \<le> 250 \<Longrightarrow>
   rx_msgs (Some []) (concat (map (\<lambda>(t, ps). frame_wire t ps) ms)) = (ms, Some [])"
  by (induction ms) (auto simp: rx_msgs_append rx_msgs_wire)

text \<open>A delimiter brings every receiver back in step.\<close>

lemma rx_msgs_delimiter: "snd (rx_msgs h (s @ [kDelimiter])) = Some []"
  by (simp add: rx_msgs_append split: prod.splits)

definition held_ok :: "held \<Rightarrow> bool" where
  "held_ok h \<longleftrightarrow> (case h of None \<Rightarrow> True | Some xs \<Rightarrow> 0 \<notin> set xs \<and> length xs \<le> 255)"

lemma held_ok_hold: "\<lbrakk>held_ok h; b \<noteq> kDelimiter\<rbrakk> \<Longrightarrow> held_ok (hold h b)"
  by (auto simp: held_ok_def hold_def kDelimiter_def split: option.splits)

text \<open>Nothing is received that was not sent: every message delivered is on the wire, and what
  is held at the end is the tail of what arrived.\<close>

lemma rx_msgs_on_wire:
  assumes "held_ok (Some xs)" "(t, ps) \<in> set (fst (rx_msgs (Some xs) s))"
  shows "\<exists>u v. xs @ s = u @ frame_wire t ps @ v"
proof -
  have "held_ok h \<Longrightarrow> (t, ps) \<in> set (fst (rx_msgs h s)) \<Longrightarrow>
      (\<exists>u v. (case h of Some xs \<Rightarrow> xs | None \<Rightarrow> []) @ s = u @ frame_wire t ps @ v)" for h
  proof (induction h s rule: rx_msgs.induct)
    case (2 h b s)
    show ?case
    proof (cases "b = kDelimiter")
      case False
      then have IH: "\<exists>u v. (case hold h b of Some xs \<Rightarrow> xs | None \<Rightarrow> []) @ s = u @ frame_wire t ps @ v"
        using 2 held_ok_hold by simp
      show ?thesis
      proof (cases "hold h b")
        case None
        then obtain u v where "s = u @ frame_wire t ps @ v" using IH by auto
        then have "(case h of Some xs \<Rightarrow> xs | None \<Rightarrow> []) @ b # s =
            ((case h of Some xs \<Rightarrow> xs | None \<Rightarrow> []) @ b # u) @ frame_wire t ps @ v" by simp
        then show ?thesis by blast
      next
        case (Some ys)
        then obtain zs where "h = Some zs" "ys = zs @ [b]"
          by (auto simp: hold_def split: option.splits if_splits)
        then show ?thesis using IH Some by simp
      qed
    next
      case True
      show ?thesis
      proof (cases "region_msg h = Some (t, ps)")
        case hit: True
        then obtain xs where "h = Some xs" by (cases h) auto
        then have "(case h of Some xs \<Rightarrow> xs | None \<Rightarrow> []) @ b # s = [] @ frame_wire t ps @ s"
          using region_msg_SomeD [of xs t ps] hit 2(3) True
          by (simp add: held_ok_def)
        then show ?thesis by blast
      next
        case False
        then have "(t, ps) \<in> set (fst (rx_msgs (Some []) s))"
          using 2(4) True by (auto split: prod.splits option.splits)
        then obtain u v where "s = u @ frame_wire t ps @ v"
          using 2(2) True by (auto simp: held_ok_def)
        then have "(case h of Some xs \<Rightarrow> xs | None \<Rightarrow> []) @ b # s =
            ((case h of Some xs \<Rightarrow> xs | None \<Rightarrow> []) @ b # u) @ frame_wire t ps @ v" by simp
        then show ?thesis by blast
      qed
    qed
  qed simp
  from this [OF assms] show ?thesis by simp
qed

section \<open>The contract of a receiver\<close>

locale receiver =
  fixes psh :: "'r \<Rightarrow> byte \<Rightarrow> (Event \<times> 'r) option"
    and frm :: "'r \<Rightarrow> Frame"
    and holds :: "'r \<Rightarrow> held"
    and good :: "'r \<Rightarrow> bool"
  assumes push_more: "\<lbrakk>good r; b \<noteq> kDelimiter\<rbrakk> \<Longrightarrow>
      \<exists>r'. psh r b = Some (NeedMore, r') \<and> good r' \<and> holds r' = hold (holds r) b"
    and push_close: "good r \<Longrightarrow>
      \<exists>ev r'. psh r kDelimiter = Some (ev, r') \<and> good r' \<and> holds r' = Some [] \<and>
        (case region_msg (holds r) of None \<Rightarrow> ev \<noteq> FrameReady
         | Some m \<Rightarrow> ev = FrameReady \<and> frame_msg (frm r') = m \<and> frame_wf (frm r'))"
begin

lemma feed_msgs:
  "good r \<Longrightarrow> \<exists>fs r'. feed_loop psh frm r s = Some (fs, r') \<and> good r' \<and>
     map frame_msg fs = fst (rx_msgs (holds r) s) \<and> holds r' = snd (rx_msgs (holds r) s) \<and>
     list_all frame_wf fs"
proof (induction s arbitrary: r)
  case (Cons b s)
  show ?case
  proof (cases "b = kDelimiter")
    case False
    then obtain r1 where "psh r b = Some (NeedMore, r1)" "good r1" "holds r1 = hold (holds r) b"
      using push_more [OF Cons.prems] by blast
    then show ?thesis using Cons.IH [of r1] False by auto
  next
    case True
    then obtain ev r1 where step: "psh r b = Some (ev, r1)" "good r1" "holds r1 = Some []"
        "case region_msg (holds r) of None \<Rightarrow> ev \<noteq> FrameReady
         | Some m \<Rightarrow> ev = FrameReady \<and> frame_msg (frm r1) = m \<and> frame_wf (frm r1)"
      using push_close [OF Cons.prems] by blast
    then show ?thesis using Cons.IH [of r1] True
      by (auto split: option.splits prod.splits)
  qed
qed simp

lemma feed_append:
  assumes "good r"
  shows "feed_loop psh frm r (s @ s') = do {
    (fs, r) \<leftarrow> feed_loop psh frm r s;
    (fs', r) \<leftarrow> feed_loop psh frm r s';
    Some (fs @ fs', r) }"
  using assms
proof (induction s arbitrary: r)
  case Nil
  then show ?case using feed_msgs [of r s'] by auto
next
  case (Cons b s)
  obtain ev r1 where "psh r b = Some (ev, r1)" "good r1"
    using push_more [OF Cons.prems, of b] push_close [OF Cons.prems] by (cases "b = kDelimiter") auto
  moreover obtain fs r2 where "feed_loop psh frm r1 s = Some (fs, r2)" "good r2"
    using feed_msgs [OF \<open>good r1\<close>, of s] by blast
  moreover obtain fs' r3 where "feed_loop psh frm r2 s' = Some (fs', r3)"
    using feed_msgs [OF \<open>good r2\<close>, of s'] by blast
  ultimately show ?case using Cons.IH [of r1] by simp
qed

text \<open>One packet fed to a receiver that holds nothing yields its frame.\<close>

lemma feed_wire:
  assumes "good r" "holds r = Some []" "length ps \<le> 250"
  shows "\<exists>f r'. feed_loop psh frm r (frame_wire t ps) = Some ([f], r') \<and> good r' \<and>
    holds r' = Some [] \<and> frame_msg f = (t, ps) \<and> frame_wf f"
proof -
  obtain fs r' where "feed_loop psh frm r (frame_wire t ps) = Some (fs, r')" "good r'"
      "map frame_msg fs = [(t, ps)]" "holds r' = Some []" "list_all frame_wf fs"
    using feed_msgs [OF assms(1), of "frame_wire t ps"] assms by (auto simp: rx_msgs_wire)
  then show ?thesis by (cases fs) auto
qed

end

section \<open>\<open>FrameReader\<close> is a receiver\<close>

definition reader_ok :: "FrameReader \<Rightarrow> bool" where
  "reader_ok r \<longleftrightarrow> length (region r) = kRegionCap \<and> regionLen r \<le> kRegionCap \<and>
     0 \<notin> set (take (regionLen r) (region r)) \<and> frame_wf (frame r) \<and>
     (overflow r \<longrightarrow> regionLen r = kRegionCap)"

definition reader_holds :: "FrameReader \<Rightarrow> held" where
  "reader_holds r = (if overflow r then None else Some (take (regionLen r) (region r)))"

lemma reader_ok_init [simp]: "reader_ok FrameReader_init" "reader_holds FrameReader_init = Some []"
  by (simp_all add: reader_ok_def reader_holds_def FrameReader_init_def)

lemma reader_ok_held: "reader_ok r \<Longrightarrow> held_ok (reader_holds r)"
  by (simp add: reader_ok_def reader_holds_def held_ok_def kRegionCap_def frame_consts)

lemma region_verdict_msg:
  assumes "frame_wf out" "region_verdict xs out = ((st, c), f)"
  shows "case region_msg (Some xs) of None \<Rightarrow> st \<noteq> Frame_Ok | Some m \<Rightarrow> st = Frame_Ok \<and> frame_msg f = m"
proof (cases "st = Frame_Ok")
  case True
  then obtain t ps where "length ps \<le> 250" "cobs_unblock xs = Some (frame_raw t ps)"
      "f = frame_store (frame_raw t ps) out"
    using region_verdict_OkD assms(2) by blast
  then show ?thesis
    using True assms(1) frame_store_data [of ps out t] frame_check_raw [of ps t] unat_of_nat_byte [of "length ps"]
    by (simp add: region_msg_def frame_msg_def frame_wf_def) (simp add: frame_raw_def frame_body_def)
next
  case False
  then show ?thesis using assms(2)
    by (auto simp: region_msg_def region_verdict_def split: option.splits if_splits)
qed

lemma reader_close:
  assumes "reader_ok r"
  shows "\<exists>ev r'. push r kDelimiter = Some (ev, r') \<and> reader_ok r' \<and> reader_holds r' = Some [] \<and>
    (case region_msg (reader_holds r) of None \<Rightarrow> ev \<noteq> FrameReady
     | Some m \<Rightarrow> ev = FrameReady \<and> frame_msg (frame r') = m \<and> frame_wf (frame r'))"
proof (cases "overflow r \<or> regionLen r = 0")
  case True
  then show ?thesis using assms
    by (auto simp: push_def Let_def reader_ok_def reader_holds_def)
next
  case False
  obtain st c f where v: "region_verdict (take (regionLen r) (region r)) (frame r) = ((st, c), f)"
    by (metis prod.exhaust)
  have wf: "frame_wf (frame r)" using assms by (simp add: reader_ok_def)
  have "decode_region (region r) (regionLen r) (frame r) = Some ((st, c), f)"
    using assms v by (simp add: decode_region_verdict reader_ok_def)
  moreover have "frame_wf f" using region_verdict_wf [OF wf] v by (metis snd_conv)
  moreover note region_verdict_msg [OF wf v]
  ultimately show ?thesis using False assms
    by (auto simp: push_def Let_def reader_ok_def reader_holds_def split: option.splits)
qed

lemma reader_more:
  assumes "reader_ok r" "b \<noteq> kDelimiter"
  shows "\<exists>r'. push r b = Some (NeedMore, r') \<and> reader_ok r' \<and> reader_holds r' = hold (reader_holds r) b"
proof (cases "regionLen r < kRegionCap")
  case True
  then show ?thesis using assms
    by (auto simp: push_def reader_ok_def reader_holds_def hold_def take_Suc_conv_app_nth
        kRegionCap_def frame_consts)
next
  case False
  then show ?thesis using assms
    by (auto simp: push_def reader_ok_def reader_holds_def hold_def kRegionCap_def frame_consts)
qed

interpretation rdr: receiver push frame reader_holds reader_ok
  by unfold_locales (rule reader_more reader_close, assumption+)+

lemma frame_kept_until_close:
  "push r b = Some (ev, r') \<Longrightarrow> b \<noteq> kDelimiter \<Longrightarrow> frame r' = frame r"
  by (auto simp: push_def split: if_splits option.splits simp: bind_eq_Some_conv)

section \<open>Properties\<close>

definition wires :: "message list \<Rightarrow> byte list" where
  "wires ms = concat (map (\<lambda>(t, ps). frame_wire t ps) ms)"

lemma rx_wires: "list_all (\<lambda>m. length (snd m) \<le> 250) ms \<Longrightarrow> rx_msgs (Some []) (wires ms) = (ms, Some [])"
  unfolding wires_def by (rule rx_msgs_wires) (auto simp: list_all_iff)

text \<open>C29: whatever bytes arrive, in whatever state, the reader never leaves its buffers, keeps its
  invariant, and the frames it hands out are, in order, those of the abstract receiver.\<close>

theorem feed_refines_receiver:
  assumes "reader_ok r"
  shows "\<exists>fs r'. feed r s = Some (fs, r') \<and> reader_ok r' \<and> list_all frame_wf fs \<and>
    rx_msgs (reader_holds r) s = (map frame_msg fs, reader_holds r')"
  using rdr.feed_msgs [OF assms, of s] unfolding feed_def
  by (auto simp: prod_eq_iff)

theorem feed_refines_receiver_witness:
  "\<exists>fs r'. feed FrameReader_init [3, 0, 7, 7, 0, 0] = Some (fs, r') \<and> reader_ok r' \<and> list_all frame_wf fs \<and>
    rx_msgs (reader_holds FrameReader_init) [3, 0, 7, 7, 0, 0] = (map frame_msg fs, reader_holds r')"
  by (rule feed_refines_receiver) simp

text \<open>C6: a sequence of packets sent back to back and received in two reads cut at any place
  is delivered completely, in order and nothing else, and leaves the reader clean.\<close>

theorem feed_packets_in_chunks:
  assumes "list_all (\<lambda>m. length (snd m) \<le> kMaxPayload) ms" "wires ms = s1 @ s2"
    and "reader_ok r" "reader_holds r = Some []"
  shows "\<exists>fs1 fs2 r1 r2. feed r s1 = Some (fs1, r1) \<and> feed r1 s2 = Some (fs2, r2) \<and>
    map frame_msg (fs1 @ fs2) = ms \<and> reader_ok r2 \<and> reader_holds r2 = Some []"
proof -
  obtain fs1 r1 where f1: "feed_loop push frame r s1 = Some (fs1, r1)" "reader_ok r1"
      "map frame_msg fs1 = fst (rx_msgs (Some []) s1)" "reader_holds r1 = snd (rx_msgs (Some []) s1)"
    using rdr.feed_msgs [OF assms(3), of s1] assms(4) by auto
  obtain fs2 r2 where f2: "feed_loop push frame r1 s2 = Some (fs2, r2)" "reader_ok r2"
      "map frame_msg fs2 = fst (rx_msgs (reader_holds r1) s2)" "reader_holds r2 = snd (rx_msgs (reader_holds r1) s2)"
    using rdr.feed_msgs [OF f1(2), of s2] by auto
  have "rx_msgs (Some []) (s1 @ s2) = (ms, Some [])"
    using rx_wires assms(1,2) by (metis kMaxPayload_def)
  then have "map frame_msg fs1 @ map frame_msg fs2 = ms" "reader_holds r2 = Some []"
    using f1 f2 by (auto simp: rx_msgs_append split: prod.splits)
  then show ?thesis using f1 f2 unfolding feed_def by auto
qed

theorem feed_packets_in_chunks_witness:
  "\<exists>fs1 fs2 r1 r2.
    feed FrameReader_init (take 3 (wires [(MT_Reply, []), (MT_Stream, [5])])) = Some (fs1, r1) \<and>
    feed r1 (drop 3 (wires [(MT_Reply, []), (MT_Stream, [5])])) = Some (fs2, r2) \<and>
    map frame_msg (fs1 @ fs2) = [(MT_Reply, []), (MT_Stream, [5])] \<and>
    reader_ok r2 \<and> reader_holds r2 = Some []"
  by (rule feed_packets_in_chunks) (simp_all add: kMaxPayload_def)

text \<open>C27: after any garbage, from any state (overflowed ones included), one delimiter is enough
  to resynchronise: the packets that follow are all delivered, last.\<close>

theorem reader_resynchronises:
  assumes "reader_ok r" "list_all (\<lambda>m. length (snd m) \<le> kMaxPayload) ms"
  shows "\<exists>fs r'. feed r (garbage @ [kDelimiter] @ wires ms) = Some (fs, r') \<and> reader_ok r' \<and>
    reader_holds r' = Some [] \<and> (\<exists>fs0. map frame_msg fs = fs0 @ ms)"
proof -
  obtain ms0 where "rx_msgs (reader_holds r) (garbage @ [kDelimiter]) = (ms0, Some [])"
    using rx_msgs_delimiter by (metis prod.collapse)
  then have "rx_msgs (reader_holds r) ((garbage @ [kDelimiter]) @ wires ms) = (ms0 @ ms, Some [])"
    using rx_wires assms(2) by (simp only: rx_msgs_append prod.case) (simp add: kMaxPayload_def)
  then show ?thesis
    using rdr.feed_msgs [OF assms(1), of "garbage @ [kDelimiter] @ wires ms"] unfolding feed_def by auto
qed

theorem reader_resynchronises_witness:
  "\<exists>fs r'. feed FrameReader_init (replicate 300 7 @ [kDelimiter] @ wires [(MT_Reply, [0])]) = Some (fs, r') \<and>
    reader_ok r' \<and> reader_holds r' = Some [] \<and> (\<exists>fs0. map frame_msg fs = fs0 @ [(MT_Reply, [0])])"
  by (rule reader_resynchronises) (simp_all add: kMaxPayload_def)

text \<open>C28: no frame is made up: every frame a fresh reader hands out was on the wire, byte for
  byte as the encoder builds it.\<close>

theorem reader_forges_nothing:
  assumes "feed FrameReader_init s = Some (fs, r')" "f \<in> set fs"
  shows "\<exists>u v. s = u @ frame_wire (ftype f) (frame_data f) @ v"
proof -
  have "(ftype f, frame_data f) \<in> set (map frame_msg fs)"
    using assms(2) by (force simp: frame_msg_def)
  also have "map frame_msg fs = fst (rx_msgs (Some []) s)"
    using rdr.feed_msgs [of FrameReader_init s] assms(1) by (simp add: feed_def)
  finally show ?thesis
    using rx_msgs_on_wire [of "[]" "ftype f" "frame_data f" s] by (simp add: held_ok_def)
qed

theorem reader_forges_nothing_witness:
  "\<exists>fs r'. feed FrameReader_init (1 # frame_wire MT_Reply [] @ frame_wire MT_Reply []) = Some (fs, r') \<and>
    (\<forall>f \<in> set fs. \<exists>u v. 1 # frame_wire MT_Reply [] @ frame_wire MT_Reply []
        = u @ frame_wire (ftype f) (frame_data f) @ v)"
proof -
  obtain fs r' where f: "feed FrameReader_init (1 # frame_wire MT_Reply [] @ frame_wire MT_Reply []) = Some (fs, r')"
    using rdr.feed_msgs [OF reader_ok_init(1)] unfolding feed_def by blast
  show ?thesis using f reader_forges_nothing [OF f] by blast
qed

text \<open>What \<open>push\<close> answers when a delimiter closes a region: nothing for an empty one,
  \<open>BufferTooSmall\<close> for one longer than 255 bytes, otherwise the status of decoding it.
  Bytes before it are only stored, and the frame stays available until then.\<close>

lemma push_outcome:
  assumes "reader_ok r"
  shows "\<exists>ev r'. push r b = Some (ev, r') \<and>
    (if b \<noteq> kDelimiter then ev = NeedMore \<and> frame r' = frame r \<and> lastStatus r' = lastStatus r
     else if reader_holds r = Some [] then ev = NeedMore \<and> r' = r
     else regionLen r' = 0 \<and> \<not> overflow r' \<and> (ev = FrameReady \<longleftrightarrow> lastStatus r' = Frame_Ok) \<and>
       ev \<noteq> NeedMore \<and> (lastStatus r' \<noteq> Frame_Ok \<longrightarrow> frame r' = frame r) \<and>
       (case reader_holds r of None \<Rightarrow> lastStatus r' = BufferTooSmall
        | Some xs \<Rightarrow> (lastStatus r', frame r') =
            (case region_verdict xs (frame r) of ((st, c), f) \<Rightarrow> (st, f))))"
proof (cases "b = kDelimiter \<and> \<not> overflow r \<and> regionLen r \<noteq> 0")
  case True
  let ?v = "region_verdict (take (regionLen r) (region r)) (frame r)"
  have dec: "decode_region (region r) (regionLen r) (frame r) = Some ?v"
    using assms by (simp add: decode_region_verdict reader_ok_def)
  have ne: "reader_holds r = Some (take (regionLen r) (region r))" "take (regionLen r) (region r) \<noteq> []"
    using True assms by (auto simp: reader_holds_def reader_ok_def kRegionCap_def frame_consts)
  obtain st c f where v: "?v = ((st, c), f)" by (metis prod.exhaust)
  then have "st \<noteq> Frame_Ok \<Longrightarrow> f = frame r"
    using region_verdict_error [of "take (regionLen r) (region r)" "frame r"] by simp
  then show ?thesis using True dec v ne by (simp add: push_def Let_def)
next
  case False
  obtain ev r' where p: "push r b = Some (ev, r')"
    using reader_more [OF assms, of b] reader_close [OF assms] by (cases "b = kDelimiter") auto
  then show ?thesis using False assms
    by (auto simp: push_def Let_def reader_holds_def reader_ok_def kRegionCap_def frame_consts
        bind_eq_Some_conv split: if_splits)
qed

end
