(* ===== verification/DeviceApp.thy ===== *)
theory DeviceApp
  imports Host Stream Reader
begin

text \<open>
  The example application, \<open>src/examples/rgb_led_adc\<close>: the contracts of \<open>commands.hpp\<close>, the
  firmware of \<open>device.cpp\<close> (its stubbed hardware, handlers, command table, receive and
  transmit path) and the in-process transport \<open>SerialLink\<close> of \<open>main.cpp\<close>. The file-scope
  variables of the firmware are the record \<open>Device\<close>. The locales of the library are
  interpreted here: the table is a \<open>service\<close>, the link with the device behind it a \<open>link\<close>, every
  command a \<open>remote\<close>.
\<close>

section \<open>Contracts\<close>

definition InvalidChannel :: StatusCode where "InvalidChannel = 0x20"
definition kAdcChannelCount :: byte where "kAdcChannelCount = 4"
definition kMaxNameLen :: nat where "kMaxNameLen = 16"
definition kBlockLen :: nat where "kBlockLen = 4"

type_synonym rgb = "byte \<times> byte \<times> byte \<times> unit"

abbreviation rgb_pack :: "rgb Pack" where
  "rgb_pack \<equiv> tcons u8_codec (tcons u8_codec (tcons u8_codec tnil))"

definition SetRgbCmd :: "(rgb, unit) CommandDef" where
  "SetRgbCmd = \<lparr>def_opcode = 0x10, ArgsTuple = rgb_pack, RetsTuple = tnil\<rparr>"

definition ReadAdcCmd :: "(byte \<times> unit, 16 word \<times> unit) CommandDef" where
  "ReadAdcCmd = \<lparr>def_opcode = 0x11, ArgsTuple = tcons u8_codec tnil, RetsTuple = tcons u16_codec tnil\<rparr>"

definition GetRgbCmd :: "(unit, rgb) CommandDef" where
  "GetRgbCmd = \<lparr>def_opcode = 0x12, ArgsTuple = tnil, RetsTuple = rgb_pack\<rparr>"

definition GetUptimeCmd :: "(unit, 32 word \<times> unit) CommandDef" where
  "GetUptimeCmd = \<lparr>def_opcode = 0x13, ArgsTuple = tnil, RetsTuple = tcons u32_codec tnil\<rparr>"

definition SetNameCmd :: "(InlineString \<times> unit, unit) CommandDef" where
  "SetNameCmd = \<lparr>def_opcode = 0x14, ArgsTuple = tcons (StringCodec kMaxNameLen) tnil, RetsTuple = tnil\<rparr>"

definition GetNameCmd :: "(unit, InlineString \<times> unit) CommandDef" where
  "GetNameCmd = \<lparr>def_opcode = 0x15, ArgsTuple = tnil, RetsTuple = tcons (StringCodec kMaxNameLen) tnil\<rparr>"

definition ReadBlockCmd :: "(byte \<times> unit, 16 word InlineArray \<times> unit) CommandDef" where
  "ReadBlockCmd = \<lparr>def_opcode = 0x16, ArgsTuple = tcons u8_codec tnil,
     RetsTuple = tcons (SpanCodec kBlockLen u16_codec) tnil\<rparr>"

definition TelemetryStream :: "(16 word \<times> int \<times> unit) StreamDef" where
  "TelemetryStream = \<lparr>stream_opcode = 0x20, stream_fields = tcons u16_codec (tcons i16_codec tnil)\<rparr>"

section \<open>Hardware stubs and handlers\<close>

record Device =
  g_rgb :: buf
  g_name :: InlineString
  ticks :: "32 word"

definition Device_boot :: Device where
  "Device_boot = \<lparr>g_rgb = [0, 0, 0], g_name = InlineArray_init kMaxNameLen 0, ticks = 0\<rparr>"

definition hw_set_led_pwm :: "byte \<Rightarrow> byte \<Rightarrow> byte \<Rightarrow> Device \<Rightarrow> Device option" where
  "hw_set_led_pwm r g b st =
     do {
       m \<leftarrow> mem_write (g_rgb st) 0 r;
       m \<leftarrow> mem_write m 1 g;
       m \<leftarrow> mem_write m 2 b;
       Some (st\<lparr>g_rgb := m\<rparr>)
     }"

definition hw_read_adc :: "byte \<Rightarrow> 16 word" where
  "hw_read_adc channel = of_nat (0x0200 + unat channel * 0x40)"

definition hw_millis :: "Device \<Rightarrow> 32 word \<times> Device" where
  "hw_millis st = (let st = st\<lparr>ticks := ticks st + 5\<rparr> in (ticks st, st))"

fun set_rgb :: "(Device, rgb, unit) Handler" where
  "set_rgb (r, g, b, u) st = do { st \<leftarrow> hw_set_led_pwm r g b st; Some ((SC_Ok, ()), st) }"

fun read_adc :: "(Device, byte \<times> unit, 16 word \<times> unit) Handler" where
  "read_adc (channel, u) st =
     (if kAdcChannelCount \<le> channel then Some ((InvalidChannel, 0, ()), st)
      else Some ((SC_Ok, hw_read_adc channel, ()), st))"

definition get_rgb :: "(Device, unit, rgb) Handler" where
  "get_rgb u st =
     do {
       r \<leftarrow> mem_read (g_rgb st) 0;
       g \<leftarrow> mem_read (g_rgb st) 1;
       b \<leftarrow> mem_read (g_rgb st) 2;
       Some ((SC_Ok, r, g, b, ()), st)
     }"

definition get_uptime_ms :: "(Device, unit, 32 word \<times> unit) Handler" where
  "get_uptime_ms u st = (case hw_millis st of (ms, st) \<Rightarrow> Some ((SC_Ok, ms, ()), st))"

fun set_name :: "(Device, InlineString \<times> unit, unit) Handler" where
  "set_name (name, u) st = Some ((SC_Ok, ()), st\<lparr>g_name := name\<rparr>)"

definition get_name :: "(Device, unit, InlineString \<times> unit) Handler" where
  "get_name u st = Some ((SC_Ok, g_name st, ()), st)"

function read_block_loop :: "byte \<Rightarrow> nat \<Rightarrow> 16 word InlineArray \<Rightarrow> 16 word InlineArray option" where
  "read_block_loop start i block =
     (if i < kBlockLen then do {
        let channel = of_nat ((unat start + i) mod unat kAdcChannelCount);
        (_, block) \<leftarrow> push_back kBlockLen block (hw_read_adc channel);
        read_block_loop start (i + 1) block
      } else Some block)"
  by pat_completeness auto
termination by (relation "measure (\<lambda>(start, i, block). kBlockLen - i)") auto

declare read_block_loop.simps [simp del]

fun read_block :: "(Device, byte \<times> unit, 16 word InlineArray \<times> unit) Handler" where
  "read_block (start, u) st =
     do {
       block \<leftarrow> read_block_loop start 0 (InlineArray_init kBlockLen 0);
       Some ((SC_Ok, block, ()), st)
     }"

definition kTable :: "Device CommandEntry list" where
  "kTable = [command SetRgbCmd set_rgb, command ReadAdcCmd read_adc, command GetRgbCmd get_rgb,
     command GetUptimeCmd get_uptime_ms, command SetNameCmd set_name, command GetNameCmd get_name,
     command ReadBlockCmd read_block]"

section \<open>Receive and transmit path\<close>

function receive_loop ::
  "buf \<Rightarrow> nat \<Rightarrow> nat \<Rightarrow> FrameReader \<Rightarrow> Frame \<Rightarrow> bool \<Rightarrow> (Frame \<times> bool) option" where
  "receive_loop cmdWire cmdLen i reader cmd got =
     (if i < cmdLen then do {
        b \<leftarrow> mem_read cmdWire i;
        (ev, reader) \<leftarrow> push reader b;
        if ev = FrameReady then receive_loop cmdWire cmdLen (i + 1) reader (frame reader) True
        else receive_loop cmdWire cmdLen (i + 1) reader cmd got
      } else Some (cmd, got))"
  by pat_completeness auto
termination by (relation "measure (\<lambda>(cmdWire, cmdLen, i, reader, cmd, got). cmdLen - i)") auto

declare receive_loop.simps [simp del]

text \<open>The uninitialised local array is \<open>payload0\<close>.\<close>

definition device_handle_packet ::
  "buf \<Rightarrow> buf \<Rightarrow> nat \<Rightarrow> buf \<Rightarrow> nat \<Rightarrow> Device \<Rightarrow> (nat \<times> buf \<times> Device) option" where
  "device_handle_packet payload0 cmdWire cmdLen replyWire replyCap st =
     do {
       (cmd, got) \<leftarrow> receive_loop cmdWire cmdLen 0 FrameReader_init Frame_init False;
       if \<not> got \<or> ftype cmd \<noteq> MT_Command then Some (0, replyWire, st)
       else do {
         ((ok, payloadLen), payload, st) \<leftarrow> dispatch_array kTable cmd payload0 kMaxPayload 0 st;
         if \<not> ok then Some (0, replyWire, st)
         else do {
           ((status, wireLen), replyWire) \<leftarrow> encode_frame MT_Reply (Some payload) payloadLen replyWire replyCap;
           Some (if status = Frame_Ok then wireLen else 0, replyWire, st)
         }
       }
     }"

text \<open>\<open>230 + counter * 5\<close> is computed in \<open>uint32_t\<close> and cast to \<open>int16_t\<close>.\<close>

definition device_emit_telemetry :: "buf \<Rightarrow> 32 word \<Rightarrow> buf \<Rightarrow> nat \<Rightarrow> (nat \<times> buf) option" where
  "device_emit_telemetry payload0 counter out cap =
     do {
       let adc0 = hw_read_adc 0;
       let temp_c10 = sint (ucast (230 + counter * 5) :: 16 word);
       ((status, wireLen), out) \<leftarrow> StreamWriter_write payload0 TelemetryStream out cap counter (adc0, temp_c10, ());
       Some (if status = Frame_Ok then wireLen else 0, out)
     }"

section \<open>The in-process transport\<close>

record SerialLink =
  replyWire :: buf
  replyLen :: nat
  device :: Device

definition send_command :: "buf \<Rightarrow> SerialLink Sender" where
  "send_command payload0 wire len l =
     do {
       (n, rw, dev) \<leftarrow> device_handle_packet payload0 wire len (replyWire l) kMaxPacket (device l);
       let l = l\<lparr>replyLen := n, replyWire := rw, device := dev\<rparr>;
       Some (0 < replyLen l, l)
     }"

definition await_reply :: "SerialLink Awaiter" where
  "await_reply out l =
     (if replyLen l = 0 then Some (False, out, l)
      else do {
        n \<leftarrow> size_sub (replyLen l) 1;
        ((st, crc), out) \<leftarrow> decode_region (replyWire l) n out;
        let l = l\<lparr>replyLen := 0\<rparr>;
        Some (st = Frame_Ok, out, l)
      })"

definition status_name :: "StatusCode \<Rightarrow> string" where
  "status_name s =
     (if s = SC_Ok then ''Ok''
      else if s = SC_UnknownCommand then ''UnknownCommand''
      else if s = SC_BadArguments then ''BadArguments''
      else if s = SC_ReplyTooLarge then ''ReplyTooLarge''
      else if s = SC_Busy then ''Busy''
      else if s = SC_TransportError then ''TransportError''
      else if s = InvalidChannel then ''InvalidChannel''
      else ''??'')"

section \<open>The commands keep their contracts\<close>

definition dev_ok :: "Device \<Rightarrow> bool" where
  "dev_ok st \<longleftrightarrow> length (g_rgb st) = 3 \<and> array_ok kMaxNameLen (g_name st)"

lemma dev_ok_boot [simp]: "dev_ok Device_boot"
  by (simp add: dev_ok_def Device_boot_def)

abbreviation "u8_field \<equiv> uint_spec :: 8 word Spec"
abbreviation "u16_field \<equiv> uint_spec :: 16 word Spec"
abbreviation "u32_field \<equiv> uint_spec :: 32 word Spec"
abbreviation "name_field \<equiv> span_spec kMaxNameLen 0 u8_field"
abbreviation "block_field \<equiv> span_spec kBlockLen 0 u16_field"
abbreviation "rgb_fields \<equiv> tcons_spec u8_field (tcons_spec u8_field (tcons_spec u8_field tnil_spec))"
abbreviation "u8_fields \<equiv> tcons_spec u8_field tnil_spec"
abbreviation "u16_fields \<equiv> tcons_spec u16_field tnil_spec"
abbreviation "u32_fields \<equiv> tcons_spec u32_field tnil_spec"
abbreviation "name_fields \<equiv> tcons_spec name_field tnil_spec"
abbreviation "block_fields \<equiv> tcons_spec block_field tnil_spec"

lemma name_strict: "strict_codec (StringCodec kMaxNameLen) name_field"
  using str16.span_strict by (simp add: StringCodec_def kMaxNameLen_def codec_sel)

lemma block_strict: "strict_codec (SpanCodec kBlockLen u16_codec) block_field"
  using adc4.span_strict by (simp add: kBlockLen_def codec_sel)

lemma packs:
  "strict_pack rgb_pack rgb_fields" "strict_pack (tcons u8_codec tnil) u8_fields"
  "strict_pack (tcons u16_codec tnil) u16_fields" "strict_pack (tcons u32_codec tnil) u32_fields"
  "strict_pack (tcons (StringCodec kMaxNameLen) tnil) name_fields"
  "strict_pack (tcons (SpanCodec kBlockLen u16_codec) tnil) block_fields"
  by (intro pack_rules name_strict block_strict)+

lemmas pack_facts = packs [THEN strict_pack.axioms(1)] nil_pack.pack_axioms
  packs(5,6) [THEN strict_pack.axioms(1), unfolded kMaxNameLen_def kBlockLen_def]

lemmas contract_defs = SetRgbCmd_def ReadAdcCmd_def GetRgbCmd_def GetUptimeCmd_def SetNameCmd_def
  GetNameCmd_def ReadBlockCmd_def

lemmas app_consts = kAdcChannelCount_def kMaxNameLen_def kBlockLen_def InvalidChannel_def

lemma kMaxSize_string [codec_sel]: "kMaxSize (StringCodec N) = 1 + N" "initial (StringCodec N) = InlineArray_init N 0"
  by (simp_all add: StringCodec_def codec_sel)

lemma read_block_loop_samples:
  assumes "i \<le> kBlockLen" "length xs = i"
  shows "read_block_loop start i (array_of kBlockLen 0 xs) = Some (array_of kBlockLen 0
    (xs @ map (\<lambda>k. hw_read_adc (of_nat ((unat start + k) mod 4))) [i..<kBlockLen]))"
  using assms
proof (induction "kBlockLen - i" arbitrary: i xs)
  case 0
  then show ?case by (subst read_block_loop.simps) simp
next
  case (Suc k)
  then have i: "i < kBlockLen" by simp
  let ?x = "hw_read_adc (of_nat ((unat start + i) mod 4))"
  have "read_block_loop start i (array_of kBlockLen 0 xs) = read_block_loop start (i + 1) (array_of kBlockLen 0 (xs @ [?x]))"
    using i Suc.prems push_back_init [of xs kBlockLen 0 ?x]
    by (subst read_block_loop.simps) (simp add: kAdcChannelCount_def Let_def)
  moreover have "[i..<kBlockLen] = i # [i + 1..<kBlockLen]" using i by (simp add: upt_conv_Cons)
  ultimately show ?case using i Suc by simp
qed

definition adc_block :: "byte \<Rightarrow> 16 word list" where
  "adc_block start = map (\<lambda>k. hw_read_adc (of_nat ((unat start + k) mod 4))) [0..<4]"

lemma read_block_result:
  "read_block (start, u) st = Some ((SC_Ok, array_of kBlockLen 0 (adc_block start), ()), st)"
  using read_block_loop_samples [of 0 "[]" start]
  by (simp add: adc_block_def kBlockLen_def InlineArray_init_def array_of_def)

interpretation set_rgb: handler_contract SetRgbCmd rgb_fields tnil_spec set_rgb dev_ok
  by (intro handler_contract.intro contract.intro contract_axioms.intro handler_contract_axioms.intro)
     (auto simp: contract_defs codec_sel pack_facts kMaxPayload_def hw_set_led_pwm_def dev_ok_def)

interpretation read_adc: handler_contract ReadAdcCmd u8_fields u16_fields read_adc dev_ok
  by (intro handler_contract.intro contract.intro contract_axioms.intro handler_contract_axioms.intro)
     (auto simp: contract_defs codec_sel pack_facts kMaxPayload_def)

interpretation get_rgb: handler_contract GetRgbCmd tnil_spec rgb_fields get_rgb dev_ok
  by (intro handler_contract.intro contract.intro contract_axioms.intro handler_contract_axioms.intro)
     (auto simp: contract_defs codec_sel pack_facts kMaxPayload_def get_rgb_def dev_ok_def mem_read_def)

interpretation get_uptime: handler_contract GetUptimeCmd tnil_spec u32_fields get_uptime_ms dev_ok
  by (intro handler_contract.intro contract.intro contract_axioms.intro handler_contract_axioms.intro)
     (auto simp: contract_defs codec_sel pack_facts kMaxPayload_def get_uptime_ms_def hw_millis_def dev_ok_def)

interpretation set_name: handler_contract SetNameCmd name_fields tnil_spec set_name dev_ok
  by (intro handler_contract.intro contract.intro contract_axioms.intro handler_contract_axioms.intro)
     (auto simp: contract_defs codec_sel pack_facts kMaxPayload_def dev_ok_def kMaxNameLen_def)

interpretation get_name: handler_contract GetNameCmd tnil_spec name_fields get_name dev_ok
  by (intro handler_contract.intro contract.intro contract_axioms.intro handler_contract_axioms.intro)
     (auto simp: contract_defs codec_sel pack_facts kMaxPayload_def dev_ok_def get_name_def kMaxNameLen_def list_all_iff)

interpretation read_block: handler_contract ReadBlockCmd u8_fields block_fields read_block dev_ok
  by (intro handler_contract.intro contract.intro contract_axioms.intro handler_contract_axioms.intro)
     (auto simp: contract_defs codec_sel pack_facts kMaxPayload_def read_block_result kBlockLen_def
        array_of_ok adc_block_def list_all_iff simp del: read_block.simps)

text \<open>What the table serves.\<close>

definition kServers :: "(byte \<times> Device server) list" where
  "kServers = [(0x10, answer rgb_fields tnil_spec set_rgb), (0x11, answer u8_fields u16_fields read_adc),
     (0x12, answer tnil_spec rgb_fields get_rgb), (0x13, answer tnil_spec u32_fields get_uptime_ms),
     (0x14, answer name_fields tnil_spec set_name), (0x15, answer tnil_spec name_fields get_name),
     (0x16, answer u8_fields block_fields read_block)]"

interpretation app: service kTable kServers dev_ok
proof
  have "opcode (command d fn) = def_opcode d" for d and fn :: "(Device, 'a, 'b) Handler"
    by (simp add: command_def)
  then show "list_all2 (\<lambda>e (opc, f). opcode e = opc \<and> serves dev_ok f e) kTable kServers"
    unfolding kTable_def kServers_def
    using set_rgb.command_serves read_adc.command_serves get_rgb.command_serves get_uptime.command_serves
      set_name.command_serves get_name.command_serves read_block.command_serves
    by (simp add: command_def contract_defs)
qed

section \<open>The receive path\<close>

lemma receive_loop_feed:
  assumes "reader_ok r" "i \<le> cmdLen" "cmdLen \<le> length cmdWire"
  shows "receive_loop cmdWire cmdLen i r cmd got =
    (case feed_loop push frame r (drop i (take cmdLen cmdWire)) of None \<Rightarrow> None
     | Some (fs, _) \<Rightarrow> Some (if fs = [] then cmd else last fs, got \<or> fs \<noteq> []))"
  using assms
proof (induction "cmdLen - i" arbitrary: i r cmd got)
  case 0
  then show ?case by (subst receive_loop.simps) simp
next
  case (Suc k)
  then have i: "i < cmdLen" by simp
  let ?b = "cmdWire ! i" and ?rest = "drop (Suc i) (take cmdLen cmdWire)"
  have cons: "drop i (take cmdLen cmdWire) = ?b # ?rest"
    using i Suc.prems by (simp add: Cons_nth_drop_Suc [symmetric])
  obtain ev r1 where p: "push r ?b = Some (ev, r1)" "reader_ok r1"
    using reader_more [of r ?b] reader_close [of r] Suc.prems(1) by (cases "?b = kDelimiter") auto
  obtain fs r2 where f: "feed_loop push frame r1 ?rest = Some (fs, r2)"
    using rdr.feed_msgs [OF p(2), of ?rest] by blast
  have IH: "receive_loop cmdWire cmdLen (Suc i) r1 c g =
      Some (if fs = [] then c else last fs, g \<or> fs \<noteq> [])" for c g
    using Suc.hyps(1) [of "Suc i" r1 c g] Suc.hyps(2) Suc.prems i p(2) f by simp
  have b: "mem_read cmdWire i = Some ?b" using i Suc.prems by simp
  have step: "receive_loop cmdWire cmdLen i r cmd got =
      (if ev = FrameReady then receive_loop cmdWire cmdLen (i + 1) r1 (frame r1) True
       else receive_loop cmdWire cmdLen (i + 1) r1 cmd got)"
    using i b p(1) by (subst receive_loop.simps) simp
  show ?case unfolding step cons using p(1) f IH by simp
qed

lemma receive_loop_msgs:
  assumes "cmdLen \<le> length cmdWire"
  shows "\<exists>cmd got. receive_loop cmdWire cmdLen 0 FrameReader_init Frame_init False = Some (cmd, got) \<and> frame_wf cmd \<and>
    (let ms = fst (rx_msgs (Some []) (take cmdLen cmdWire)) in
      got = (ms \<noteq> []) \<and> (got \<longrightarrow> frame_msg cmd = last ms))"
proof -
  obtain fs r where f: "feed_loop push frame FrameReader_init (take cmdLen cmdWire) = Some (fs, r)"
      "map frame_msg fs = fst (rx_msgs (Some []) (take cmdLen cmdWire))" "list_all frame_wf fs"
    using rdr.feed_msgs [of FrameReader_init "take cmdLen cmdWire"] by auto
  have "fs \<noteq> [] \<Longrightarrow> frame_wf (last fs)" using f(3) by (simp add: list_all_iff)
  then show ?thesis
    using receive_loop_feed [of FrameReader_init 0 cmdLen cmdWire Frame_init False] assms f(1)
      last_map [of fs frame_msg]
    by (auto simp: f(2) [symmetric] Let_def)
qed

text \<open>The answer of the device to the bytes it received: the reply payload, if any.\<close>

definition device_answer :: "byte list \<Rightarrow> Device \<Rightarrow> byte list option \<times> Device" where
  "device_answer bs st =
     (let ms = fst (rx_msgs (Some []) bs)
      in if ms = [] \<or> fst (last ms) \<noteq> MT_Command then (None, st)
         else (case serve kServers kMaxPayload (snd (last ms)) st of (rs, st') \<Rightarrow> (Some rs, st')))"

lemma device_handle_packet_answer:
  assumes "length payload0 = kMaxPayload" "cmdLen \<le> length cmdWire" "replyCap \<le> length rw" "dev_ok st"
  shows "\<exists>n d st'. device_handle_packet payload0 cmdWire cmdLen rw replyCap st = Some (n, d, st') \<and>
    dev_ok st' \<and> untouched_from replyCap d rw \<and> snd (device_answer (take cmdLen cmdWire) st) = st' \<and>
    (case fst (device_answer (take cmdLen cmdWire) st) of None \<Rightarrow> n = 0
     | Some rs \<Rightarrow> 1 \<le> length rs \<and> length rs \<le> kMaxPayload \<and>
         (if length rs + 6 \<le> replyCap then n = length rs + 6 \<and> d = blit 0 (frame_wire MT_Reply rs) rw else n = 0))"
proof -
  obtain cmd got where rx: "receive_loop cmdWire cmdLen 0 FrameReader_init Frame_init False = Some (cmd, got)"
      "frame_wf cmd" "got = (fst (rx_msgs (Some []) (take cmdLen cmdWire)) \<noteq> [])"
      "got \<longrightarrow> frame_msg cmd = last (fst (rx_msgs (Some []) (take cmdLen cmdWire)))"
    using receive_loop_msgs [OF assms(2)] by (auto simp: Let_def)
  show ?thesis
  proof (cases "got \<and> ftype cmd = MT_Command")
    case False
    then show ?thesis using rx assms(4)
      by (auto simp: device_handle_packet_def device_answer_def Let_def frame_msg_def untouched_from_def
          dest: arg_cong [where f = fst])
  next
    case True
    then have msg: "last (fst (rx_msgs (Some []) (take cmdLen cmdWire))) = (MT_Command, frame_data cmd)"
      using rx(4) by (auto simp: frame_msg_def)
    obtain len pl st' where d: "dispatch_array kTable cmd payload0 kMaxPayload 0 st = Some ((True, len), pl, st')"
        "1 \<le> unat len" "unat len \<le> 250" "confined 0 kMaxPayload pl payload0" "dev_ok st'"
        "serve kServers kMaxPayload (frame_data cmd) st = (take (unat len) pl, st')"
      using app.dispatch_serves [OF rx(2), of kMaxPayload payload0 st 0] assms(1,4)
      by (auto simp: kMaxPayload_def dispatch_array_def)
    have pl: "length pl = 250" using confined_length [OF d(4)] assms(1) by (simp add: kMaxPayload_def)
    let ?rs = "take (unat len) pl"
    have valid: "payload_valid (Some pl) len" "payload_bytes (Some pl) len = ?rs"
      using d(3) pl by (simp_all add: payload_valid_def payload_bytes_def)
    obtain w where w: "encode_frame MT_Reply (Some pl) len rw replyCap =
        Some (if replyCap < unat len + 6 then (BufferTooSmall, 0) else (Frame_Ok, unat len + 6), w)"
        "untouched_from replyCap w rw"
        "unat len + 6 \<le> replyCap \<longrightarrow> w = blit 0 (frame_wire MT_Reply ?rs) rw"
      using encode_frame_result [of len "Some pl" replyCap rw MT_Reply] valid d(3) assms(3) by auto
    have "device_answer (take cmdLen cmdWire) st = (Some ?rs, st')"
      using True rx(3) msg d(6) by (simp add: device_answer_def Let_def)
    moreover have "length ?rs = unat len" using pl d(3) by simp
    ultimately show ?thesis using True rx(1) d w
      by (auto simp: device_handle_packet_def kMaxPayload_def)
  qed
qed

lemma device_answer_command:
  "length ps \<le> 250 \<Longrightarrow> device_answer (frame_wire MT_Command ps) st =
     (case serve kServers kMaxPayload ps st of (rs, st') \<Rightarrow> (Some rs, st'))"
  by (simp add: device_answer_def rx_msgs_wire)

section \<open>The link\<close>

definition link_ok :: "SerialLink \<Rightarrow> bool" where
  "link_ok l \<longleftrightarrow> length (replyWire l) = kMaxPacket \<and> replyLen l = 0 \<and> dev_ok (device l)"

lemma serial_round_trip:
  assumes u: "length payload0 = kMaxPayload" and l: "link_ok l" and ps: "length ps \<le> kMaxPayload"
    and wire: "length wire = kMaxPacket" "take (length (frame_wire MT_Command ps)) wire = frame_wire MT_Command ps"
    and f: "frame_wf f"
  shows "\<exists>l1 reply l2. send_command payload0 wire (length (frame_wire MT_Command ps)) l = Some (True, l1) \<and>
    await_reply f l1 = Some (True, reply, l2) \<and> link_ok l2 \<and> frame_wf reply \<and> ftype reply = MT_Reply \<and>
    serve kServers kMaxPayload ps (device l) = (frame_data reply, device l2) \<and> 1 \<le> unat (flength reply)"
proof -
  let ?n = "length (frame_wire MT_Command ps)"
  have sz: "length (replyWire l) = 256" "dev_ok (device l)" using l by (simp_all add: link_ok_def kMaxPacket_def)
  obtain rs st' where rs: "serve kServers kMaxPayload ps (device l) = (rs, st')" by force
  have ps250: "length ps \<le> 250" using ps by (simp add: kMaxPayload_def)
  then have "?n \<le> length wire" using wire(1) by (simp add: length_frame_wire kMaxPacket_def)
  then obtain n d where h: "device_handle_packet payload0 wire ?n (replyWire l) 256 (device l) = Some (n, d, st')"
      "dev_ok st'" "1 \<le> length rs" "length rs \<le> 250" "n = length rs + 6" "d = blit 0 (frame_wire MT_Reply rs) (replyWire l)"
    using device_handle_packet_answer [OF u, of ?n wire 256 "replyWire l" "device l"] sz
      device_answer_command [OF ps250] rs unfolding wire(2) by (auto simp: kMaxPayload_def)
  let ?l1 = "l\<lparr>replyLen := n, replyWire := d, device := st'\<rparr>"
  let ?reply = "frame_store (frame_raw MT_Reply rs) f"
  have send: "send_command payload0 wire ?n l = Some (True, ?l1)"
    using h(1,5) by (simp add: send_command_def kMaxPacket_def)
  have d: "length d = 256" using h sz by (simp add: length_blit length_frame_wire)
  have "take (length rs + 5) d = cobs_encoding (frame_raw MT_Reply rs)"
    using h(4,6) sz by (simp add: take_wire_region)
  then have dec: "decode_region d (length rs + 5) f = Some ((Frame_Ok, frame_crc MT_Reply rs), ?reply)"
    using d h(4) f by (simp add: decode_region_verdict region_verdict_wire)
  have await: "await_reply f ?l1 = Some (True, ?reply, ?l1\<lparr>replyLen := 0\<rparr>)"
    using dec h(5) by (simp add: await_reply_def add.commute)
  have p0: "length (payload f) = kMaxPayload" using f by (simp add: frame_wf_def)
  have "link_ok (?l1\<lparr>replyLen := 0\<rparr>)" using d h(2) by (simp add: link_ok_def kMaxPacket_def)
  then show ?thesis using send await rs h(3,4) frame_store_wf [OF h(4) p0] frame_store_data [OF h(4) p0]
      unat_of_nat_byte [of "length rs"] by auto
qed

text \<open>What \<open>payload0\<close> holds does not matter: the link with all zeros is as good as any.\<close>

definition zero_payload :: buf where "zero_payload = replicate kMaxPayload 0"

interpretation serial: link "send_command zero_payload" await_reply "serve kServers kMaxPayload" device link_ok
  by unfold_locales (rule serial_round_trip; simp add: zero_payload_def)

lemma serial_link:
  "length payload0 = kMaxPayload \<Longrightarrow>
   link (send_command payload0) await_reply (serve kServers kMaxPayload) device link_ok"
  by unfold_locales (rule serial_round_trip)

text \<open>Calling any registered command over the link.\<close>

lemma serial_call:
  assumes "handler_contract d sa sr fn dev_ok" "map_of kServers (def_opcode d) = Some (answer sa sr fn)"
    and "link_ok l" "valid sa a" "length u = kMaxPayload" "length payload0 = kMaxPayload" "length wire0 = kMaxPacket"
  shows "\<exists>c r st' l'. fn (canon sa a) (device l) = Some ((c, r), st') \<and>
    call payload0 wire0 (send_command u) await_reply d a l
      = Some ((c, if c = SC_Ok then canon sr r else tuple_init (RetsTuple d)), l') \<and>
    link_ok l' \<and> device l' = st'"
proof -
  have rm: "remote (send_command u) await_reply (serve kServers kMaxPayload) device link_ok d sa sr"
    by (intro remote.intro serial_link assms(5) handler_contract.axioms(1) [OF assms(1)])
  have dev: "dev_ok (device l)" using assms(3) by (simp add: link_ok_def)
  show ?thesis
    using remote.call_runs_handler [OF rm assms(1,3,4) dev assms(6,7)] assms(2)
    by (auto simp: serve_def request_def)
qed

interpretation set_rgb_call: remote "send_command zero_payload" await_reply "serve kServers kMaxPayload" device link_ok
    SetRgbCmd rgb_fields tnil_spec
  by unfold_locales

interpretation get_name_call: remote "send_command zero_payload" await_reply "serve kServers kMaxPayload" device link_ok
    GetNameCmd tnil_spec name_fields
  by unfold_locales

lemmas serial_calls =
  serial_call [OF set_rgb.handler_contract_axioms] serial_call [OF read_adc.handler_contract_axioms]
  serial_call [OF get_rgb.handler_contract_axioms] serial_call [OF get_uptime.handler_contract_axioms]
  serial_call [OF set_name.handler_contract_axioms] serial_call [OF get_name.handler_contract_axioms]
  serial_call [OF read_block.handler_contract_axioms]

lemmas served = kServers_def contract_defs

interpretation telemetry: stream_contract TelemetryStream "tcons_spec u16_field (tcons_spec (int_spec TYPE(16)) tnil_spec)"
proof -
  have "pack (tcons u16_codec (tcons i16_codec tnil)) (tcons_spec u16_field (tcons_spec (int_spec TYPE(16)) tnil_spec))"
    by (intro tcons_packI u16.codec_axioms i16.codec_axioms nil_pack.pack_axioms)
  then show "stream_contract TelemetryStream (tcons_spec u16_field (tcons_spec (int_spec TYPE(16)) tnil_spec))"
    by (simp add: stream_contract_def stream_contract_axioms_def TelemetryStream_def codec_sel
        kStreamHeaderSize_def kStreamCounterSize_def kMaxPayload_def)
qed

lemma canon_uint [codec_sel]: "canon uint_spec = (\<lambda>u. u)"
  by (simp add: uint_spec_def)

text \<open>Telemetry the device emits is decoded and dispatched by the host to its handler with the
  same counter, the sample of channel 0 and the temperature, wrapped to 16 bits.\<close>

lemma telemetry_reaches:
  assumes "length payload0 = kMaxPayload" "kMaxPacket \<le> cap" "cap \<le> length out"
  shows "\<exists>n wire crc f. device_emit_telemetry payload0 counter out cap = Some (n, wire) \<and>
    0 < n \<and> n \<le> kMaxPacket \<and> decode_region wire (n - 1) Frame_init = Some ((Frame_Ok, crc), f) \<and>
    dispatch_stream_array [stream TelemetryStream hdl] f h
      = Some (True, hdl counter (512, sint (ucast (230 + counter * 5) :: 16 word), ()) h)"
proof -
  let ?t = "sint (ucast (230 + counter * 5) :: 16 word)"
  let ?xs = "(hw_read_adc 0, ?t, ())"
  let ?sf = "tcons_spec u16_field (tcons_spec (int_spec TYPE(16)) tnil_spec)"
  have v: "valid ?sf ?xs" "canon ?sf ?xs = ?xs" by (simp_all add: codec_sel int_ok_sint)
  have fnd: "find (\<lambda>e. se_opcode e = stream_opcode TelemetryStream) [stream TelemetryStream hdl]
      = Some (stream TelemetryStream hdl)"
    by (simp add: stream_def)
  from telemetry.delivered [OF v(1) assms frame_wf_init fnd, of counter h]
  obtain n wire crc f where w:
      "StreamWriter_write payload0 TelemetryStream out cap counter ?xs = Some ((Frame_Ok, n), wire)"
      "n \<le> kMaxPacket" "decode_region wire (n - 1) Frame_init = Some ((Frame_Ok, crc), f)"
      "dispatch_stream_array [stream TelemetryStream hdl] f h = Some (True, hdl counter ?xs h)"
    unfolding v(2) by blast
  moreover have "n \<noteq> 0"
  proof
    assume "n = 0"
    then have "decode_region wire 0 Frame_init = Some ((Frame_Ok, crc), f)" using w(3) by simp
    then show False by (simp add: decode_region_verdict region_verdict_def frame_check_def)
  qed
  moreover have "hw_read_adc 0 = 512" by (simp add: hw_read_adc_def)
  ultimately show ?thesis by (simp add: device_emit_telemetry_def Let_def)
qed

section \<open>Properties\<close>

text \<open>A link whose device has just booted.\<close>

definition SerialLink_boot :: SerialLink where
  "SerialLink_boot = \<lparr>replyWire = replicate kMaxPacket 0, replyLen = 0, device = Device_boot\<rparr>"

lemma link_ok_boot [simp]: "link_ok SerialLink_boot"
  by (simp add: link_ok_def SerialLink_boot_def)

text \<open>C31: the device survives any bytes: it never leaves a buffer, keeps its invariant, and answers
  (and changes its state) only for a well-formed Command packet that is among the bytes, with
  the Reply packet of what the command table serves for it.\<close>

theorem device_handles_anything:
  assumes "length payload0 = kMaxPayload" "cmdLen \<le> length cmdWire" "replyCap \<le> length rw" "dev_ok st"
  shows "\<exists>n d st'. device_handle_packet payload0 cmdWire cmdLen rw replyCap st = Some (n, d, st') \<and>
    dev_ok st' \<and> n \<le> replyCap \<and> untouched_from replyCap d rw \<and>
    (n \<noteq> 0 \<or> st' \<noteq> st \<longrightarrow> (\<exists>pre ps post rs. take cmdLen cmdWire = pre @ frame_wire MT_Command ps @ post \<and>
        serve kServers kMaxPayload ps st = (rs, st') \<and> length rs \<le> kMaxPayload \<and>
        (n \<noteq> 0 \<longrightarrow> n = length rs + 6 \<and> d = blit 0 (frame_wire MT_Reply rs) rw)))"
proof -
  let ?bs = "take cmdLen cmdWire" and ?ms = "fst (rx_msgs (Some []) (take cmdLen cmdWire))"
  obtain n d st' where h: "device_handle_packet payload0 cmdWire cmdLen rw replyCap st = Some (n, d, st')"
      "dev_ok st'" "untouched_from replyCap d rw" "snd (device_answer ?bs st) = st'"
      "case fst (device_answer ?bs st) of None \<Rightarrow> n = 0
       | Some rs \<Rightarrow> 1 \<le> length rs \<and> length rs \<le> kMaxPayload \<and>
         (if length rs + 6 \<le> replyCap then n = length rs + 6 \<and> d = blit 0 (frame_wire MT_Reply rs) rw else n = 0)"
    using device_handle_packet_answer [OF assms] by blast
  show ?thesis
  proof (cases "?ms = [] \<or> fst (last ?ms) \<noteq> MT_Command")
    case True
    then show ?thesis using h by (simp add: device_answer_def Let_def)
  next
    case False
    obtain ps where last: "last ?ms = (MT_Command, ps)" using False by (cases "last ?ms") simp
    then have "(MT_Command, ps) \<in> set ?ms" using False by (metis last_in_set)
    then obtain pre post where on_wire: "?bs = pre @ frame_wire MT_Command ps @ post"
      using rx_msgs_on_wire [of "[]" MT_Command ps ?bs] by (auto simp: held_ok_def)
    obtain rs where "serve kServers kMaxPayload ps st = (rs, st')" "fst (device_answer ?bs st) = Some rs"
      using False last h(4) by (cases "serve kServers kMaxPayload ps st") (simp add: device_answer_def Let_def)
    then show ?thesis using h on_wire by (auto split: if_splits)
  qed
qed

theorem device_handles_anything_witness:
  "\<exists>n d st'. device_handle_packet (replicate 250 0xEE) [1, 2, 0, 3] 4 (replicate 256 0) 256 Device_boot = Some (n, d, st') \<and>
    dev_ok st' \<and> n \<le> 256 \<and> untouched_from 256 d (replicate 256 0) \<and>
    (n \<noteq> 0 \<or> st' \<noteq> Device_boot \<longrightarrow> (\<exists>pre ps post rs. take 4 [1, 2, 0, 3] = pre @ frame_wire MT_Command ps @ post \<and>
        serve kServers kMaxPayload ps Device_boot = (rs, st') \<and> length rs \<le> kMaxPayload \<and>
        (n \<noteq> 0 \<longrightarrow> n = length rs + 6 \<and> d = blit 0 (frame_wire MT_Reply rs) (replicate 256 0))))"
  by (rule device_handles_anything) (simp_all add: kMaxPayload_def)

text \<open>C1: a remote call is the local call: for every command of the table and every argument, \<open>call\<close>
  over the link runs the handler once on the argument and the device's state, and returns its
  status; its results when the status is \<open>Ok\<close>, zeros otherwise. The link is ready again.\<close>

theorem call_is_handler:
  assumes "handler_contract d sa sr fn dev_ok" "map_of kServers (def_opcode d) = Some (answer sa sr fn)"
    and "link_ok l" "valid sa a" "length u = kMaxPayload" "length payload0 = kMaxPayload" "length wire0 = kMaxPacket"
  shows "\<exists>c r st' l'. fn (canon sa a) (device l) = Some ((c, r), st') \<and>
    call payload0 wire0 (send_command u) await_reply d a l
      = Some ((c, if c = SC_Ok then canon sr r else tuple_init (RetsTuple d)), l') \<and>
    link_ok l' \<and> device l' = st'"
  by (rule serial_call [OF assms])

theorem call_is_handler_witness:
  "\<exists>c r st' l'. read_adc (canon u8_fields (9, ())) (device SerialLink_boot) = Some ((c, r), st') \<and>
    call (replicate 250 1) (replicate 256 2) (send_command (replicate 250 3)) await_reply ReadAdcCmd (9, ()) SerialLink_boot
      = Some ((c, if c = SC_Ok then canon u16_fields r else tuple_init (RetsTuple ReadAdcCmd)), l') \<and>
    link_ok l' \<and> device l' = st'"
  by (rule call_is_handler [OF read_adc.handler_contract_axioms])
     (simp_all add: served codec_sel frame_consts)

text \<open>The colour set over the link is the colour read back over the link.\<close>

lemma rgb_session:
  assumes "link_ok l" "length u = kMaxPayload" "length payload0 = kMaxPayload" "length wire0 = kMaxPacket"
  shows "\<exists>l1 l2. call payload0 wire0 (send_command u) await_reply SetRgbCmd (r, g, b, ()) l = Some ((SC_Ok, ()), l1) \<and>
    call payload0 wire0 (send_command u) await_reply GetRgbCmd () l1 = Some ((SC_Ok, r, g, b, ()), l2) \<and>
    device l2 = (device l)\<lparr>g_rgb := [r, g, b]\<rparr> \<and> link_ok l2"
proof -
  have three: "length (g_rgb (device l)) = 3" using assms(1) by (simp add: link_ok_def dev_ok_def)
  then obtain x y z where old: "g_rgb (device l) = [x, y, z]" by (auto simp: numeral_3_eq_3 length_Suc_conv)
  obtain l1 where c1: "call payload0 wire0 (send_command u) await_reply SetRgbCmd (r, g, b, ()) l = Some ((SC_Ok, ()), l1)"
      "link_ok l1" "device l1 = (device l)\<lparr>g_rgb := [r, g, b]\<rparr>"
    using serial_calls(1) [OF _ assms(1) _ assms(2-4), of "(r, g, b, ())"] old
    by (auto simp: served codec_sel hw_set_led_pwm_def mem_write_def)
  then show ?thesis
    using serial_calls(3) [OF _ c1(2) _ assms(2-4), of "()"]
    by (auto simp: served codec_sel get_rgb_def mem_read_def)
qed

text \<open>The name set over the link, any string within the capacity, is the name read back,
  equal to it for \<open>operator==\<close>.\<close>

lemma name_session:
  assumes "link_ok l" "array_ok kMaxNameLen name"
    and "length u = kMaxPayload" "length payload0 = kMaxPayload" "length wire0 = kMaxPacket"
  shows "\<exists>l1 l2 name'. call payload0 wire0 (send_command u) await_reply SetNameCmd (name, ()) l = Some ((SC_Ok, ()), l1) \<and>
    call payload0 wire0 (send_command u) await_reply GetNameCmd () l1 = Some ((SC_Ok, name', ()), l2) \<and>
    array_eq name' name = Some True \<and> link_ok l2"
proof -
  have v: "valid name_fields (name, ())" using assms(2) by (simp add: codec_sel list_all_iff)
  let ?n = "array_of kMaxNameLen 0 (elems name)"
  have ok: "array_ok kMaxNameLen ?n" "elems ?n = elems name"
    using assms(2) array_of_ok [of "elems name" kMaxNameLen 0] by (simp_all add: array_ok_def elems_def)
  obtain l1 where c1: "call payload0 wire0 (send_command u) await_reply SetNameCmd (name, ()) l = Some ((SC_Ok, ()), l1)"
      "link_ok l1" "g_name (device l1) = ?n"
    using serial_calls(5) [OF _ assms(1) v assms(3-5)]
    by (auto simp: served codec_sel)
  have "array_eq ?n name = Some True" using array_eq_elems [OF ok(1) assms(2)] ok(2) by simp
  then show ?thesis
    using serial_calls(6) [OF _ c1(2) _ assms(3-5), of "()"] c1 ok
    by (auto simp: served codec_sel get_name_def)
qed

text \<open>Reading the ADC over the link: a channel the device has gives its sample, any other
  the status \<open>InvalidChannel\<close> and zero; a block holds four samples of consecutive channels,
  wrapping around. The device state is unchanged.\<close>

lemma adc_session:
  assumes "link_ok l" "length u = kMaxPayload" "length payload0 = kMaxPayload" "length wire0 = kMaxPacket"
  shows "\<exists>l1 l2. call payload0 wire0 (send_command u) await_reply ReadAdcCmd (ch, ()) l
      = Some (if ch < 4 then (SC_Ok, of_nat (512 + 64 * unat ch), ()) else (InvalidChannel, 0, ()), l1) \<and>
    call payload0 wire0 (send_command u) await_reply ReadBlockCmd (ch, ()) l1
      = Some ((SC_Ok, array_of kBlockLen 0
          (map (\<lambda>k. of_nat (512 + 64 * ((unat ch + k) mod 4))) [0..<4]), ()), l2) \<and>
    device l2 = device l \<and> link_ok l2"
proof -
  obtain l1 where c1: "call payload0 wire0 (send_command u) await_reply ReadAdcCmd (ch, ()) l
      = Some (if ch < 4 then (SC_Ok, of_nat (512 + 64 * unat ch), ()) else (InvalidChannel, 0, ()), l1)"
      "link_ok l1" "device l1 = device l"
    using serial_calls(2) [OF _ assms(1) _ assms(2-4), of "(ch, ())"]
    by (auto simp: served codec_sel hw_read_adc_def kAdcChannelCount_def InvalidChannel_def status_codes
        mult.commute not_less split: if_splits)
  have "elems (array_of kBlockLen 0 (adc_block ch)) = adc_block ch"
    by (simp add: array_of_ok kBlockLen_def adc_block_def)
  then have block: "canon block_fields (array_of kBlockLen 0 (adc_block ch), ())
      = (array_of kBlockLen 0 (adc_block ch), ())"
    by (simp add: codec_sel)
  have samples: "adc_block ch = map (\<lambda>k. of_nat (512 + 64 * ((unat ch + k) mod 4))) [0..<4]"
    by (simp add: adc_block_def hw_read_adc_def unat_of_nat_byte mult.commute)
  show ?thesis unfolding samples [symmetric]
    using c1 serial_calls(7) [OF _ c1(2) _ assms(2-4), of "(ch, ())"] block
    by (auto simp: served read_block_result codec_sel simp del: read_block.simps)
qed

end
