(* ===== verification/HostApp.thy ===== *)
theory HostApp
  imports DeviceApp
begin

text \<open>
  The demonstration of \<open>src/examples/rgb_led_adc/main.cpp\<close>: what \<open>main\<close> prints. Every block of
  \<open>main\<close> is a definition that appends its text to the output and hands the link on. The
  uninitialised local arrays of the calls are the parameter \<open>g\<close>, one triple of arrays per call.
  \<open>printf\<close>'s conversions are written out: \<open>%u\<close> is \<open>dec\<close>, \<open>%.*s\<close> prints up to the precision and
  stops at a zero, \<open>%.1f\<close> of an integer number of tenths is its decimal notation (the quotient
  of two small integers is too close to it for any other rounding).
\<close>

section \<open>Printing\<close>

fun dec :: "nat \<Rightarrow> string" where
  "dec n = (if n < 10 then [char_of (48 + n)] else dec (n div 10) @ [char_of (48 + n mod 10)])"

declare dec.simps [simp del]

lemma digits [simp]:
  "char_of (48 :: nat) = CHR ''0''"
  "char_of (49 :: nat) = CHR ''1''"
  "char_of (50 :: nat) = CHR ''2''"
  "char_of (51 :: nat) = CHR ''3''"
  "char_of (52 :: nat) = CHR ''4''"
  "char_of (53 :: nat) = CHR ''5''"
  "char_of (54 :: nat) = CHR ''6''"
  "char_of (55 :: nat) = CHR ''7''"
  "char_of (56 :: nat) = CHR ''8''"
  "char_of (57 :: nat) = CHR ''9''"
  by code_simp+

definition dec_word :: "'a::len word \<Rightarrow> string" where
  "dec_word w = dec (unat w)"

definition tenths :: "int \<Rightarrow> string" where
  "tenths t = (if t < 0 then ''-'' else '''') @ dec (nat (\<bar>t\<bar> div 10)) @ ''.'' @ dec (nat (\<bar>t\<bar> mod 10))"

definition nl :: string where "nl = [CHR 0x0A]"
definition quote :: string where "quote = [CHR 0x22]"

definition text_of :: "byte list \<Rightarrow> string" where
  "text_of bs = map (\<lambda>b. char_of (unat b)) (takeWhile (\<lambda>b. b \<noteq> 0) bs)"

definition c_string :: "string \<Rightarrow> buf" where
  "c_string s = map (\<lambda>c. of_nat (of_char c)) s @ [0]"

fun on_telemetry :: "(string, 16 word \<times> int \<times> unit) StreamHandler" where
  "on_telemetry counter (adc0, temp_c10, u) out =
     out @ ''  telemetry #'' @ dec_word counter @ '': adc0='' @ dec_word adc0 @ '', temp='' @ tenths temp_c10 @ '' C'' @ nl"

section \<open>The blocks of \<open>main\<close>\<close>

type_synonym garbage = "nat \<Rightarrow> buf \<times> buf \<times> buf"

definition host_call :: "garbage \<Rightarrow> nat \<Rightarrow> ('a, 'r) CommandDef \<Rightarrow> 'a \<Rightarrow> SerialLink \<Rightarrow> ((StatusCode \<times> 'r) \<times> SerialLink) option" where
  "host_call g k d a lnk = (case g k of (u, payload0, wire0) \<Rightarrow> call payload0 wire0 (send_command u) await_reply d a lnk)"

definition main_set_rgb :: "garbage \<Rightarrow> string \<Rightarrow> SerialLink \<Rightarrow> (string \<times> SerialLink) option" where
  "main_set_rgb g out lnk =
     do {
       ((st, _), lnk) \<leftarrow> host_call g 0 SetRgbCmd (255, 128, 0, ()) lnk;
       Some (out @ ''set_rgb(255,128,0)  -> '' @ status_name st @ nl, lnk)
     }"

definition main_get_rgb :: "garbage \<Rightarrow> string \<Rightarrow> SerialLink \<Rightarrow> (string \<times> SerialLink) option" where
  "main_get_rgb g out lnk =
     do {
       ((st, r, gr, b, _), lnk) \<leftarrow> host_call g 1 GetRgbCmd () lnk;
       Some (out @ ''get_rgb()           -> '' @ status_name st @ ''  rgb=('' @ dec_word r @ '','' @ dec_word gr @ '','' @ dec_word b @ '')'' @ nl, lnk)
     }"

function main_read_adc :: "garbage \<Rightarrow> byte \<Rightarrow> string \<Rightarrow> SerialLink \<Rightarrow> (string \<times> SerialLink) option" where
  "main_read_adc g ch out lnk =
     (if ch < 5 then do {
        ((st, value, _), lnk) \<leftarrow> host_call g (2 + unat ch) ReadAdcCmd (ch, ()) lnk;
        main_read_adc g (ch + 1)
          (out @ ''read_adc('' @ dec_word ch @ '')         -> '' @ status_name st @ ''  value='' @ dec_word value @ nl) lnk
      } else Some (out, lnk))"
  by pat_completeness auto
termination by (relation "measure (\<lambda>(g, ch, out, lnk). 5 - unat ch)") (auto simp: unat_Suc_less [of _ 5] word_less_nat_alt)

declare main_read_adc.simps [simp del]

definition main_set_name :: "garbage \<Rightarrow> string \<Rightarrow> SerialLink \<Rightarrow> (string \<times> SerialLink) option" where
  "main_set_name g out lnk =
     do {
       name \<leftarrow> make_string kMaxNameLen (Some (c_string ''sensor-A''));
       ((st, _), lnk) \<leftarrow> host_call g 7 SetNameCmd (name, ()) lnk;
       Some (out @ ''set_name('' @ quote @ ''sensor-A'' @ quote @ '') -> '' @ status_name st @ nl, lnk)
     }"

text \<open>\<open>%.*s\<close> may read \<open>name.size()\<close> bytes of the array.\<close>

definition main_get_name :: "garbage \<Rightarrow> string \<Rightarrow> SerialLink \<Rightarrow> (string \<times> SerialLink) option" where
  "main_get_name g out lnk =
     do {
       ((st, name, _), lnk) \<leftarrow> host_call g 8 GetNameCmd () lnk;
       if length (idata name) < isize name then None
       else Some (out @ ''get_name()          -> '' @ status_name st @ ''  '' @ quote @ text_of (take (isize name) (idata name)) @ quote @ nl, lnk)
     }"

function print_block :: "16 word InlineArray \<Rightarrow> nat \<Rightarrow> string \<Rightarrow> string option" where
  "print_block block i out =
     (if i < isize block then do {
        x \<leftarrow> mem_read (idata block) i;
        print_block block (i + 1) (out @ (if i \<noteq> 0 then '', '' else '''') @ dec_word x)
      } else Some out)"
  by pat_completeness auto
termination by (relation "measure (\<lambda>(block, i, out). isize block - i)") auto

declare print_block.simps [simp del]

definition main_read_block :: "garbage \<Rightarrow> string \<Rightarrow> SerialLink \<Rightarrow> (string \<times> SerialLink) option" where
  "main_read_block g out lnk =
     do {
       ((st, block, _), lnk) \<leftarrow> host_call g 9 ReadBlockCmd (0, ()) lnk;
       out \<leftarrow> print_block block 0 (out @ ''read_block(0)       -> '' @ status_name st @ ''  ['');
       Some (out @ '']'' @ nl, lnk)
     }"

definition main_get_uptime :: "garbage \<Rightarrow> string \<Rightarrow> SerialLink \<Rightarrow> (string \<times> SerialLink) option" where
  "main_get_uptime g out lnk =
     do {
       ((st, ms, _), lnk) \<leftarrow> host_call g 10 GetUptimeCmd () lnk;
       Some (out @ ''get_uptime_ms()     -> '' @ status_name st @ ''  '' @ dec_word ms @ '' ms'' @ nl, lnk)
     }"

function main_telemetry :: "garbage \<Rightarrow> 32 word \<Rightarrow> string \<Rightarrow> string option" where
  "main_telemetry g seq out =
     (if seq < 3 then do {
        (len, wire) \<leftarrow> (case g (11 + unat seq) of (u, payload0, wire0) \<Rightarrow> device_emit_telemetry u seq wire0 kMaxPacket);
        n \<leftarrow> size_sub len 1;
        ((st, crc), frame) \<leftarrow> decode_region wire n Frame_init;
        (ok, out) \<leftarrow> (if st = Frame_Ok then dispatch_stream_array [stream TelemetryStream on_telemetry] frame out
                      else Some (False, out));
        main_telemetry g (seq + 1) out
      } else Some out)"
  by pat_completeness auto
termination by (relation "measure (\<lambda>(g, seq, out). 3 - unat seq)") (auto simp: unat_Suc_less [of _ 3] word_less_nat_alt)

declare main_telemetry.simps [simp del]

text \<open>What \<open>main\<close> prints: \<open>rw\<close> is what the buffer of its new link holds, \<open>dev\<close> the state of the firmware.\<close>

definition main :: "garbage \<Rightarrow> buf \<Rightarrow> Device \<Rightarrow> string option" where
  "main g rw dev =
     do {
       let lnk = \<lparr>replyWire = rw, replyLen = 0, device = dev\<rparr>;
       let out = ''EUP example: host driving a device over a (stubbed) link'' @ nl @ nl;
       (out, lnk) \<leftarrow> main_set_rgb g out lnk;
       (out, lnk) \<leftarrow> main_get_rgb g out lnk;
       (out, lnk) \<leftarrow> main_read_adc g 0 out lnk;
       (out, lnk) \<leftarrow> main_set_name g out lnk;
       (out, lnk) \<leftarrow> main_get_name g out lnk;
       (out, lnk) \<leftarrow> main_read_block g out lnk;
       (out, lnk) \<leftarrow> main_get_uptime g out lnk;
       main_telemetry g 0 (out @ nl @ ''-- telemetry stream (device push, unsolicited) --'' @ nl)
     }"

section \<open>What the blocks print\<close>

definition garbage_ok :: "garbage \<Rightarrow> bool" where
  "garbage_ok g \<longleftrightarrow> (\<forall>k. case g k of (u, payload0, wire0) \<Rightarrow>
     length u = kMaxPayload \<and> length payload0 = kMaxPayload \<and> length wire0 = kMaxPacket)"

lemma garbage_okE:
  assumes "garbage_ok g"
  obtains u p w where "g k = (u, p, w)" "length u = kMaxPayload" "length p = kMaxPayload" "length w = kMaxPacket"
  using assms unfolding garbage_ok_def by (cases "g k") (auto dest: spec [of _ k])

lemma host_call_runs:
  assumes "garbage_ok g" "handler_contract d sa sr fn dev_ok" "map_of kServers (def_opcode d) = Some (answer sa sr fn)"
    and "link_ok l" "valid sa a"
  shows "\<exists>c r st' l'. fn (canon sa a) (device l) = Some ((c, r), st') \<and>
    host_call g k d a l = Some ((c, if c = SC_Ok then canon sr r else tuple_init (RetsTuple d)), l') \<and>
    link_ok l' \<and> device l' = st'"
proof -
  obtain u p w where g: "g k = (u, p, w)" "length u = kMaxPayload" "length p = kMaxPayload" "length w = kMaxPacket"
    using garbage_okE [OF assms(1)] by blast
  show ?thesis using serial_call [OF assms(2-5) g(2-4)] g(1) by (simp add: host_call_def)
qed

lemma print_block_all:
  "\<lbrakk>array_ok N b; i \<le> isize b\<rbrakk> \<Longrightarrow>
   print_block b i out = Some (out @ concat (map (\<lambda>k. (if k \<noteq> 0 then '', '' else '''') @ dec_word (idata b ! k)) [i..<isize b]))"
proof (induction "isize b - i" arbitrary: i out)
  case 0
  then show ?case by (subst print_block.simps) simp
next
  case (Suc k)
  then have i: "i < isize b" by simp
  moreover have "isize b \<le> length (idata b)" using Suc.prems(1) by (simp add: array_ok_def)
  ultimately have j: "i < length (idata b)" by simp
  from i have u: "[i..<isize b] = i # [Suc i..<isize b]" by (simp add: upt_conv_Cons)
  have IH: "print_block b (i + 1) out' = Some (out' @ concat (map (\<lambda>k. (if k \<noteq> 0 then '', '' else [])
      @ dec_word (idata b ! k)) [Suc i..<isize b]))" for out'
    using Suc.hyps(1) [of "Suc i" out'] Suc.hyps(2) Suc.prems i by simp
  show ?case using i mem_read_Some [OF j] IH u by (subst print_block.simps) simp
qed

lemma main_set_rgb_prints:
  assumes "garbage_ok g" "link_ok l"
  shows "\<exists>l'. main_set_rgb g out l = Some (out @ ''set_rgb(255,128,0)  -> Ok'' @ nl, l') \<and> link_ok l' \<and>
    device l' = (device l)\<lparr>g_rgb := [255, 128, 0]\<rparr>"
proof -
  obtain x y z where "g_rgb (device l) = [x, y, z]"
    using assms(2) by (auto simp: link_ok_def dev_ok_def numeral_3_eq_3 length_Suc_conv)
  then show ?thesis
    using host_call_runs [OF assms(1) set_rgb.handler_contract_axioms _ assms(2), of "(255, 128, 0, ())" 0]
    by (auto simp: main_set_rgb_def served codec_sel hw_set_led_pwm_def mem_write_def status_name_def)
qed

lemma main_get_rgb_prints:
  assumes "garbage_ok g" "link_ok l" "g_rgb (device l) = [255, 128, 0]"
  shows "\<exists>l'. main_get_rgb g out l = Some (out @ ''get_rgb()           -> Ok  rgb=(255,128,0)'' @ nl, l') \<and>
    link_ok l' \<and> device l' = device l"
proof -
  have d: "dec_word (255 :: byte) = ''255''" "dec_word (128 :: byte) = ''128''" "dec_word (0 :: byte) = ''0''"
    by (simp_all add: dec_word_def dec.simps)
  show ?thesis
    using host_call_runs [OF assms(1) get_rgb.handler_contract_axioms _ assms(2), of "()" 1] assms(3)
    by (auto simp: main_get_rgb_def served codec_sel get_rgb_def mem_read_def status_name_def d tnil_spec_def)
qed

definition adc_line :: "nat \<Rightarrow> string" where
  "adc_line ch = ''read_adc('' @ dec ch @ '')         -> '' @ (if ch < 4 then ''Ok'' else ''InvalidChannel'') @
     ''  value='' @ dec (if ch < 4 then 512 + 64 * ch else 0) @ nl"

lemma main_read_adc_prints:
  assumes "garbage_ok g" "link_ok l" "unat ch \<le> 5"
  shows "\<exists>l'. main_read_adc g ch out l = Some (out @ concat (map adc_line [unat ch..<5]), l') \<and>
    link_ok l' \<and> device l' = device l"
  using assms(2,3)
proof (induction "5 - unat ch" arbitrary: ch out l)
  case 0
  then show ?case by (subst main_read_adc.simps) (simp add: word_less_nat_alt)
next
  case (Suc k)
  then have ch: "ch < 5" by (simp add: word_less_nat_alt)
  then have next': "unat (ch + 1) = Suc (unat ch)" "[unat ch..<5] = unat ch # [Suc (unat ch)..<5]"
    using unat_Suc_less [OF ch] by (simp_all add: word_less_nat_alt upt_conv_Cons)
  obtain l1 where c: "host_call g (2 + unat ch) ReadAdcCmd (ch, ()) l =
      Some ((if ch < 4 then (SC_Ok, of_nat (512 + 64 * unat ch), ()) else (InvalidChannel, 0, ())), l1)"
      "link_ok l1" "device l1 = device l"
    using host_call_runs [OF assms(1) read_adc.handler_contract_axioms _ Suc.prems(1), of "(ch, ())" "2 + unat ch"]
    by (auto simp: served codec_sel hw_read_adc_def kAdcChannelCount_def InvalidChannel_def status_codes
        mult.commute not_less split: if_splits)
  let ?out = "out @ adc_line (unat ch)"
  have k: "k = 5 - unat (ch + 1)" and le: "unat (ch + 1) \<le> 5"
    using Suc.hyps(2) next'(1) ch by (simp_all add: word_less_nat_alt)
  obtain l2 where r: "main_read_adc g (ch + 1) ?out l1 = Some (?out @ concat (map adc_line [unat (ch + 1)..<5]), l2)"
      "link_ok l2" "device l2 = device l1"
    using Suc.hyps(1) [OF k c(2) le, of ?out] by blast
  have v: "unat (512 + 64 * ucast ch :: 16 word) = 512 + 64 * unat ch"
  proof -
    have "unat (of_nat (512 + 64 * unat ch) :: 16 word) = 512 + 64 * unat ch"
      using ch unfolding unat_of_nat by (simp add: word_less_nat_alt)
    then show ?thesis by simp
  qed
  have "main_read_adc g ch out l = main_read_adc g (ch + 1) ?out l1"
    using ch c(1) v by (subst main_read_adc.simps)
      (auto simp: adc_line_def dec_word_def status_name_def status_codes InvalidChannel_def word_less_nat_alt)
  then show ?case using r c(3) next' by simp
qed

definition name_bytes :: "byte list" where
  "name_bytes = [0x73, 0x65, 0x6E, 0x73, 0x6F, 0x72, 0x2D, 0x41]"

lemma name_text: "c_string ''sensor-A'' = name_bytes @ [0]" "text_of name_bytes = ''sensor-A''"
  by code_simp+

lemma main_set_name_prints:
  assumes "garbage_ok g" "link_ok l"
  shows "\<exists>l'. main_set_name g out l = Some (out @ ''set_name('' @ quote @ ''sensor-A'' @ quote @ '') -> Ok'' @ nl, l') \<and>
    link_ok l' \<and> device l' = (device l)\<lparr>g_name := array_of kMaxNameLen 0 name_bytes\<rparr>"
proof -
  have name: "make_string kMaxNameLen (Some (c_string ''sensor-A'')) = Some (array_of kMaxNameLen 0 name_bytes)"
    using make_string_loop_elems [of name_bytes 0 kMaxNameLen "[]"] 
    by (simp add: name_text(1) make_string_def Let_def InlineArray_init_def array_of_def)
      (simp add: name_bytes_def kMaxNameLen_def)
  have v: "array_ok kMaxNameLen (array_of kMaxNameLen 0 name_bytes)" "elems (array_of kMaxNameLen 0 name_bytes) = name_bytes"
    using array_of_ok [of name_bytes kMaxNameLen 0] by (simp_all add: name_bytes_def kMaxNameLen_def)
  then show ?thesis
    using host_call_runs [OF assms(1) set_name.handler_contract_axioms _ assms(2), of "(array_of kMaxNameLen 0 name_bytes, ())" 7] name
    by (auto simp: main_set_name_def served codec_sel status_name_def list_all_iff)
qed

lemma main_get_name_prints:
  assumes "garbage_ok g" "link_ok l" "g_name (device l) = array_of kMaxNameLen 0 name_bytes"
  shows "\<exists>l'. main_get_name g out l = Some (out @ ''get_name()          -> Ok  '' @ quote @ ''sensor-A'' @ quote @ nl, l') \<and>
    link_ok l' \<and> device l' = device l"
proof -
  have v: "elems (array_of kMaxNameLen 0 name_bytes) = name_bytes"
    "idata (array_of kMaxNameLen 0 name_bytes) = name_bytes @ replicate 8 0" "isize (array_of kMaxNameLen 0 name_bytes) = 8"
    using array_of_ok [of name_bytes kMaxNameLen 0] by (simp_all add: name_bytes_def kMaxNameLen_def array_of_def)
  have "take 8 (name_bytes @ replicate 8 0) = name_bytes" "length name_bytes = 8" by (simp_all add: name_bytes_def)
  then show ?thesis
    using host_call_runs [OF assms(1) get_name.handler_contract_axioms _ assms(2), of "()" 8] assms(3) v name_text(2)
    by (auto simp: main_get_name_def served codec_sel get_name_def status_name_def tnil_spec_def)
qed

lemma main_read_block_prints:
  assumes "garbage_ok g" "link_ok l"
  shows "\<exists>l'. main_read_block g out l = Some (out @ ''read_block(0)       -> Ok  [512, 576, 640, 704]'' @ nl, l') \<and>
    link_ok l' \<and> device l' = device l"
proof -
  let ?b = "array_of kBlockLen 0 (adc_block 0)"
  have b: "adc_block 0 = [512, 576, 640, 704]"
    by code_simp
  have ok: "array_ok kBlockLen ?b" "elems ?b = adc_block 0" "isize ?b = 4" "idata ?b = [512, 576, 640, 704]"
    using array_of_ok [of "adc_block 0" kBlockLen 0] by (simp_all add: b kBlockLen_def array_of_def)
  obtain l' where c: "host_call g 9 ReadBlockCmd (0, ()) l = Some ((SC_Ok, ?b, ()), l')" "link_ok l'" "device l' = device l"
    using host_call_runs [OF assms(1) read_block.handler_contract_axioms _ assms(2), of "(0, ())" 9] ok(2)
    by (auto simp: served codec_sel read_block_result simp del: read_block.simps)
  have up: "[0..<4] = [0, 1, 2, 3]" by code_simp
  have "dec_word (512 :: 16 word) = ''512''" "dec_word (576 :: 16 word) = ''576''"
    "dec_word (640 :: 16 word) = ''640''" "dec_word (704 :: 16 word) = ''704''"
    by (simp_all add: dec_word_def dec.simps)
  then have "print_block ?b 0 o' = Some (o' @ ''512, 576, 640, 704'')" for o'
    using print_block_all [OF ok(1), of 0 o'] unfolding ok(3,4) up by simp
  then show ?thesis using c by (simp add: main_read_block_def status_name_def)
qed

lemma main_get_uptime_prints:
  assumes "garbage_ok g" "link_ok l"
  shows "\<exists>l'. main_get_uptime g out l = Some (out @ ''get_uptime_ms()     -> Ok  '' @ dec_word (ticks (device l) + 5) @ '' ms'' @ nl, l') \<and>
    link_ok l' \<and> device l' = (device l)\<lparr>ticks := ticks (device l) + 5\<rparr>"
  using host_call_runs [OF assms(1) get_uptime.handler_contract_axioms _ assms(2), of "()" 10]
  by (auto simp: main_get_uptime_def served codec_sel get_uptime_ms_def hw_millis_def status_name_def tnil_spec_def)

definition telemetry_line :: "nat \<Rightarrow> string" where
  "telemetry_line k = ''  telemetry #'' @ dec k @ '': adc0=512, temp='' @ tenths (230 + 5 * int k) @ '' C'' @ nl"

lemma main_telemetry_prints:
  assumes "garbage_ok g" "unat seq \<le> 3"
  shows "main_telemetry g seq out = Some (out @ concat (map telemetry_line [unat seq..<3]))"
  using assms(2)
proof (induction "3 - unat seq" arbitrary: seq out)
  case 0
  then show ?case by (subst main_telemetry.simps) (simp add: word_less_nat_alt)
next
  case (Suc k)
  then have lt: "seq < 3" "unat seq < 3" by (simp_all add: word_less_nat_alt)
  have next': "unat (seq + 1) = Suc (unat seq)" "[unat seq..<3] = unat seq # [Suc (unat seq)..<3]"
    using unat_Suc_less [OF lt(1)] lt(2) by (simp_all add: upt_conv_Cons)
  obtain u p w where g: "g (11 + unat seq) = (u, p, w)" "length u = kMaxPayload" "length p = kMaxPayload" "length w = kMaxPacket"
    using garbage_okE [OF assms(1)] by blast
  obtain n wire crc f where t: "device_emit_telemetry u seq w kMaxPacket = Some (n, wire)" "0 < n"
      "decode_region wire (n - 1) Frame_init = Some ((Frame_Ok, crc), f)"
      "dispatch_stream_array [stream TelemetryStream on_telemetry] f out =
        Some (True, on_telemetry seq (512, sint (ucast (230 + seq * 5) :: 16 word), ()) out)"
    using telemetry_reaches [OF g(2), of kMaxPacket w seq on_telemetry out] g(4) by auto
  have temp: "sint (ucast (230 + seq * 5) :: 16 word) = 230 + 5 * int (unat seq)"
  proof -
    have "unat seq = 0 \<or> unat seq = 1 \<or> unat seq = 2" using lt(2) by linarith
    then have "seq = 0 \<or> seq = 1 \<or> seq = 2" by (auto simp: word_unat_eq_iff)
    then show ?thesis by auto
  qed
  have "on_telemetry seq (512, sint (ucast (230 + seq * 5) :: 16 word), ()) out = out @ telemetry_line (unat seq)"
    unfolding temp by (simp add: telemetry_line_def dec_word_def dec.simps [of 512] dec.simps [of 51] dec.simps [of 5])
  then have "main_telemetry g seq out = main_telemetry g (seq + 1) (out @ telemetry_line (unat seq))"
    using lt(1) g(1) t by (subst main_telemetry.simps) simp
  also have "\<dots> = Some ((out @ telemetry_line (unat seq)) @ concat (map telemetry_line [unat (seq + 1)..<3]))"
    using Suc.hyps(2) next'(1) lt(2) by (intro Suc.hyps(1)) simp_all
  finally show ?case using next' by simp
qed

lemma adc_lines: "concat (map adc_line [0..<5]) =
    ''read_adc(0)         -> Ok  value=512'' @ nl @ ''read_adc(1)         -> Ok  value=576'' @ nl @
    ''read_adc(2)         -> Ok  value=640'' @ nl @ ''read_adc(3)         -> Ok  value=704'' @ nl @
    ''read_adc(4)         -> InvalidChannel  value=0'' @ nl"
proof -
  have up: "[0..<5] = [0, 1, 2, 3, 4]" by code_simp
  show ?thesis unfolding up by (simp add: adc_line_def dec.simps)
qed

lemma telemetry_lines: "concat (map telemetry_line [0..<3]) =
    ''  telemetry #0: adc0=512, temp=23.0 C'' @ nl @ ''  telemetry #1: adc0=512, temp=23.5 C'' @ nl @
    ''  telemetry #2: adc0=512, temp=24.0 C'' @ nl"
proof -
  have up: "[0..<3] = [0, 1, 2]" by code_simp
  show ?thesis unfolding up by (simp add: telemetry_line_def tenths_def dec.simps)
qed

section \<open>Properties\<close>

text \<open>The output that \<open>src/examples/rgb_led_adc/README.md\<close> documents.\<close>

definition documented_output :: string where
  "documented_output =
     ''EUP example: host driving a device over a (stubbed) link'' @ nl @ nl @
     ''set_rgb(255,128,0)  -> Ok'' @ nl @
     ''get_rgb()           -> Ok  rgb=(255,128,0)'' @ nl @
     ''read_adc(0)         -> Ok  value=512'' @ nl @
     ''read_adc(1)         -> Ok  value=576'' @ nl @
     ''read_adc(2)         -> Ok  value=640'' @ nl @
     ''read_adc(3)         -> Ok  value=704'' @ nl @
     ''read_adc(4)         -> InvalidChannel  value=0'' @ nl @
     ''set_name('' @ quote @ ''sensor-A'' @ quote @ '') -> Ok'' @ nl @
     ''get_name()          -> Ok  '' @ quote @ ''sensor-A'' @ quote @ nl @
     ''read_block(0)       -> Ok  [512, 576, 640, 704]'' @ nl @
     ''get_uptime_ms()     -> Ok  5 ms'' @ nl @ nl @
     ''-- telemetry stream (device push, unsolicited) --'' @ nl @
     ''  telemetry #0: adc0=512, temp=23.0 C'' @ nl @
     ''  telemetry #1: adc0=512, temp=23.5 C'' @ nl @
     ''  telemetry #2: adc0=512, temp=24.0 C'' @ nl"

text \<open>C26: the program of the example prints what its README documents, to the letter: through codecs,
  frames, reader, dispatcher, handlers and streams, whatever the uninitialised arrays held, \<open>main\<close>
  runs to its end without touching memory it does not own.\<close>

theorem main_prints_documented_output:
  assumes "garbage_ok g" "length rw = kMaxPacket"
  shows "main g rw Device_boot = Some documented_output"
proof -
  let ?l = "\<lparr>replyWire = rw, replyLen = 0, device = Device_boot\<rparr>"
  have l: "link_ok ?l" using assms(2) by (simp add: link_ok_def)
  define o0 where "o0 = ''EUP example: host driving a device over a (stubbed) link'' @ nl @ nl"
  obtain l1 where 1: "main_set_rgb g o0 ?l = Some (o0 @ ''set_rgb(255,128,0)  -> Ok'' @ nl, l1)" "link_ok l1"
      "device l1 = Device_boot\<lparr>g_rgb := [255, 128, 0]\<rparr>"
    using main_set_rgb_prints [OF assms(1) l, of o0] by auto
  define o1 where "o1 = o0 @ ''set_rgb(255,128,0)  -> Ok'' @ nl"
  obtain l2 where 2: "main_get_rgb g o1 l1 = Some (o1 @ ''get_rgb()           -> Ok  rgb=(255,128,0)'' @ nl, l2)"
      "link_ok l2" "device l2 = device l1"
    using main_get_rgb_prints [OF assms(1) 1(2), of o1] 1(3) by auto
  define o2 where "o2 = o1 @ ''get_rgb()           -> Ok  rgb=(255,128,0)'' @ nl"
  obtain l3 where 3: "main_read_adc g 0 o2 l2 = Some (o2 @ concat (map adc_line [0..<5]), l3)" "link_ok l3" "device l3 = device l2"
    using main_read_adc_prints [OF assms(1) 2(2), of 0 o2] by auto
  define o3 where "o3 = o2 @ concat (map adc_line [0..<5])"
  obtain l4 where 4: "main_set_name g o3 l3 = Some (o3 @ ''set_name('' @ quote @ ''sensor-A'' @ quote @ '') -> Ok'' @ nl, l4)"
      "link_ok l4" "device l4 = (device l3)\<lparr>g_name := array_of kMaxNameLen 0 name_bytes\<rparr>"
    using main_set_name_prints [OF assms(1) 3(2), of o3] by auto
  define o4 where "o4 = o3 @ ''set_name('' @ quote @ ''sensor-A'' @ quote @ '') -> Ok'' @ nl"
  obtain l5 where 5: "main_get_name g o4 l4 = Some (o4 @ ''get_name()          -> Ok  '' @ quote @ ''sensor-A'' @ quote @ nl, l5)"
      "link_ok l5" "device l5 = device l4"
    using main_get_name_prints [OF assms(1) 4(2), of o4] 4(3) by auto
  define o5 where "o5 = o4 @ ''get_name()          -> Ok  '' @ quote @ ''sensor-A'' @ quote @ nl"
  obtain l6 where 6: "main_read_block g o5 l5 = Some (o5 @ ''read_block(0)       -> Ok  [512, 576, 640, 704]'' @ nl, l6)"
      "link_ok l6" "device l6 = device l5"
    using main_read_block_prints [OF assms(1) 5(2), of o5] by auto
  define o6 where "o6 = o5 @ ''read_block(0)       -> Ok  [512, 576, 640, 704]'' @ nl"
  have "ticks (device l6) = 0" using 1(3) 2(3) 3(3) 4(3) 5(3) 6(3) by (simp add: Device_boot_def)
  moreover have "dec_word (5 :: 32 word) = ''5''" by (simp add: dec_word_def dec.simps)
  ultimately obtain l7 where 7: "main_get_uptime g o6 l6 = Some (o6 @ ''get_uptime_ms()     -> Ok  5 ms'' @ nl, l7)"
    using main_get_uptime_prints [OF assms(1) 6(2), of o6] by auto
  define o7 where "o7 = o6 @ ''get_uptime_ms()     -> Ok  5 ms'' @ nl"
  have "main g rw Device_boot = main_telemetry g 0 (o7 @ nl @ ''-- telemetry stream (device push, unsolicited) --'' @ nl)"
    unfolding main_def Let_def
    using 1(1) 2(1) 3(1) 4(1) 5(1) 6(1) 7
    unfolding o0_def [symmetric] o1_def [symmetric] o2_def [symmetric] o3_def [symmetric] o4_def [symmetric]
      o5_def [symmetric] o6_def [symmetric] o7_def [symmetric] by simp
  then show ?thesis
    using main_telemetry_prints [OF assms(1), of 0]
    by (simp add: o0_def o1_def o2_def o3_def o4_def o5_def o6_def o7_def adc_lines telemetry_lines documented_output_def)
qed

theorem main_prints_documented_output_witness:
  "main (\<lambda>k. (replicate 250 0xAA, replicate 250 0xBB, replicate 256 0xCC)) (replicate 256 0xDD) Device_boot = Some documented_output"
  by (rule main_prints_documented_output) (simp_all add: garbage_ok_def frame_consts)

end
