(* ===== verification/CrcPoly.thy ===== *)
theory CrcPoly
  imports Crc16
begin

text \<open>
  What the checksum is: the remainder of the message polynomial by
  \<open>x^16 + x^12 + x^5 + 1\<close> over the field of two elements, the first 16 coefficients inverted
  (the seed \<open>0xFFFF\<close>), the message multiplied by \<open>x^16\<close>. \<open>poly_mod\<close> is schoolbook long
  division on lists of coefficients, highest first, and knows nothing of bytes, registers or
  shifts; the lemmas relate the shift register of \<open>src/src/crc16.cpp\<close> to it bit by bit.
\<close>

section \<open>Long division\<close>

fun poly_add :: "bool list \<Rightarrow> bool list \<Rightarrow> bool list" where
  "poly_add (x # xs) (y # ys) = (x \<noteq> y) # poly_add xs ys"
| "poly_add [] ys = ys"
| "poly_add xs [] = []"

text \<open>The generator without its leading coefficient.\<close>

definition generator :: "bool list" where
  "generator = map (\<lambda>i. i \<in> {12, 5, 0 :: nat}) (rev [0..<16])"

lemma length_poly_add [simp]: "length (poly_add xs ys) = length ys"
  by (induction xs ys rule: poly_add.induct) simp_all

function poly_mod :: "bool list \<Rightarrow> bool list" where
  "poly_mod m =
     (if length m \<le> 16 then m
      else if hd m then poly_mod (poly_add generator (tl m)) else poly_mod (tl m))"
  by pat_completeness auto
termination by (relation "measure length") auto

declare poly_mod.simps [simp del]

definition byte_bits :: "byte \<Rightarrow> bool list" where
  "byte_bits b = map (bit b) (rev [0..<8])"

definition message_bits :: "byte list \<Rightarrow> bool list" where
  "message_bits bs = concat (map byte_bits bs)"

definition register_bits :: "16 word \<Rightarrow> bool list" where
  "register_bits c = map (bit c) (rev [0..<16])"

section \<open>One bit of the register is one step of the division\<close>

lemma nth_poly_add:
  "i < length ys \<Longrightarrow> poly_add xs ys ! i = (if i < length xs then xs ! i \<noteq> ys ! i else ys ! i)"
  by (induction xs ys arbitrary: i rule: poly_add.induct) (auto simp: nth_Cons split: nat.splits)

lemma length_bits [simp]: "length (register_bits c) = 16" "length generator = 16" "length (byte_bits b) = 8"
  by (simp_all add: register_bits_def generator_def byte_bits_def)

lemma nth_register_bits: "i < 16 \<Longrightarrow> register_bits c ! i = bit c (15 - i)"
  by (simp add: register_bits_def rev_nth del: upt_Suc)

lemma nth_generator: "i < 16 \<Longrightarrow> generator ! i = (15 - i \<in> {12, 5, 0})"
  by (simp add: generator_def rev_nth del: upt_Suc)

definition top_bit :: "bool \<Rightarrow> 16 word" where
  "top_bit x = push_bit 15 (of_bool x)"

lemma bit_top_bit [simp]: "bit (top_bit x) n \<longleftrightarrow> n = 15 \<and> x"
  unfolding top_bit_def bit_push_bit_iff bit_of_bool_iff by auto

lemma division_step:
  assumes "16 \<le> length ys"
  shows "poly_mod (poly_add (register_bits s) (x # ys)) = poly_mod (poly_add (register_bits (crc16_bit (s XOR top_bit x))) ys)"
proof -
  obtain r rs where r: "register_bits s = r # rs" by (cases "register_bits s") (use length_bits(1) [of s] in auto)
  have len: "length rs = 15" using arg_cong [OF r, of length] by simp
  have rs: "r = bit s 15" "i < 15 \<Longrightarrow> rs ! i = bit s (14 - i)" for i
    using nth_register_bits [of 0 s] nth_register_bits [of "Suc i" s] r by auto
  let ?s = "s XOR top_bit x" and ?ys = "poly_add rs ys"
  have step: "poly_mod (poly_add (register_bits s) (x # ys)) =
      (if bit ?s 15 then poly_mod (poly_add generator ?ys) else poly_mod ?ys)"
    using assms r rs(1) by (subst poly_mod.simps) (auto simp: bit_xor_iff)
  have "poly_add (register_bits (crc16_bit ?s)) ys = (if bit ?s 15 then poly_add generator ?ys else ?ys)"
  proof (rule nth_equalityI)
    fix i assume "i < length (poly_add (register_bits (crc16_bit ?s)) ys)"
    then have i: "i < length ys" by simp
    have j: "15 - i - 1 = 14 - i" by simp
    show "poly_add (register_bits (crc16_bit ?s)) ys ! i = (if bit ?s 15 then poly_add generator ?ys else ?ys) ! i"
      using i len rs(2) [of i] assms
      by (auto simp: nth_poly_add nth_register_bits nth_generator bit_crc16_bit bit_xor_iff j)
  qed simp
  then show ?thesis using step by simp
qed

definition serial :: "16 word \<Rightarrow> bool list \<Rightarrow> 16 word" where
  "serial = foldl (\<lambda>s x. crc16_bit (s XOR top_bit x))"

lemma serial_simps [simp]:
  "serial s [] = s" "serial s (x # xs) = serial (crc16_bit (s XOR top_bit x)) xs"
  "serial s (xs @ ys) = serial (serial s xs) ys"
  by (simp_all add: serial_def)

lemma division_serial:
  "16 \<le> length ys \<Longrightarrow>
   poly_mod (poly_add (register_bits s) (xs @ ys)) = poly_mod (poly_add (register_bits (serial s xs)) ys)"
  by (induction xs arbitrary: s) (simp_all add: division_step)

section \<open>Eight bits at once\<close>

text \<open>The bits aligned to the top of the register.\<close>

fun aligned :: "nat \<Rightarrow> bool list \<Rightarrow> 16 word" where
  "aligned k [] = 0"
| "aligned k (x # xs) = push_bit (15 - k) (of_bool x) XOR aligned (Suc k) xs"

lemma crc16_bits_top: "k \<le> 15 \<Longrightarrow> crc16_bits k (push_bit (15 - k) (of_bool x)) = top_bit x"
  by (subst crc16_bits_shift) (auto simp: top_bit_def bit_simps push_bit_push_bit split: if_splits)

lemma serial_aligned:
  "k + length xs \<le> 16 \<Longrightarrow> serial (crc16_bits k s) xs = crc16_bits (k + length xs) (s XOR aligned k xs)"
proof (induction xs arbitrary: k s)
  case (Cons x xs)
  let ?x = "push_bit (15 - k) (of_bool x)"
  have "crc16_bits k s XOR top_bit x = crc16_bits k (s XOR ?x)"
    using Cons.prems crc16_bits_top [of k x] by (simp only: crc16_bits_xor) simp
  then have "crc16_bit (crc16_bits k s XOR top_bit x) = crc16_bits (Suc k) (s XOR ?x)"
    using crc16_bits_add [of 1 k "s XOR ?x"] by simp
  then show ?case using Cons.IH [of "Suc k" "s XOR ?x"] Cons.prems
    by (simp add: xor.assoc del: crc16_bits.simps(2))
qed simp

lemma bit_aligned:
  "k + length xs \<le> 16 \<Longrightarrow> bit (aligned k xs) n \<longleftrightarrow> n + k \<le> 15 \<and> 15 - n - k < length xs \<and> xs ! (15 - n - k)"
proof (induction xs arbitrary: k)
  case (Cons x xs)
  have IH: "bit (aligned (Suc k) xs) n \<longleftrightarrow> n + Suc k \<le> 15 \<and> 15 - n - Suc k < length xs \<and> xs ! (15 - n - Suc k)"
    using Cons by simp
  have hd: "bit (push_bit (15 - k) (of_bool x) :: 16 word) n \<longleftrightarrow> n + k = 15 \<and> x"
    using Cons.prems unfolding bit_push_bit_iff bit_of_bool_iff by auto
  show ?case
  proof (cases "n + k < 15")
    case True
    then have "15 - n - k = Suc (15 - n - Suc k)" by simp
    then show ?thesis using True IH hd by (simp add: bit_xor_iff)
  next
    case False
    then show ?thesis using IH hd by (cases "n + k = 15") (auto simp: bit_xor_iff)
  qed
qed simp

lemma crc16_byte_serial: "serial s (byte_bits b) = crc16_byte s b"
proof -
  have "aligned 0 (byte_bits b) = push_bit 8 (ucast b)"
    by (rule bit_word_eqI) (auto simp: bit_aligned byte_bits_def rev_nth bit_simps simp del: upt_Suc)
  then show ?thesis using serial_aligned [of 0 "byte_bits b" s] by (simp add: crc16_byte_def)
qed

lemma crc16_fold_serial: "serial s (message_bits bs) = crc16_fold s bs"
  by (induction bs arbitrary: s) (simp_all add: message_bits_def crc16_byte_serial)

lemma crc16_fold_division:
  "register_bits (crc16_fold s bs) = poly_mod (poly_add (register_bits s) (message_bits bs @ replicate 16 False))"
proof -
  have zeros: "poly_add (register_bits c) (replicate 16 False) = register_bits c" for c
    by (rule nth_equalityI) (simp_all add: nth_poly_add)
  show ?thesis
    using division_serial [of "replicate 16 False" s "message_bits bs"]
    by (simp add: zeros crc16_fold_serial poly_mod.simps [of "register_bits (crc16_fold s bs)"])
qed

section \<open>Properties\<close>

text \<open>C5: the checksum of the code is the mathematical one: the bits of \<open>crc16_ccitt\<close> are the
  remainder of the message, its first 16 coefficients inverted and followed by 16 zeros, by the
  generator polynomial, as long division computes it.\<close>

theorem crc16_is_polynomial_remainder:
  assumes "len \<le> length data"
  shows "\<exists>crc. crc16_ccitt data len = Some crc \<and>
    register_bits crc = poly_mod (poly_add (replicate 16 True) (message_bits (take len data) @ replicate 16 False))"
proof -
  have "register_bits crc16_ccitt_init = replicate 16 True"
    by (simp add: register_bits_def crc16_ccitt_init_def upt_rec numeral_eq_Suc)
  then show ?thesis
    using assms crc16_fold_division [of crc16_ccitt_init "take len data"] by (simp add: crc16_ccitt_fold)
qed

theorem crc16_is_polynomial_remainder_witness:
  "\<exists>crc. crc16_ccitt [0xDE, 0xAD, 0xBE] 2 = Some crc \<and>
    register_bits crc = poly_mod (poly_add (replicate 16 True) (message_bits (take 2 [0xDE, 0xAD, 0xBE]) @ replicate 16 False))"
  by (rule crc16_is_polynomial_remainder) simp

end
