(* ===== verification/TestProtocol.thy ===== *)
theory TestProtocol
  imports Reader
begin

text \<open>
  The tests of the framing layer, \<open>src/tests/test_protocol.cpp\<close>. A test case is the value
  \<open>Some True\<close> when it runs without a memory fault and all its checks hold. Local arrays without an
  initialiser hold \<open>junk\<close>. The two helpers that the test cases call on a few inputs are shown to
  pass on every input that fits; the other cases are evaluated.
\<close>

section \<open>Loops and arrays of the tests\<close>

definition stack_array :: "(nat \<Rightarrow> byte) \<Rightarrow> nat \<Rightarrow> buf" where
  "stack_array junk n = map junk [0..<n]"

lemma length_stack_array [simp]: "length (stack_array junk n) = n"
  by (simp add: stack_array_def)

primrec has_zero :: "buf \<Rightarrow> nat \<Rightarrow> bool option" where
  "has_zero b 0 = Some False"
| "has_zero b (Suc n) = do { h \<leftarrow> has_zero b n; x \<leftarrow> mem_read b n; Some (x = 0 \<or> h) }"

primrec memcmp_eq :: "buf \<Rightarrow> buf \<Rightarrow> nat \<Rightarrow> bool option" where
  "memcmp_eq a b 0 = Some True"
| "memcmp_eq a b (Suc n) = do { e \<leftarrow> memcmp_eq a b n; x \<leftarrow> mem_read a n; y \<leftarrow> mem_read b n; Some (e \<and> x = y) }"

lemma has_zero_take: "n \<le> length b \<Longrightarrow> has_zero b n = Some (0 \<in> set (take n b))"
  by (induction n) (auto simp: take_Suc_conv_app_nth)

lemma memcmp_eq_take: "\<lbrakk>n \<le> length a; n \<le> length b\<rbrakk> \<Longrightarrow> memcmp_eq a b n = Some (take n a = take n b)"
  by (induction n) (auto simp: take_Suc_conv_app_nth)

section \<open>The helpers\<close>

definition cobs_roundtrip_checks :: "byte list \<Rightarrow> bool option" where
  "cobs_roundtrip_checks data =
     do {
       let enc = replicate (cobs_max_encoded_size (length data) + 4) 0;
       ((encStatus, encLen), enc) \<leftarrow> cobs_encode data (length data) enc (length enc);
       hasZero \<leftarrow> has_zero enc encLen;
       let dec = replicate (length data + 4) 0;
       ((decStatus, decLen), dec) \<leftarrow> cobs_decode enc encLen dec (length dec);
       same \<leftarrow> memcmp_eq dec data (length data);
       Some (encStatus = Cobs_Ok \<and> \<not> hasZero \<and> decStatus = Cobs_Ok \<and> decLen = length data \<and> same)
     }"

definition frame_roundtrip_checks :: "(nat \<Rightarrow> byte) \<Rightarrow> MessageType \<Rightarrow> byte list \<Rightarrow> bool option" where
  "frame_roundtrip_checks junk type data =
     do {
       let wire = stack_array junk kMaxPacket;
       ((encStatus, encLen), wire) \<leftarrow>
         encode_frame type (if data = [] then None else Some data) (of_nat (length data)) wire kMaxPacket;
       lastAt \<leftarrow> size_sub encLen 1;
       lst \<leftarrow> mem_read wire lastAt;
       innerZero \<leftarrow> has_zero wire lastAt;
       ((decStatus, decCrc), f) \<leftarrow> decode_region wire lastAt Frame_init;
       same \<leftarrow> memcmp_eq (payload f) data (length data);
       Some (encStatus = Frame_Ok \<and> encLen \<le> kMaxPacket \<and> lst = kDelimiter \<and> \<not> innerZero \<and>
         decStatus = Frame_Ok \<and> ftype f = type \<and> unat (flength f) = length data \<and> same)
     }"

lemma cobs_roundtrip_passes: "cobs_roundtrip_checks data = Some True"
proof -
  let ?enc = "replicate (cobs_max_encoded_size (length data) + 4) (0 :: byte)" and ?dec = "replicate (length data + 4) (0 :: byte)"
  have fits: "length (cobs_encoding data) \<le> length ?enc" using length_cobs_encoding_le [of data] by simp
  have enc: "cobs_encode data (length data) ?enc (length ?enc) =
      Some ((Cobs_Ok, length (cobs_encoding data)), blit 0 (cobs_encoding data) ?enc)"
    using cobs_io.enc_ok [of "length data" data "length ?enc" ?enc] fits by simp
  moreover have code: "take (length (cobs_encoding data)) (blit 0 (cobs_encoding data) ?enc) = cobs_encoding data"
    by (simp add: blit_def)
  moreover have "length (cobs_encoding data) \<le> length (blit 0 (cobs_encoding data) ?enc)"
    using fits by (simp add: length_blit)
  moreover from this have "cobs_decode (blit 0 (cobs_encoding data) ?enc) (length (cobs_encoding data)) ?dec (length ?dec) =
      Some ((Cobs_Ok, length data), blit 0 data ?dec)"
    using cobs_io.dec_ok [of "length (cobs_encoding data)" _ "length ?dec" ?dec data] code
    by (simp add: cobs_io.uncode_code)
  ultimately show ?thesis
    by (simp add: cobs_roundtrip_checks_def has_zero_take memcmp_eq_take length_blit cobs_io.code_no_zero) (simp add: blit_def)
qed

lemma frame_roundtrip_passes:
  assumes "length data \<le> kMaxPayload"
  shows "frame_roundtrip_checks junk type data = Some True"
proof -
  let ?pl = "if data = [] then None else Some data" and ?len = "of_nat (length data) :: byte"
  let ?wire = "blit 0 (frame_wire type data) (stack_array junk kMaxPacket)"
  have n: "length data \<le> 250" using assms by (simp add: kMaxPayload_def)
  then have len: "unat ?len = length data" by (intro unat_of_nat_byte) simp
  have pl: "payload_valid ?pl ?len" "payload_bytes ?pl ?len = data"
    using len by (auto simp: payload_valid_def payload_bytes_def)
  have enc: "encode_frame type ?pl ?len (stack_array junk kMaxPacket) kMaxPacket = Some ((Frame_Ok, length data + 6), ?wire)"
    using encode_frame_Ok [OF _ pl(1), of kMaxPacket "stack_array junk kMaxPacket" type] n len pl(2) by (simp add: kMaxPacket_def)
  have w: "length ?wire = 256" "take (length data + 5) ?wire = cobs_encoding (frame_raw type data)"
    using n take_wire_region [OF n, of "stack_array junk kMaxPacket" type]
    by (simp_all add: length_blit length_frame_wire kMaxPacket_def)
  have lst: "?wire ! (length data + 5) = kDelimiter"
    using n by (simp add: blit_def frame_wire_def nth_append length_cobs_encoding_small)
  have dec: "decode_region ?wire (length data + 5) Frame_init
      = Some ((Frame_Ok, frame_crc type data), frame_store (frame_raw type data) Frame_init)"
    using decode_region_verdict [of "length data + 5" ?wire Frame_init] region_verdict_wire [OF n, of type] w n by simp
  define k where "k = length data + 5"
  obtain wire where wire: "encode_frame type ?pl ?len (stack_array junk kMaxPacket) kMaxPacket = Some ((Frame_Ok, length data + 6), wire)"
      "length wire = 256" "take k wire = cobs_encoding (frame_raw type data)" "wire ! k = kDelimiter"
      "decode_region wire k Frame_init = Some ((Frame_Ok, frame_crc type data), frame_store (frame_raw type data) Frame_init)"
    using enc w lst dec unfolding k_def by blast
  obtain f where f: "frame_store (frame_raw type data) Frame_init = f" "ftype f = type" "unat (flength f) = length data"
      "length (payload f) = 250" "take (length data) (payload f) = data"
    using frame_store_raw [OF n, of type Frame_init] len n by (simp add: Frame_init_def frame_consts length_blit) (simp add: blit_def)
  have k: "size_sub (length data + 6) 1 = Some k" "k < 256" using n by (simp_all add: size_sub_def k_def)
  have same: "memcmp_eq (payload f) data (length data) = Some True" using f(4,5) n by (simp add: memcmp_eq_take)
  have zero: "has_zero wire k = Some False"
    using wire(2,3) k(2) by (simp add: has_zero_take cobs_io.code_no_zero)
  show ?thesis using n unfolding frame_roundtrip_checks_def Let_def wire(1)
    by (simp add: wire(4,5) k(1) zero f(1-3) same mem_read_def wire(2) k(2) kMaxPacket_def del: size_sub_Some One_nat_def)
qed

section \<open>The cases\<close>

definition crc_check_value_test :: "bool option" where
  "crc_check_value_test = do {
     let inp = [0x31, 0x32, 0x33, 0x34, 0x35, 0x36, 0x37, 0x38, 0x39];
     crc \<leftarrow> crc16_ccitt inp (length inp);
     Some (crc = 0x29B1)
   }"

definition crc_incremental_test :: "bool option" where
  "crc_incremental_test = do {
     let inp = [0xDE, 0xAD, 0xBE, 0xEF, 0x00, 0x42];
     oneShot \<leftarrow> crc16_ccitt inp (length inp);
     inc \<leftarrow> crc16_ccitt_update crc16_ccitt_init inp 3;
     inc \<leftarrow> crc16_ccitt_update inc (drop 3 inp) (length inp - 3);
     Some (inc = oneShot)
   }"

text \<open>All the calls of a test case have to pass.\<close>

fun all_pass :: "bool option list \<Rightarrow> bool option" where
  "all_pass [] = Some True"
| "all_pass (t # ts) = do { a \<leftarrow> t; b \<leftarrow> all_pass ts; Some (a \<and> b) }"

lemma all_pass_iff: "all_pass ts = Some True \<longleftrightarrow> list_all (\<lambda>t. t = Some True) ts"
  by (induction ts) (auto split: bind_splits)

definition cobs_round_trips_test :: "bool option" where
  "cobs_round_trips_test = all_pass (map cobs_roundtrip_checks
     [[], [0], [1, 2, 3], [0, 0, 0], [0x11, 0, 0, 0x22, 0x33], replicate 254 0xAB, map of_nat [0..<254]])"

definition cobs_too_small_test :: "(nat \<Rightarrow> byte) \<Rightarrow> bool option" where
  "cobs_too_small_test junk = do {
     ((status, len), out) \<leftarrow> cobs_encode [1, 2, 3] 3 (stack_array junk 2) 2;
     Some (status = OutputTooSmall)
   }"

definition frame_round_trips_test :: "(nat \<Rightarrow> byte) \<Rightarrow> bool option" where
  "frame_round_trips_test junk = all_pass (map (\<lambda>(type, data). frame_roundtrip_checks junk type data)
     [(MT_Command, []), (MT_Command, [0x10, 0x20]), (MT_Reply, [0]), (MT_Stream, [0, 0, 0xFF]),
      (MT_Stream, map of_nat [0..<kMaxPayload])])"

definition frame_max_packet_test :: "(nat \<Rightarrow> byte) \<Rightarrow> bool option" where
  "frame_max_packet_test junk = do {
     ((status, len), wire) \<leftarrow>
       encode_frame MT_Stream (Some (replicate kMaxPayload 0xA5)) (of_nat kMaxPayload) (stack_array junk kMaxPacket) kMaxPacket;
     Some (status = Frame_Ok \<and> len = kMaxPacket)
   }"

definition frame_too_large_test :: "(nat \<Rightarrow> byte) \<Rightarrow> bool option" where
  "frame_too_large_test junk = do {
     ((status, len), wire) \<leftarrow>
       encode_frame MT_Stream (Some (replicate (kMaxPayload + 1) 0)) (of_nat (kMaxPayload + 1))
         (stack_array junk (kMaxPacket + 8)) (kMaxPacket + 8);
     Some (status = PayloadTooLarge)
   }"

text \<open>\<open>flip\<close> is what the test case exclusive-ors into the fourth byte of the packet; it then decodes from
  the second byte of the packet to its end, the delimiter included.\<close>

definition frame_corruption_checks :: "(nat \<Rightarrow> byte) \<Rightarrow> byte \<Rightarrow> bool option" where
  "frame_corruption_checks junk flip = do {
     ((encStatus, encLen), wire) \<leftarrow> encode_frame MT_Reply (Some [1, 2, 3, 4]) 4 (stack_array junk kMaxPacket) kMaxPacket;
     b \<leftarrow> mem_read wire 3;
     wire \<leftarrow> mem_write wire 3 (b XOR flip);
     len \<leftarrow> size_sub encLen 1;
     ((decStatus, decCrc), f) \<leftarrow> decode_region (drop 1 wire) len Frame_init;
     Some (encStatus = Frame_Ok \<and> (decStatus = CrcMismatch \<or> decStatus = LengthMismatch \<or> decStatus = CobsError))
   }"

section \<open>The reader\<close>

definition prefix_of :: "buf \<Rightarrow> nat \<Rightarrow> byte list option" where
  "prefix_of b n = (if n \<le> length b then Some (take n b) else None)"

fun reader_types :: "FrameReader \<Rightarrow> byte list \<Rightarrow> bool \<Rightarrow> MessageType list \<Rightarrow> (bool \<times> MessageType list) option" where
  "reader_types r [] ok got = Some (ok, got)"
| "reader_types r (b # s) ok got = do {
     (ev, r) \<leftarrow> push r b;
     reader_types r s (ok \<and> ev \<noteq> Event_Error) (if ev = FrameReady then got @ [ftype (frame r)] else got)
   }"

definition reader_interleaved_test :: "(nat \<Rightarrow> byte) \<Rightarrow> bool option" where
  "reader_interleaved_test junk = do {
     ((statusA, lenA), a) \<leftarrow> encode_frame MT_Command (Some [0xAA]) 1 (stack_array junk kMaxPacket) kMaxPacket;
     ((statusB, lenB), b) \<leftarrow> encode_frame MT_Stream (Some [0, 1, 2]) 3 (stack_array junk kMaxPacket) kMaxPacket;
     ((statusC, lenC), c) \<leftarrow> encode_frame MT_Reply None 0 (stack_array junk kMaxPacket) kMaxPacket;
     a \<leftarrow> prefix_of a lenA;
     b \<leftarrow> prefix_of b lenB;
     c \<leftarrow> prefix_of c lenC;
     (ok, got) \<leftarrow> reader_types FrameReader_init (a @ b @ c) True [];
     Some (statusA = Frame_Ok \<and> statusB = Frame_Ok \<and> statusC = Frame_Ok \<and> ok \<and> got = [MT_Command, MT_Stream, MT_Reply])
   }"

fun push_bytes :: "FrameReader \<Rightarrow> byte list \<Rightarrow> FrameReader option" where
  "push_bytes r [] = Some r"
| "push_bytes r (b # s) = do { (ev, r) \<leftarrow> push r b; push_bytes r s }"

fun resync_loop :: "FrameReader \<Rightarrow> byte list \<Rightarrow> bool \<Rightarrow> bool \<Rightarrow> bool option" where
  "resync_loop r [] ok sawFrame = Some (ok \<and> sawFrame)"
| "resync_loop r (b # s) ok sawFrame = do {
     (ev, r) \<leftarrow> push r b;
     if ev = FrameReady then do {
       p0 \<leftarrow> mem_read (payload (frame r)) 0;
       resync_loop r s (ok \<and> ftype (frame r) = MT_Reply \<and> flength (frame r) = 1 \<and> p0 = 0x42) True
     } else resync_loop r s ok sawFrame
   }"

definition reader_resync_test :: "(nat \<Rightarrow> byte) \<Rightarrow> bool option" where
  "reader_resync_test junk = do {
     ((encStatus, encLen), pkt) \<leftarrow> encode_frame MT_Reply (Some [0x42]) 1 (stack_array junk kMaxPacket) kMaxPacket;
     r \<leftarrow> push_bytes FrameReader_init [0x10, 0x20, 0x30];
     (ev, r) \<leftarrow> push r 0;
     bytes \<leftarrow> prefix_of pkt encLen;
     done \<leftarrow> resync_loop r bytes True False;
     Some (encStatus = Frame_Ok \<and> ev = Event_Error \<and> done)
   }"

section \<open>They pass\<close>

lemma encode_small:
  assumes "payload_valid pl len" "unat len \<le> 250"
  shows "encode_frame t pl len (stack_array junk kMaxPacket) kMaxPacket =
      Some ((Frame_Ok, unat len + 6), blit 0 (frame_wire t (payload_bytes pl len)) (stack_array junk kMaxPacket))"
    "prefix_of (blit 0 (frame_wire t (payload_bytes pl len)) (stack_array junk kMaxPacket)) (unat len + 6) =
      Some (frame_wire t (payload_bytes pl len))"
proof -
  show "encode_frame t pl len (stack_array junk kMaxPacket) kMaxPacket =
      Some ((Frame_Ok, unat len + 6), blit 0 (frame_wire t (payload_bytes pl len)) (stack_array junk kMaxPacket))"
    using encode_frame_Ok [OF assms(2,1), of kMaxPacket] assms(2) by (simp add: kMaxPacket_def)
  have "length (frame_wire t (payload_bytes pl len)) = unat len + 6"
    using assms by (simp add: length_frame_wire)
  then show "prefix_of (blit 0 (frame_wire t (payload_bytes pl len)) (stack_array junk kMaxPacket)) (unat len + 6) =
      Some (frame_wire t (payload_bytes pl len))"
    using assms(2) by (simp add: prefix_of_def blit_def kMaxPacket_def)
qed

text \<open>A packet through the wire, and the frame that comes out.\<close>

definition frame_of :: "MessageType \<Rightarrow> byte list \<Rightarrow> Frame" where
  "frame_of t ps = \<lparr>ftype = t, flength = of_nat (length ps), payload = blit 0 ps (replicate kMaxPayload 0)\<rparr>"

lemma encode_decode:
  assumes "payload_valid pl (of_nat (length ps))" "payload_bytes pl (of_nat (length ps)) = ps" "length ps \<le> 250"
  shows "\<exists>wire crc. encode_frame t pl (of_nat (length ps)) (stack_array junk kMaxPacket) kMaxPacket
      = Some ((Frame_Ok, length ps + 6), wire) \<and>
    decode_region wire (length ps + 5) Frame_init = Some ((Frame_Ok, crc), frame_of t ps)"
proof -
  let ?stack = "stack_array junk kMaxPacket"
  let ?wire = "blit 0 (frame_wire t ps) ?stack"
  have un: "unat (of_nat (length ps) :: byte) = length ps" using assms(3) by (intro unat_of_nat_byte) simp
  have "encode_frame t pl (of_nat (length ps)) ?stack kMaxPacket = Some ((Frame_Ok, length ps + 6), ?wire)"
    using encode_frame_Ok [OF _ assms(1), of kMaxPacket ?stack t] assms(2,3) un by (simp add: kMaxPacket_def)
  moreover have "length ?wire = 256" using assms(3) by (simp add: length_blit length_frame_wire kMaxPacket_def)
  then have "decode_region ?wire (length ps + 5) Frame_init = Some ((Frame_Ok, frame_crc t ps), frame_of t ps)"
    using take_wire_region [OF assms(3), of ?stack t] decode_region_verdict [of "length ps + 5" ?wire Frame_init, OF _ frame_wf_init]
      region_verdict_wire [OF assms(3), of t Frame_init] assms(3) frame_store_raw [OF assms(3), of t Frame_init]
    by (simp add: kMaxPacket_def frame_of_def Frame_init_def)
  ultimately show ?thesis by blast
qed

lemma crc_tests: "crc_check_value_test = Some True" "crc_incremental_test = Some True"
  by code_simp+

lemma reader_types_passes:
  "reader_types FrameReader_init (frame_wire MT_Command [0xAA] @ frame_wire MT_Stream [0, 1, 2] @ frame_wire MT_Reply []) True []
    = Some (True, [MT_Command, MT_Stream, MT_Reply])"
  by code_simp

lemma resync_passes:
  "do { r \<leftarrow> push_bytes FrameReader_init [0x10, 0x20, 0x30];
        (ev, r) \<leftarrow> push r 0;
        done \<leftarrow> resync_loop r (frame_wire MT_Reply [0x42]) True False;
        Some (ev = Event_Error \<and> done) } = Some True"
  by code_simp

lemma encode_packet:
  assumes "payload_valid pl len" "unat len \<le> 250" "payload_bytes pl len = ps"
  shows "\<exists>wire. encode_frame t pl len (stack_array junk kMaxPacket) kMaxPacket = Some ((Frame_Ok, unat len + 6), wire) \<and>
    prefix_of wire (unat len + 6) = Some (frame_wire t ps)"
  using encode_small [OF assms(1,2)] assms(3) by blast

lemma reader_tests: "reader_interleaved_test junk = Some True" "reader_resync_test junk = Some True"
proof -
  note simps = payload_valid_def payload_bytes_def
  obtain a b c d where
    "encode_frame MT_Command (Some [0xAA]) 1 (stack_array junk kMaxPacket) kMaxPacket = Some ((Frame_Ok, 7), a)"
    "prefix_of a 7 = Some (frame_wire MT_Command [0xAA])"
    "encode_frame MT_Stream (Some [0, 1, 2]) 3 (stack_array junk kMaxPacket) kMaxPacket = Some ((Frame_Ok, 9), b)"
    "prefix_of b 9 = Some (frame_wire MT_Stream [0, 1, 2])"
    "encode_frame MT_Reply None 0 (stack_array junk kMaxPacket) kMaxPacket = Some ((Frame_Ok, 6), c)"
    "prefix_of c 6 = Some (frame_wire MT_Reply [])"
    "encode_frame MT_Reply (Some [0x42]) 1 (stack_array junk kMaxPacket) kMaxPacket = Some ((Frame_Ok, 7), d)"
    "prefix_of d 7 = Some (frame_wire MT_Reply [0x42])"
    using encode_packet [of "Some [0xAA]" 1 "[0xAA]" MT_Command junk] encode_packet [of "Some [0, 1, 2]" 3 "[0, 1, 2]" MT_Stream junk]
      encode_packet [of None 0 "[]" MT_Reply junk] encode_packet [of "Some [0x42]" 1 "[0x42]" MT_Reply junk]
    by (auto simp: simps)
  note enc = this
  show "reader_interleaved_test junk = Some True"
    using reader_types_passes by (simp add: reader_interleaved_test_def enc)
  show "reader_resync_test junk = Some True"
    using resync_passes by (simp add: reader_resync_test_def enc del: push_bytes.simps split: bind_splits)
qed

lemma corruption_verdicts:
  assumes "flip = 0 \<or> flip = 1"
  shows "fst (fst (region_verdict (take 9 (drop 1 ((frame_wire MT_Reply [1, 2, 3, 4])[3 := frame_wire MT_Reply [1, 2, 3, 4] ! 3 XOR flip])))
    Frame_init)) \<in> {CrcMismatch, LengthMismatch, CobsError}"
proof -
  have "list_all (\<lambda>flip. fst (fst (region_verdict (take 9 (drop 1 ((frame_wire MT_Reply [1, 2, 3, 4])[3 := frame_wire MT_Reply [1, 2, 3, 4] ! 3 XOR flip])))
    Frame_init)) \<in> {CrcMismatch, LengthMismatch, CobsError}) [0, 1]" by code_simp
  then show ?thesis using assms by auto
qed

lemma corruption_passes:
  assumes "flip = 0 \<or> flip = 1"
  shows "frame_corruption_checks junk flip = Some True"
proof -
  let ?w = "frame_wire MT_Reply [1, 2, 3, 4]" and ?stack = "stack_array junk kMaxPacket"
  have len: "length ?w = 10" by (simp add: length_frame_wire)
  have enc: "encode_frame MT_Reply (Some [1, 2, 3, 4]) 4 ?stack kMaxPacket = Some ((Frame_Ok, 10), blit 0 ?w ?stack)"
    using encode_small(1) [of "Some [1, 2, 3, 4]" 4 MT_Reply junk] by (simp add: payload_valid_def payload_bytes_def)
  let ?r = "(blit 0 ?w ?stack)[3 := ?w ! 3 XOR flip]"
  have r: "?r = ?w[3 := ?w ! 3 XOR flip] @ drop 10 ?stack" "length (blit 0 ?w ?stack) = 256" "blit 0 ?w ?stack ! 3 = ?w ! 3"
    using len by (simp_all add: blit_def list_update_append nth_append kMaxPacket_def)
  have "decode_region (drop 1 ?r) 9 Frame_init = Some (region_verdict (take 9 (drop 1 (?w[3 := ?w ! 3 XOR flip]))) Frame_init)"
    using decode_region_verdict [of 9 "drop 1 ?r" Frame_init] r len by (simp add: kMaxPacket_def)
  then show ?thesis
    using corruption_verdicts [OF assms] r enc
    by (auto simp: frame_corruption_checks_def mem_read_def mem_write_def size_sub_def split: prod.splits)
qed

text \<open>The whole file of tests, by the names of its test cases.\<close>

definition protocol_tests :: "(nat \<Rightarrow> byte) \<Rightarrow> (string \<times> bool option) list" where
  "protocol_tests junk =
     [(''crc16: canonical check value'', crc_check_value_test),
      (''crc16: incremental matches one-shot'', crc_incremental_test),
      (''cobs: round trips'', cobs_round_trips_test),
      (''cobs: output too small'', cobs_too_small_test junk),
      (''frame: round trips'', frame_round_trips_test junk),
      (''frame: max packet size is exactly 256'', frame_max_packet_test junk),
      (''frame: payload too large is rejected'', frame_too_large_test junk),
      (''frame: CRC detects corruption'', frame_corruption_checks junk 1),
      (''frame reader: interleaved packets'', reader_interleaved_test junk),
      (''frame reader: resyncs after garbage'', reader_resync_test junk)]"

lemma size_tests: "cobs_too_small_test junk = Some True" "frame_max_packet_test junk = Some True" "frame_too_large_test junk = Some True"
proof -
  show "cobs_too_small_test junk = Some True"
    using cobs_io.enc_small [of 3 "[1, 2, 3]" 2 "stack_array junk 2"]
    by (auto simp: cobs_too_small_test_def length_cobs_encoding_small)
  show "frame_max_packet_test junk = Some True"
    using encode_small(1) [of "Some (replicate kMaxPayload 0xA5)" "of_nat kMaxPayload" MT_Stream junk]
    by (simp add: frame_max_packet_test_def payload_valid_def kMaxPayload_def kMaxPacket_def)
  show "frame_too_large_test junk = Some True"
    using encode_frame_result [of "of_nat (kMaxPayload + 1)" "Some (replicate (kMaxPayload + 1) 0)" "kMaxPacket + 8" "stack_array junk (kMaxPacket + 8)" MT_Stream]
    by (auto simp: frame_too_large_test_def kMaxPayload_def kMaxPacket_def)
qed

lemma protocol_tests_pass: "list_all (\<lambda>(name, t). t = Some True) (protocol_tests junk)"
  by (simp add: protocol_tests_def crc_tests size_tests reader_tests corruption_passes cobs_round_trips_test_def
      frame_round_trips_test_def all_pass_iff cobs_roundtrip_passes frame_roundtrip_passes kMaxPayload_def list.pred_map o_def)

end
