(* ===== verification/TestCommand.thy ===== *)
theory TestCommand
  imports TestProtocol Span Command
begin

text \<open>
  The tests of the command layer, \<open>src/tests/test_command.cpp\<close>: the codecs, the spans, a table of
  five commands and its dispatcher. The device's state is the flag \<open>g_led\<close>. A floating point number
  is its bit pattern; the ones the tests compare are not zeros or NaNs, for which \<open>==\<close> would differ.
\<close>

section \<open>Codecs\<close>

definition codec_roundtrip_checks :: "'a Codec \<Rightarrow> 'a \<Rightarrow> bool option" where
  "codec_roundtrip_checks c v =
     do {
       (w, buf) \<leftarrow> encode c v (replicate 16 0) 0 16;
       case w of
         None \<Rightarrow> Some False
       | Some n \<Rightarrow> do {
           (r, out) \<leftarrow> decode c buf 0 n (initial c);
           Some (n = kMaxSize c \<and> r = Some n \<and> out = v)
         }
     }"

context fixed_codec
begin

lemma codec_roundtrip_passes:
  assumes "valid s v" "canon s v = v" "kMaxSize c \<le> 16"
  shows "codec_roundtrip_checks c v = Some True"
proof -
  let ?b = "blit 0 (ser s v) (replicate 16 0)"
  have n: "length (ser s v) = kMaxSize c" using ser_fixed [OF assms(1)] .
  have enc: "encode c v (replicate 16 0) 0 16 = Some (Some (kMaxSize c), ?b)"
    using enc_fits [of v 0 16 "replicate 16 0"] assms n by simp
  have b: "length ?b = 16" "take (kMaxSize c) ?b = ser s v" using n assms(3) by (simp_all add: length_blit) (simp add: blit_def)
  have "par s (ser s v) = Some (v, kMaxSize c)" using par_ser [OF assms(1), of "[]"] assms(2) n by simp
  then have "decode c ?b 0 (kMaxSize c) (initial c) = Some (Some (kMaxSize c), v)"
    using dec_some [of 0 "kMaxSize c" ?b v "kMaxSize c"] b assms(3) by simp
  then show ?thesis by (simp add: codec_roundtrip_checks_def enc)
qed

end

text \<open>\<open>enum class Color : std::uint16_t\<close>: a value of the type is any value of its underlying type.\<close>

datatype Color = Color (underlying: "16 word")

definition Blue :: Color where "Blue = Color 0xBEEF"

abbreviation color_codec :: "Color Codec" where "color_codec \<equiv> EnumCodec underlying Color u16_codec"

interpretation color: fixed_codec color_codec "enum_spec (\<lambda>_. True) underlying Color uint_spec"
  by (rule enum_codec_laws(1) [OF u16.fixed_codec_axioms u16_strict.strict_codec_axioms _ _ u16.codec_axioms])
     (simp_all add: codec_sel)

definition codec_scalar_test :: "bool option" where
  "codec_scalar_test = all_pass
     [codec_roundtrip_checks u8_codec 0xAB, codec_roundtrip_checks u16_codec 0x1234,
      codec_roundtrip_checks u32_codec 0xDEADBEEF, codec_roundtrip_checks u64_codec 0x0123456789ABCDEF,
      codec_roundtrip_checks i8_codec (- 7), codec_roundtrip_checks i16_codec (- 1000),
      codec_roundtrip_checks i32_codec (- 123456), codec_roundtrip_checks BoolCodec True,
      codec_roundtrip_checks BoolCodec False, codec_roundtrip_checks float_codec (FP 0x40490FD0),
      codec_roundtrip_checks double_codec (FP 0x4005BF0A8B145769), codec_roundtrip_checks color_codec Blue]"

definition codec_byte_order_test :: "bool option" where
  "codec_byte_order_test = do {
     (w, buf) \<leftarrow> encode u32_codec 0x11223344 (replicate 4 0) 0 4;
     Some (w \<noteq> None \<and> buf = [0x44, 0x33, 0x22, 0x11])
   }"

definition codec_short_test :: "bool option" where
  "codec_short_test = do { (r, out) \<leftarrow> decode u16_codec [0x42] 0 1 0; Some (r = None) }"

lemma codec_tests: "codec_scalar_test = Some True" "codec_byte_order_test = Some True" "codec_short_test = Some True"
proof -
  have "codec_roundtrip_checks color_codec Blue = Some True"
    by (rule color.codec_roundtrip_passes) (simp_all add: enum_spec_def EnumCodec_def codec_sel)
  then show "codec_scalar_test = Some True"
    using u8.codec_roundtrip_passes [of "0xAB"] u16.codec_roundtrip_passes [of "0x1234"]
      u32.codec_roundtrip_passes [of "0xDEADBEEF"] u64.codec_roundtrip_passes [of "0x0123456789ABCDEF"]
      i8.codec_roundtrip_passes [of "- 7"] i16.codec_roundtrip_passes [of "- 1000"] i32.codec_roundtrip_passes [of "- 123456"]
      bl.codec_roundtrip_passes [of True] bl.codec_roundtrip_passes [of False]
      flt.codec_roundtrip_passes [of "FP 0x40490FD0"] dbl.codec_roundtrip_passes [of "FP 0x4005BF0A8B145769"]
    by (simp add: codec_scalar_test_def all_pass_iff codec_sel int_ok_def)
qed (code_simp+)

section \<open>Spans\<close>

definition span_array_test :: "bool option" where
  "span_array_test = do {
     let c = SpanCodec 8 u16_codec;
     (_, a) \<leftarrow> push_back 8 (InlineArray_init 8 0) 0x1111;
     (_, a) \<leftarrow> push_back 8 a 0x2222;
     (_, a) \<leftarrow> push_back 8 a 0x3333;
     (w, buf) \<leftarrow> encode c a (replicate 32 0) 0 32;
     case w of
       None \<Rightarrow> Some False
     | Some n \<Rightarrow> do {
         count \<leftarrow> mem_read buf 0;
         (r, out) \<leftarrow> decode c buf 0 n (InlineArray_init 8 0);
         same \<leftarrow> array_eq out a;
         Some (n = 1 + 3 * 2 \<and> count = 3 \<and> r = Some n \<and> same)
       }
   }"

definition span_string_test :: "bool option" where
  "span_string_test = do {
     let c = StringCodec 16;
     s \<leftarrow> make_string 16 (Some [0x68, 0x65, 0x6C, 0x6C, 0x6F, 0]);
     (w, buf) \<leftarrow> encode c s (replicate 32 0) 0 32;
     case w of
       None \<Rightarrow> Some False
     | Some n \<Rightarrow> do {
         count \<leftarrow> mem_read buf 0;
         h \<leftarrow> mem_read buf 1;
         lst \<leftarrow> mem_read buf 5;
         (r, out) \<leftarrow> decode c buf 0 n (InlineArray_init 16 0);
         same \<leftarrow> array_eq out s;
         Some (isize s = 5 \<and> n = 1 + 5 \<and> count = 5 \<and> h = 0x68 \<and> lst = 0x6F \<and> r \<noteq> None \<and> same)
       }
   }"

definition span_empty_test :: "bool option" where
  "span_empty_test = do {
     (w, buf) \<leftarrow> encode (SpanCodec 8 u8_codec) (InlineArray_init 8 0) (replicate 8 0) 0 8;
     count \<leftarrow> mem_read buf 0;
     Some (w = Some 1 \<and> count = 0)
   }"

definition span_count_test :: "bool option" where
  "span_count_test = do {
     (r, out) \<leftarrow> decode (SpanCodec 3 u16_codec) [5, 0, 0, 0, 0, 0, 0, 0, 0, 0] 0 10 (InlineArray_init 3 0);
     Some (r = None)
   }"

definition span_short_test :: "bool option" where
  "span_short_test = do {
     (r, out) \<leftarrow> decode (SpanCodec 8 u16_codec) [3, 0] 0 2 (InlineArray_init 8 0);
     Some (r = None)
   }"

definition span_output_test :: "bool option" where
  "span_output_test = do {
     (_, a) \<leftarrow> push_back 8 (InlineArray_init 8 0) 0xAAAA;
     (_, a) \<leftarrow> push_back 8 a 0xBBBB;
     (w, buf) \<leftarrow> encode (SpanCodec 8 u16_codec) a (replicate 3 0) 0 3;
     Some (w = None)
   }"

lemma span_tests: "span_array_test = Some True" "span_string_test = Some True" "span_empty_test = Some True"
  "span_count_test = Some True" "span_short_test = Some True" "span_output_test = Some True"
  by code_simp+

section \<open>Dispatch\<close>

fun add :: "(bool, byte \<times> byte \<times> unit, 16 word \<times> unit) Handler" where
  "add (a, b, u) led = Some ((SC_Ok, of_nat (unat a + unat b), ()), led)"

fun set_led :: "(bool, bool \<times> unit, unit) Handler" where
  "set_led (v, u) led = Some ((SC_Ok, ()), v)"

definition stats :: "(bool, unit, int \<times> 32 word fp \<times> unit) Handler" where
  "stats u led = Some ((SC_Ok, - 42, FP 0x3FC00000, ()), led)"

definition ping :: "(bool, unit, byte \<times> unit) Handler" where
  "ping u led = Some ((SC_Ok, 0x7E, ()), led)"

fun echo_bytes :: "(bool, byte InlineArray \<times> unit, byte InlineArray \<times> unit) Handler" where
  "echo_bytes (a, u) led = Some ((SC_Ok, a, ()), led)"

definition AddCmd :: "(byte \<times> byte \<times> unit, 16 word \<times> unit) CommandDef" where
  "AddCmd = \<lparr>def_opcode = 0x01, ArgsTuple = tcons u8_codec (tcons u8_codec tnil), RetsTuple = tcons u16_codec tnil\<rparr>"

definition SetLedCmd :: "(bool \<times> unit, unit) CommandDef" where
  "SetLedCmd = \<lparr>def_opcode = 0x02, ArgsTuple = tcons BoolCodec tnil, RetsTuple = tnil\<rparr>"

definition StatsCmd :: "(unit, int \<times> 32 word fp \<times> unit) CommandDef" where
  "StatsCmd = \<lparr>def_opcode = 0x03, ArgsTuple = tnil, RetsTuple = tcons i32_codec (tcons float_codec tnil)\<rparr>"

definition PingCmd :: "(unit, byte \<times> unit) CommandDef" where
  "PingCmd = \<lparr>def_opcode = 0x04, ArgsTuple = tnil, RetsTuple = tcons u8_codec tnil\<rparr>"

definition EchoCmd :: "(byte InlineArray \<times> unit, byte InlineArray \<times> unit) CommandDef" where
  "EchoCmd = \<lparr>def_opcode = 0x05, ArgsTuple = tcons (SpanCodec 16 u8_codec) tnil, RetsTuple = tcons (SpanCodec 16 u8_codec) tnil\<rparr>"

definition command_test_table :: "bool CommandEntry list" where
  "command_test_table = [command AddCmd add, command SetLedCmd set_led, command StatsCmd stats,
     command PingCmd ping, command EchoCmd echo_bytes]"

fun copy_args :: "buf \<Rightarrow> byte list \<Rightarrow> nat \<Rightarrow> buf option" where
  "copy_args pl [] i = Some pl"
| "copy_args pl (b # bs) i = do { pl \<leftarrow> mem_write pl (1 + i) b; copy_args pl bs (i + 1) }"

definition make_command :: "byte \<Rightarrow> byte list \<Rightarrow> Frame option" where
  "make_command opc args = do {
     let f = Frame_init;
     pl \<leftarrow> mem_write (payload f) 0 opc;
     pl \<leftarrow> copy_args pl args 0;
     Some (f\<lparr>ftype := MT_Command, payload := pl, flength := of_nat (1 + length args)\<rparr>)
   }"

text \<open>One dispatch of the tests: whether it answered, the answer's length and bytes, the flag.\<close>

definition dispatched :: "byte \<Rightarrow> byte list \<Rightarrow> bool \<Rightarrow> (bool \<times> nat \<times> byte list \<times> bool) option" where
  "dispatched opc args led = do {
     cmd \<leftarrow> make_command opc args;
     ((ok, replyLen), reply, led) \<leftarrow> dispatch_array command_test_table cmd (replicate kMaxPayload 0) kMaxPayload 0 led;
     bytes \<leftarrow> prefix_of reply (unat replyLen);
     Some (ok, unat replyLen, bytes, led)
   }"

definition dispatch_tests :: "(string \<times> bool option) list" where
  "dispatch_tests =
     [(''dispatch: arguments and result'', do {
         (ok, n, reply, led) \<leftarrow> dispatched 0x01 [20, 22] False;
         body \<leftarrow> size_sub n 1;
         (r, sum) \<leftarrow> decode u16_codec reply 1 body 0;
         st \<leftarrow> mem_read reply 0;
         Some (ok \<and> st = SC_Ok \<and> n = 3 \<and> r \<noteq> None \<and> sum = 42)
       }),
      (''dispatch: status-only handler runs'', do {
         (ok, n, reply, led) \<leftarrow> dispatched 0x02 [1] False;
         Some (ok \<and> reply = [SC_Ok] \<and> n = 1 \<and> led)
       }),
      (''dispatch: no-argument command'', do {
         (ok, n, reply, led) \<leftarrow> dispatched 0x04 [] False;
         Some (ok \<and> n = 2 \<and> reply = [SC_Ok, 0x7E])
       }),
      (''dispatch: unknown opcode'', do {
         (ok, n, reply, led) \<leftarrow> dispatched 0xFE [] False;
         Some (ok \<and> n = 1 \<and> reply = [SC_UnknownCommand])
       }),
      (''dispatch: too few argument bytes'', do {
         (ok, n, reply, led) \<leftarrow> dispatched 0x01 [20] False;
         Some (ok \<and> n = 1 \<and> reply = [SC_BadArguments])
       }),
      (''dispatch: trailing argument bytes are rejected'', do {
         (ok, n, reply, led) \<leftarrow> dispatched 0x01 [20, 22, 99] False;
         st \<leftarrow> mem_read reply 0;
         Some (ok \<and> st = SC_BadArguments)
       }),
      (''dispatch: span echo'', do {
         (ok, n, reply, led) \<leftarrow> dispatched 0x05 [0x03, 0xAA, 0xBB, 0xCC] False;
         Some (ok \<and> n = 1 + 1 + 3 \<and> reply = [SC_Ok, 3, 0xAA, 0xBB, 0xCC])
       })]"

lemma dispatch_tests_pass: "list_all (\<lambda>(name, t). t = Some True) dispatch_tests"
  by code_simp

section \<open>Through the framing layer\<close>

text \<open>What the host reads from the reply's frame.\<close>

definition stats_reply_checks :: "Frame \<Rightarrow> bool option" where
  "stats_reply_checks rep = do {
     st \<leftarrow> mem_read (payload rep) 0;
     let off = 1;
     room \<leftarrow> size_sub (unat (flength rep)) off;
     (ra, a) \<leftarrow> decode i32_codec (payload rep) off room 0;
     let off = (case ra of None \<Rightarrow> off | Some k \<Rightarrow> off + k);
     room \<leftarrow> size_sub (unat (flength rep)) off;
     (rb, b) \<leftarrow> decode float_codec (payload rep) off room (FP 0);
     let off = (case rb of None \<Rightarrow> off | Some k \<Rightarrow> off + k);
     Some (ftype rep = MT_Reply \<and> st = SC_Ok \<and> ra \<noteq> None \<and> rb \<noteq> None \<and> off = unat (flength rep) \<and>
       a = - 42 \<and> b = FP 0x3FC00000)
   }"

definition full_wire_test :: "(nat \<Rightarrow> byte) \<Rightarrow> bool option" where
  "full_wire_test junk = do {
     ((encStatus, encLen), cmdWire) \<leftarrow> encode_frame MT_Command (Some [0x03]) 1 (stack_array junk kMaxPacket) kMaxPacket;
     n \<leftarrow> size_sub encLen 1;
     ((decStatus, decCrc), cmd) \<leftarrow> decode_region cmdWire n Frame_init;
     ((ok, replyLen), reply, led) \<leftarrow> dispatch_array command_test_table cmd (replicate kMaxPayload 0) kMaxPayload 0 False;
     ((rEncStatus, rEncLen), replyWire) \<leftarrow> encode_frame MT_Reply (Some reply) replyLen (stack_array junk kMaxPacket) kMaxPacket;
     rn \<leftarrow> size_sub rEncLen 1;
     ((rDecStatus, rDecCrc), rep) \<leftarrow> decode_region replyWire rn Frame_init;
     fine \<leftarrow> stats_reply_checks rep;
     Some (encStatus = Frame_Ok \<and> decStatus = Frame_Ok \<and> ftype cmd = MT_Command \<and> ok \<and> rEncStatus = Frame_Ok \<and>
       rDecStatus = Frame_Ok \<and> fine)
   }"

definition stats_reply :: "byte list" where
  "stats_reply = [SC_Ok, 0xD6, 0xFF, 0xFF, 0xFF, 0, 0, 0xC0, 0x3F]"

lemma full_wire_passes: "full_wire_test junk = Some True"
proof -
  let ?stack = "stack_array junk kMaxPacket" and ?reply = "stats_reply @ replicate 241 0"
  obtain w1 c1 where w1: "encode_frame MT_Command (Some [0x03]) 1 ?stack kMaxPacket = Some ((Frame_Ok, 7), w1)"
      "decode_region w1 6 Frame_init = Some ((Frame_Ok, c1), frame_of MT_Command [0x03])"
    using encode_decode [of "Some [0x03]" "[0x03]" MT_Command junk] by (auto simp: payload_valid_def payload_bytes_def)
  have "dispatch_array command_test_table (frame_of MT_Command [0x03]) (replicate kMaxPayload 0) kMaxPayload 0 False
      = Some ((True, 9), ?reply, False)" by code_simp
  moreover obtain w2 c2 where w2: "encode_frame MT_Reply (Some ?reply) 9 ?stack kMaxPacket = Some ((Frame_Ok, 15), w2)"
      "decode_region w2 14 Frame_init = Some ((Frame_Ok, c2), frame_of MT_Reply stats_reply)"
    using encode_decode [of "Some ?reply" stats_reply MT_Reply junk] by (auto simp: payload_valid_def payload_bytes_def stats_reply_def)
  moreover have "stats_reply_checks (frame_of MT_Reply stats_reply) = Some True" by code_simp
  ultimately show ?thesis using w1 by (simp add: full_wire_test_def) (simp add: frame_of_def)
qed

text \<open>The whole file of tests.\<close>

definition command_tests :: "(nat \<Rightarrow> byte) \<Rightarrow> (string \<times> bool option) list" where
  "command_tests junk =
     [(''codec: scalar round trips'', codec_scalar_test),
      (''codec: little-endian byte order'', codec_byte_order_test),
      (''codec: short input fails'', codec_short_test),
      (''span: array round trip'', span_array_test),
      (''span: string round trip'', span_string_test),
      (''span: empty'', span_empty_test),
      (''span: count exceeding capacity is rejected'', span_count_test),
      (''span: short input is rejected'', span_short_test),
      (''span: encode output too small is rejected'', span_output_test)]
     @ dispatch_tests
     @ [(''command: full wire round trip'', full_wire_test junk)]"

lemma command_tests_pass: "list_all (\<lambda>(name, t). t = Some True) (command_tests junk)"
  using dispatch_tests_pass by (simp add: command_tests_def codec_tests span_tests full_wire_passes)

end
