(* ===== verification/TestHost.thy ===== *)
theory TestHost
  imports TestCommand DeviceApp
begin

text \<open>
  The tests of the host call, \<open>src/tests/test_host.cpp\<close>. \<open>LoopbackTransport\<close> decodes the command
  packet, dispatches it in the same process and hands the answer back as a frame, without encoding
  it; it is a \<open>link\<close> to any table of commands that keep their contracts, so that \<open>call\<close> over it is
  running the handler, for any table and any arguments. The test cases are then instances.
\<close>

section \<open>The transports\<close>

record 'st Loopback =
  lb_pending :: Frame
  lb_has :: bool
  lb_device :: 'st

function loop_copy :: "buf \<Rightarrow> byte \<Rightarrow> byte \<Rightarrow> buf \<Rightarrow> buf option" where
  "loop_copy rp rl i pl =
     (if i < rl then do {
        v \<leftarrow> mem_read rp (unat i);
        pl \<leftarrow> mem_write pl (unat i) v;
        loop_copy rp rl (i + 1) pl
      } else Some pl)"
  by pat_completeness auto
termination
  by (relation "measure (\<lambda>(rp, rl, i, pl). unat rl - unat i)")
     (auto simp: unat_Suc_less word_less_nat_alt)

declare loop_copy.simps [simp del]

text \<open>The uninitialised local array is \<open>rp0\<close>.\<close>

definition loop_send :: "'st CommandEntry list \<Rightarrow> buf \<Rightarrow> 'st Loopback Sender" where
  "loop_send table rp0 wire len t =
     do {
       n \<leftarrow> size_sub len 1;
       ((st, crc), cmd) \<leftarrow> decode_region wire n Frame_init;
       if st \<noteq> Frame_Ok then Some (False, t)
       else do {
         ((ok, rl), rp, dev) \<leftarrow> dispatch_array table cmd rp0 kMaxPayload 0 (lb_device t);
         let t = t\<lparr>lb_device := dev\<rparr>;
         if \<not> ok then Some (False, t)
         else do {
           pl \<leftarrow> loop_copy rp rl 0 (payload (lb_pending t));
           Some (True, t\<lparr>lb_pending := (lb_pending t)\<lparr>ftype := MT_Reply, flength := rl, payload := pl\<rparr>, lb_has := True\<rparr>)
         }
       }
     }"

definition loop_await :: "'st Loopback Awaiter" where
  "loop_await out t =
     (if \<not> lb_has t then Some (False, out, t) else Some (True, lb_pending t, t\<lparr>lb_has := False\<rparr>))"

definition make_loopback :: "'st \<Rightarrow> 'st Loopback" where
  "make_loopback dev = \<lparr>lb_pending = Frame_init, lb_has = False, lb_device = dev\<rparr>"

definition dead_send :: "unit Sender" where "dead_send wire len t = Some (False, t)"
definition dead_await :: "unit Awaiter" where "dead_await out t = Some (False, out, t)"

section \<open>The loopback is a link\<close>

lemma loop_copy_blit:
  assumes "unat rl \<le> length rp" "unat rl \<le> length pl" "i \<le> rl"
  shows "loop_copy rp rl i pl = Some (blit (unat i) (drop (unat i) (take (unat rl) rp)) pl)"
  using assms
proof (induction rp rl i pl rule: loop_copy.induct)
  case (1 rp rl i pl)
  let ?ps = "take (unat rl) rp"
  have ps: "length ?ps = unat rl" using 1(2) by simp
  show ?case
  proof (cases "i < rl")
    case False
    with 1 ps show ?thesis by (subst loop_copy.simps) (simp add: word_less_nat_alt)
  next
    case True
    have i: "unat i < unat rl" "unat (i + 1) = Suc (unat i)" "i + 1 \<le> rl"
      using True unat_Suc_less [OF True] by (simp_all add: word_less_nat_alt word_le_nat_alt)
    have v: "mem_read rp (unat i) = Some (?ps ! unat i)" using 1(2) i by simp
    have w: "mem_write pl (unat i) (?ps ! unat i) = Some (blit (unat i) [?ps ! unat i] pl)"
      using 1(3) i by (intro mem_write_blit) simp
    have split: "drop (unat i) ?ps = [?ps ! unat i] @ drop (Suc (unat i)) ?ps"
      using Cons_nth_drop_Suc [of "unat i" ?ps] ps i by simp
    have "loop_copy rp rl i pl = Some (blit (unat i + 1) (drop (Suc (unat i)) ?ps) (blit (unat i) [?ps ! unat i] pl))"
      using True v w 1 i by (subst loop_copy.simps) (simp add: length_blit)
    then show ?thesis
      using blit_blit_append [of "unat i" "[?ps ! unat i]" "drop (Suc (unat i)) ?ps" pl] split 1(3) i ps by simp
  qed
qed

definition loop_ok :: "('st \<Rightarrow> bool) \<Rightarrow> 'st Loopback \<Rightarrow> bool" where
  "loop_ok sinv t \<longleftrightarrow> length (payload (lb_pending t)) = kMaxPayload \<and> sinv (lb_device t)"

lemma loopback_link:
  assumes "service table tbl sinv" "length rp0 = kMaxPayload"
  shows "link (loop_send table rp0) loop_await (serve tbl kMaxPayload) lb_device (loop_ok sinv)"
proof
  fix t :: "'a Loopback" and ps :: "byte list" and wire :: buf and f
  let ?w = "frame_wire MT_Command ps"
  assume t: "loop_ok sinv t" and ps: "length ps \<le> kMaxPayload" and wire: "length wire = kMaxPacket" "take (length ?w) wire = ?w"
    and f: "frame_wf f"
  have n: "length ps \<le> 250" "length ?w = length ps + 6" using ps by (simp_all add: kMaxPayload_def length_frame_wire)
  let ?cmd = "frame_store (frame_raw MT_Command ps) Frame_init"
  have "take (length ps + 5) wire = take (length ps + 5) ?w"
    using arg_cong [OF wire(2), of "take (length ps + 5)"] n(2) by (simp add: min_def)
  also have "\<dots> = cobs_encoding (frame_raw MT_Command ps)"
    using n by (simp add: frame_wire_def length_cobs_encoding_small)
  finally have region: "take (length ps + 5) wire = cobs_encoding (frame_raw MT_Command ps)" .
  have dec: "decode_region wire (length ps + 5) Frame_init = Some ((Frame_Ok, frame_crc MT_Command ps), ?cmd)"
    using decode_region_verdict [of "length ps + 5" wire Frame_init] region_verdict_wire [OF n(1), of MT_Command Frame_init] region wire(1) n
    by (simp add: kMaxPacket_def)
  have cmd: "frame_wf ?cmd" "frame_data ?cmd = ps"
    using frame_store_wf [OF n(1)] frame_store_data [OF n(1)] by (simp_all add: Frame_init_def)
  obtain len d st' where r: "dispatch table (length table) ?cmd rp0 kMaxPayload 0 (lb_device t) = Some ((True, len), d, st')"
      "1 \<le> unat len" "unat len \<le> kMaxPayload" "confined 0 kMaxPayload d rp0" "sinv st'"
      "serve tbl kMaxPayload ps (lb_device t) = (take (unat len) d, st')"
    using service.dispatch_serves [OF assms(1) cmd(1), of kMaxPayload rp0 "lb_device t" 0] assms(2) t cmd(2)
    by (auto simp: loop_ok_def kMaxPayload_def)
  have d: "length d = kMaxPayload" using confined_length [OF r(4)] assms(2) by simp
  let ?pl = "blit 0 (take (unat len) d) (payload (lb_pending t))"
  let ?reply = "(lb_pending t)\<lparr>ftype := MT_Reply, flength := len, payload := ?pl\<rparr>"
  let ?t1 = "t\<lparr>lb_device := st', lb_pending := ?reply, lb_has := True\<rparr>"
  have copy: "loop_copy d len 0 (payload (lb_pending t)) = Some ?pl"
    using loop_copy_blit [of len d "payload (lb_pending t)" 0] d r(3) t by (simp add: loop_ok_def)
  have sub: "size_sub (length ?w) 1 = Some (length ps + 5)" using n(2) by (simp add: size_sub_def)
  have send: "loop_send table rp0 wire (length ?w) t = Some (True, ?t1)"
    using dec r(1) copy sub by (simp add: loop_send_def dispatch_array_def del: size_sub_Some One_nat_def)
  have wf: "frame_wf ?reply" "frame_data ?reply = take (unat len) d"
    using r(3) t d by (simp_all add: frame_wf_def frame_data_def loop_ok_def length_blit) (simp add: blit_def)
  show "\<exists>t1 reply t2. loop_send table rp0 wire (length ?w) t = Some (True, t1) \<and> loop_await f t1 = Some (True, reply, t2) \<and>
      loop_ok sinv t2 \<and> frame_wf reply \<and> ftype reply = MT_Reply \<and>
      serve tbl kMaxPayload ps (lb_device t) = (frame_data reply, lb_device t2) \<and> 1 \<le> unat (flength reply)"
    using send wf r(2,5,6) by (auto simp: loop_await_def loop_ok_def frame_wf_def)
qed

text \<open>Calling any registered command over it.\<close>

lemma loopback_call:
  assumes "service table tbl sinv" "handler_contract d sa sr fn sinv" "map_of tbl (def_opcode d) = Some (answer sa sr fn)"
    and "loop_ok sinv t" "valid sa a" "length rp0 = kMaxPayload" "length payload0 = kMaxPayload" "length wire0 = kMaxPacket"
  shows "\<exists>c r st' t'. fn (canon sa a) (lb_device t) = Some ((c, r), st') \<and>
    call payload0 wire0 (loop_send table rp0) loop_await d a t
      = Some ((c, if c = SC_Ok then canon sr r else tuple_init (RetsTuple d)), t') \<and>
    loop_ok sinv t' \<and> lb_device t' = st'"
proof -
  have rm: "remote (loop_send table rp0) loop_await (serve tbl kMaxPayload) lb_device (loop_ok sinv) d sa sr"
    by (intro remote.intro loopback_link assms(1,6) handler_contract.axioms(1) [OF assms(2)])
  have "sinv (lb_device t)" using assms(4) by (simp add: loop_ok_def)
  then show ?thesis
    using remote.call_runs_handler [OF rm assms(2,4,5) _ assms(7,8)] assms(3)
    by (auto simp: serve_def request_def)
qed

section \<open>The commands of the tests\<close>

definition EchoWordsCmd :: "(16 word InlineArray \<times> unit, 16 word InlineArray \<times> unit) CommandDef" where
  "EchoWordsCmd = \<lparr>def_opcode = 0x04, ArgsTuple = tcons (SpanCodec 4 u16_codec) tnil, RetsTuple = tcons (SpanCodec 4 u16_codec) tnil\<rparr>"

definition UnregisteredCmd :: "(unit, int \<times> 32 word fp \<times> unit) CommandDef" where
  "UnregisteredCmd = StatsCmd\<lparr>def_opcode := 0x7F\<rparr>"

fun echo_words :: "(bool, 16 word InlineArray \<times> unit, 16 word InlineArray \<times> unit) Handler" where
  "echo_words (a, u) led = Some ((SC_Ok, a, ()), led)"

definition host_test_table :: "bool CommandEntry list" where
  "host_test_table = [command AddCmd add, command SetLedCmd set_led, command StatsCmd stats, command EchoWordsCmd echo_words]"

abbreviation "words_field \<equiv> span_spec 4 0 u16_field"
abbreviation "words_fields \<equiv> tcons_spec words_field tnil_spec"
abbreviation "add_fields \<equiv> tcons_spec u8_field (tcons_spec u8_field tnil_spec)"
abbreviation "led_fields \<equiv> tcons_spec bool_spec tnil_spec"
abbreviation "stats_fields \<equiv> tcons_spec (int_spec TYPE(32)) (tcons_spec (float_spec :: 32 word fp Spec) tnil_spec)"

lemma words_codec: "codec (SpanCodec 4 u16_codec) words_field"
  using adc4.span_codec by (simp add: codec_sel)

lemma test_packs:
  "pack (tcons u8_codec (tcons u8_codec tnil)) add_fields" "pack (tcons u16_codec tnil) u16_fields"
  "pack (tcons BoolCodec tnil) led_fields" "pack (tcons i32_codec (tcons float_codec tnil)) stats_fields"
  "pack (tcons (SpanCodec 4 u16_codec) tnil) words_fields"
  by (intro tcons_packI u8.codec_axioms u16.codec_axioms bl.codec_axioms i32.codec_axioms flt.codec_axioms words_codec
      nil_pack.pack_axioms)+

lemmas test_defs = AddCmd_def SetLedCmd_def StatsCmd_def EchoWordsCmd_def

lemmas contract_intros = handler_contract.intro contract.intro contract_axioms.intro handler_contract_axioms.intro

interpretation add: handler_contract AddCmd add_fields u16_fields add "\<lambda>_. True"
  by (intro contract_intros) (auto simp: test_defs codec_sel test_packs nil_pack.pack_axioms kMaxPayload_def)

interpretation set_led: handler_contract SetLedCmd led_fields tnil_spec set_led "\<lambda>_. True"
  by (intro contract_intros) (auto simp: test_defs codec_sel test_packs nil_pack.pack_axioms kMaxPayload_def)

interpretation stats: handler_contract StatsCmd tnil_spec stats_fields stats "\<lambda>_. True"
  by (intro contract_intros) (auto simp: test_defs codec_sel test_packs nil_pack.pack_axioms kMaxPayload_def stats_def int_ok_def)

interpretation echo_words: handler_contract EchoWordsCmd words_fields words_fields echo_words "\<lambda>_. True"
  by (intro contract_intros) (auto simp: test_defs codec_sel test_packs nil_pack.pack_axioms kMaxPayload_def)

definition test_servers :: "(byte \<times> bool server) list" where
  "test_servers = [(0x01, answer add_fields u16_fields add), (0x02, answer led_fields tnil_spec set_led),
     (0x03, answer tnil_spec stats_fields stats), (0x04, answer words_fields words_fields echo_words)]"

interpretation host_tests: service host_test_table test_servers "\<lambda>_. True"
proof
  have "opcode (command d fn) = def_opcode d" for d and fn :: "(bool, 'a, 'b) Handler"
    by (simp add: command_def)
  then show "list_all2 (\<lambda>e (opc, f). opcode e = opc \<and> serves (\<lambda>_. True) f e) host_test_table test_servers"
    unfolding host_test_table_def test_servers_def
    using add.command_serves set_led.command_serves stats.command_serves echo_words.command_serves
    by (simp add: command_def test_defs)
qed

section \<open>The cases\<close>

abbreviation loop_call :: "(nat \<Rightarrow> byte) \<Rightarrow> ('a, 'r) CommandDef \<Rightarrow> 'a \<Rightarrow> bool Loopback \<Rightarrow> ((StatusCode \<times> 'r) \<times> bool Loopback) option" where
  "loop_call junk \<equiv> call (stack_array junk kMaxPayload) (stack_array junk kMaxPacket)
     (loop_send host_test_table (stack_array junk kMaxPayload)) loop_await"

definition host_tests :: "(nat \<Rightarrow> byte) \<Rightarrow> (string \<times> bool option) list" where
  "host_tests junk =
     [(''call: arguments and result'', do {
         ((status, sum, _), tx) \<leftarrow> loop_call junk AddCmd (20, 22, ()) (make_loopback False);
         Some (status = SC_Ok \<and> sum = 42)
       }),
      (''call: status-only handler runs'', do {
         ((status, _), tx) \<leftarrow> loop_call junk SetLedCmd (True, ()) (make_loopback False);
         Some (status = SC_Ok \<and> lb_device tx)
       }),
      (''call: multi-return, no arguments'', do {
         ((status, a, b, _), tx) \<leftarrow> loop_call junk StatsCmd () (make_loopback False);
         Some (status = SC_Ok \<and> a = - 42 \<and> b = FP 0x3FC00000)
       }),
      (''call: unknown opcode'', do {
         ((status, a, b, _), tx) \<leftarrow> loop_call junk UnregisteredCmd () (make_loopback False);
         Some (status = SC_UnknownCommand)
       }),
      (''call: transport error'', do {
         ((status, sum, _), tx) \<leftarrow> call (stack_array junk kMaxPayload) (stack_array junk kMaxPacket) dead_send dead_await AddCmd (1, 2, ()) ();
         Some (status = SC_TransportError)
       }),
      (''call: span round trip'', do {
         (_, inp) \<leftarrow> push_back 4 (InlineArray_init 4 0) 0x0101;
         (_, inp) \<leftarrow> push_back 4 inp 0x0202;
         (_, inp) \<leftarrow> push_back 4 inp 0x0303;
         ((status, out, _), tx) \<leftarrow> loop_call junk EchoWordsCmd (inp, ()) (make_loopback False);
         same \<leftarrow> array_eq out inp;
         Some (status = SC_Ok \<and> same)
       })]"

lemma loop_ok_make [simp]: "loop_ok (\<lambda>_. True) (make_loopback dev)" "lb_device (make_loopback dev) = dev"
  by (simp_all add: loop_ok_def make_loopback_def Frame_init_def)

lemma host_calls:
  assumes "handler_contract d sa sr fn (\<lambda>_. True)" "map_of test_servers (def_opcode d) = Some (answer sa sr fn)" "valid sa a"
    and "fn (canon sa a) dev = Some ((SC_Ok, r), dev')"
  shows "\<exists>t'. loop_call junk d a (make_loopback dev) = Some ((SC_Ok, canon sr r), t') \<and> lb_device t' = dev'"
  using loopback_call [OF host_tests.service_axioms assms(1,2) _ assms(3), of "make_loopback dev"
      "stack_array junk kMaxPayload" "stack_array junk kMaxPayload" "stack_array junk kMaxPacket"] assms(4)
  by auto

lemma unregistered_call:
  "\<exists>t'. loop_call junk UnregisteredCmd () (make_loopback dev) =
    Some ((SC_UnknownCommand, tuple_init (RetsTuple UnregisteredCmd)), t')"
proof -
  have con: "contract UnregisteredCmd tnil_spec stats_fields"
    using stats.contract_axioms by (simp add: contract_def contract_axioms_def UnregisteredCmd_def)
  have rm: "remote (loop_send host_test_table (stack_array junk kMaxPayload)) loop_await (serve test_servers kMaxPayload) lb_device
      (loop_ok (\<lambda>_. True)) UnregisteredCmd tnil_spec stats_fields"
    by (intro remote.intro loopback_link host_tests.service_axioms con length_stack_array)
  have "fst (serve test_servers kMaxPayload (request UnregisteredCmd tnil_spec ()) dev) = [SC_UnknownCommand]"
    by (simp add: serve_def request_def UnregisteredCmd_def test_servers_def)
  then show ?thesis
    using remote.call_served [OF rm, of "()" "make_loopback dev" "stack_array junk kMaxPayload" "stack_array junk kMaxPacket"]
    by (auto simp: result_of_def status_codes codec_sel tnil_spec_def)
qed

lemma dead_call:
  "call (stack_array junk kMaxPayload) (stack_array junk kMaxPacket) dead_send dead_await AddCmd (1, 2, ()) ()
    = Some ((SC_TransportError, tuple_init (RetsTuple AddCmd)), ())"
  using add.call_request_wire [of "(1, 2, ())" "stack_array junk kMaxPayload" "stack_array junk kMaxPacket"]
  by (simp add: call_def dead_send_def codec_sel)

lemma host_tests_pass: "list_all (\<lambda>(name, t). t = Some True) (host_tests junk)"
proof -
  obtain t1 where t1: "loop_call junk AddCmd (20, 22, ()) (make_loopback False) = Some ((SC_Ok, 42, ()), t1)"
    using host_calls [OF add.handler_contract_axioms, of "(20, 22, ())" False] by (auto simp: test_defs test_servers_def codec_sel)
  obtain t2 where t2: "loop_call junk SetLedCmd (True, ()) (make_loopback False) = Some ((SC_Ok, ()), t2)" "lb_device t2"
    using host_calls [OF set_led.handler_contract_axioms, of "(True, ())" False] by (auto simp: test_defs test_servers_def codec_sel)
  obtain t3 where t3: "loop_call junk StatsCmd () (make_loopback False) = Some ((SC_Ok, - 42, FP 0x3FC00000, ()), t3)"
    using host_calls [OF stats.handler_contract_axioms, of "()" False] by (auto simp: test_defs test_servers_def codec_sel stats_def)
  let ?in = "array_of 4 0 [0x0101, 0x0202, 0x0303] :: 16 word InlineArray"
  have push: "push_back 4 (InlineArray_init 4 0) (0x0101 :: 16 word) = Some (True, array_of 4 0 [0x0101])"
      "push_back 4 (array_of 4 0 [0x0101]) (0x0202 :: 16 word) = Some (True, array_of 4 0 [0x0101, 0x0202])"
      "push_back 4 (array_of 4 0 [0x0101, 0x0202]) (0x0303 :: 16 word) = Some (True, ?in)"
    by code_simp+
  have same: "array_eq ?in ?in = Some True" by code_simp
  obtain t4 where t4: "loop_call junk EchoWordsCmd (?in, ()) (make_loopback False) = Some ((SC_Ok, ?in, ()), t4)"
    using host_calls [OF echo_words.handler_contract_axioms, of "(?in, ())" False]
    by (auto simp: test_defs test_servers_def codec_sel array_of_ok)
  obtain r t5 where t5: "loop_call junk UnregisteredCmd () (make_loopback False) = Some ((SC_UnknownCommand, r), t5)"
    using unregistered_call by blast
  show ?thesis
    by (simp add: host_tests_def t1 t2 t3 t4 t5 push same dead_call split: prod.splits)
qed

end
