(* ===== verification/TestStream.thy ===== *)
theory TestStream
  imports TestHost
begin

text \<open>
  The tests of the streams, \<open>src/tests/test_stream.cpp\<close>: what \<open>StreamWriter\<close> writes is decoded and
  dispatched to handlers that capture what they are given. A \<open>REQUIRE\<close> that fails ends the test
  case, which is the outcome \<open>None\<close>.
\<close>

type_synonym imu = "32 word fp \<times> 32 word fp \<times> 32 word fp \<times> unit"
type_synonym fault = "byte \<times> 16 word \<times> unit"

definition ImuStream :: "imu StreamDef" where
  "ImuStream = \<lparr>stream_opcode = 0x01, stream_fields = tcons float_codec (tcons float_codec (tcons float_codec tnil))\<rparr>"

definition FaultStream :: "fault StreamDef" where
  "FaultStream = \<lparr>stream_opcode = 0x80, stream_fields = tcons u8_codec (tcons u16_codec tnil)\<rparr>"

definition HeartbeatStream :: "unit StreamDef" where
  "HeartbeatStream = \<lparr>stream_opcode = 0x10, stream_fields = tnil\<rparr>"

record Captures =
  g_imu :: "(32 word \<times> imu) option"
  g_fault :: "(32 word \<times> fault) option"
  g_beat :: "32 word option"

definition no_captures :: Captures where
  "no_captures = \<lparr>g_imu = None, g_fault = None, g_beat = None\<rparr>"

definition on_imu :: "(Captures, imu) StreamHandler" where "on_imu counter xs g = g\<lparr>g_imu := Some (counter, xs)\<rparr>"
definition on_fault :: "(Captures, fault) StreamHandler" where "on_fault counter xs g = g\<lparr>g_fault := Some (counter, xs)\<rparr>"
definition on_beat :: "(Captures, unit) StreamHandler" where "on_beat counter xs g = g\<lparr>g_beat := Some counter\<rparr>"

definition test_streams :: "Captures StreamEntry list" where
  "test_streams = [stream ImuStream on_imu, stream FaultStream on_fault]"

text \<open>A stream packet is written and its frame decoded.\<close>

definition stream_frame :: "(nat \<Rightarrow> byte) \<Rightarrow> 'f StreamDef \<Rightarrow> 32 word \<Rightarrow> 'f \<Rightarrow> Frame option" where
  "stream_frame junk d counter xs =
     do {
       ((st, len), wire) \<leftarrow>
         StreamWriter_write (stack_array junk kMaxPayload) d (stack_array junk kMaxPacket) kMaxPacket counter xs;
       n \<leftarrow> size_sub len 1;
       ((dst, crc), f) \<leftarrow> decode_region wire n Frame_init;
       if st = Frame_Ok \<and> dst = Frame_Ok then Some f else None
     }"

context stream_contract
begin

lemma stream_frame_of:
  assumes "valid sf xs"
  shows "stream_frame junk d counter xs = Some (frame_of MT_Stream (stream_payload d sf counter xs))"
proof -
  let ?sp = "stream_payload d sf counter xs"
  have n: "length ?sp \<le> 250" using payload_bound [OF assms, of counter] by (simp add: kMaxPayload_def)
  obtain pl where pl: "StreamWriter_write (stack_array junk kMaxPayload) d (stack_array junk kMaxPacket) kMaxPacket counter xs =
        encode_frame MT_Stream (Some pl) (of_nat (length ?sp)) (stack_array junk kMaxPacket) kMaxPacket"
      "payload_valid (Some pl) (of_nat (length ?sp))" "payload_bytes (Some pl) (of_nat (length ?sp)) = ?sp"
    using write_frames [OF assms, of "stack_array junk kMaxPayload" kMaxPacket "stack_array junk kMaxPacket" counter] by auto
  obtain wire crc where "encode_frame MT_Stream (Some pl) (of_nat (length ?sp)) (stack_array junk kMaxPacket) kMaxPacket
      = Some ((Frame_Ok, length ?sp + 6), wire)"
      "decode_region wire (length ?sp + 5) Frame_init = Some ((Frame_Ok, crc), frame_of MT_Stream ?sp)"
    using encode_decode [OF pl(2,3) n] by blast
  moreover have "size_sub (length ?sp + 6) 1 = Some (length ?sp + 5)" by (simp add: size_sub_def)
  ultimately show ?thesis
    by (simp add: stream_frame_def pl(1) del: size_sub_Some One_nat_def)
qed

end

abbreviation "float_field \<equiv> float_spec :: 32 word fp Spec"
abbreviation "imu_fields \<equiv> tcons_spec float_field (tcons_spec float_field (tcons_spec float_field tnil_spec))"
abbreviation "fault_fields \<equiv> tcons_spec u8_field (tcons_spec u16_field tnil_spec)"

lemma stream_packs:
  "pack (tcons float_codec (tcons float_codec (tcons float_codec tnil))) imu_fields"
  "pack (tcons u8_codec (tcons u16_codec tnil)) fault_fields"
  by (intro tcons_packI u8.codec_axioms u16.codec_axioms flt.codec_axioms nil_pack.pack_axioms)+

lemmas stream_defs = ImuStream_def FaultStream_def HeartbeatStream_def

interpretation imu: stream_contract ImuStream imu_fields
  by (simp add: stream_contract_def stream_contract_axioms_def stream_defs codec_sel stream_packs
      kStreamHeaderSize_def kStreamCounterSize_def kMaxPayload_def)

interpretation fault: stream_contract FaultStream fault_fields
  by (simp add: stream_contract_def stream_contract_axioms_def stream_defs codec_sel stream_packs
      kStreamHeaderSize_def kStreamCounterSize_def kMaxPayload_def)

interpretation heartbeat: stream_contract HeartbeatStream tnil_spec
  by (simp add: stream_contract_def stream_contract_axioms_def stream_defs codec_sel nil_pack.pack_axioms
      kStreamHeaderSize_def kStreamCounterSize_def kMaxPayload_def)

definition imu_round_trip_checks :: "Frame \<Rightarrow> bool option" where
  "imu_round_trip_checks f = do {
     p0 \<leftarrow> mem_read (payload f) 0;
     (hit, g) \<leftarrow> dispatch_stream_array test_streams f no_captures;
     Some (ftype f = MT_Stream \<and> p0 = 0x01 \<and> hit \<and>
       g_imu g = Some (42, FP 0x3FC00000, FP 0xC0200000, FP 0x40400000, ()))
   }"

definition fault_layout_checks :: "Frame \<Rightarrow> bool option" where
  "fault_layout_checks f = do {
     bytes \<leftarrow> prefix_of (payload f) 8;
     Some (bytes = [0x80, 0x04, 0x03, 0x02, 0x01, 0xAB, 0xEF, 0xBE] \<and> unat (flength f) = kStreamHeaderSize + 1 + 2)
   }"

definition fault_dispatch_checks :: "Frame \<Rightarrow> bool option" where
  "fault_dispatch_checks f = do {
     (hit, g) \<leftarrow> dispatch_stream_array test_streams f no_captures;
     Some (hit \<and> g_fault g = Some (7, 0x05, 0x1234, ()))
   }"

definition heartbeat_checks :: "Frame \<Rightarrow> bool option" where
  "heartbeat_checks f = do {
     (hit, g) \<leftarrow> dispatch_stream_array [stream HeartbeatStream on_beat] f no_captures;
     Some (unat (flength f) = kStreamHeaderSize \<and> hit \<and> g_beat g = Some 99)
   }"

text \<open>A frame made by hand: an opcode and a length, zeros otherwise.\<close>

definition refused :: "byte \<Rightarrow> byte \<Rightarrow> bool option" where
  "refused opc len = do {
     pl \<leftarrow> mem_write (payload Frame_init) 0 opc;
     (hit, g) \<leftarrow> dispatch_stream_array test_streams (Frame_init\<lparr>ftype := MT_Stream, payload := pl, flength := len\<rparr>) no_captures;
     Some (\<not> hit)
   }"

definition stream_tests :: "(nat \<Rightarrow> byte) \<Rightarrow> (string \<times> bool option) list" where
  "stream_tests junk =
     [(''stream: round trip through write and dispatch'',
        stream_frame junk ImuStream 42 (FP 0x3FC00000, FP 0xC0200000, FP 0x40400000, ()) \<bind> imu_round_trip_checks),
      (''stream: wire layout is [opcode | counter LE | fields]'',
        stream_frame junk FaultStream 0x01020304 (0xAB, 0xBEEF, ()) \<bind> fault_layout_checks),
      (''stream: status-as-opcode dispatches like any other'',
        stream_frame junk FaultStream 7 (0x05, 0x1234, ()) \<bind> fault_dispatch_checks),
      (''stream: unknown opcode is not dispatched'', refused 0x99 (of_nat kStreamHeaderSize)),
      (''stream: body too short for the counter is rejected'', refused 0x01 3),
      (''stream: truncated fields are rejected'', refused 0x01 (of_nat (kStreamHeaderSize + 4))),
      (''stream: empty-field stream round trip'', stream_frame junk HeartbeatStream 99 () \<bind> heartbeat_checks)]"

lemma stream_checks_pass:
  "imu_round_trip_checks (frame_of MT_Stream (stream_payload ImuStream imu_fields 42 (FP 0x3FC00000, FP 0xC0200000, FP 0x40400000, ()))) = Some True"
  "fault_layout_checks (frame_of MT_Stream (stream_payload FaultStream fault_fields 0x01020304 (0xAB, 0xBEEF, ()))) = Some True"
  "fault_dispatch_checks (frame_of MT_Stream (stream_payload FaultStream fault_fields 7 (0x05, 0x1234, ()))) = Some True"
  "refused 0x99 5 = Some True" "refused 0x01 3 = Some True" "refused 0x01 9 = Some True"
  "heartbeat_checks (frame_of MT_Stream (stream_payload HeartbeatStream tnil_spec 99 ())) = Some True"
  by code_simp+

lemma stream_tests_pass: "list_all (\<lambda>(name, t). t = Some True) (stream_tests junk)"
  by (simp add: stream_tests_def imu.stream_frame_of fault.stream_frame_of heartbeat.stream_frame_of stream_checks_pass codec_sel
      tnil_spec_def [symmetric] kStreamHeaderSize_def kStreamCounterSize_def)

end
