(* ===== verification/PyCore.thy ===== *)
theory PyCore
  imports Reader
begin

text \<open>
  The Python bindings of the core functions: \<open>register_crc16\<close>, \<open>register_cobs\<close> and
  \<open>register_framing\<close> of \<open>src/bindings/eup_core_pybind.hpp\<close> (the framing ones again in
  \<open>src/bindings/eup_pybind.hpp\<close>). A \<open>bytes\<close> argument is a byte list; the exception a binding
  throws is the left of its result (\<open>PyException\<close> is one that Python code raised), and \<open>None\<close> is
  a memory fault. (\<open>feed\<close> is in \<open>Reader\<close>.)
\<close>

section \<open>The code\<close>

datatype PyError = ValueError | TypeError | PyException

definition py_crc16_ccitt_update :: "16 word \<Rightarrow> byte list \<Rightarrow> 16 word option" where
  "py_crc16_ccitt_update crc data = crc16_ccitt_update crc data (length data)"

definition py_cobs_encode :: "byte list \<Rightarrow> (PyError + byte list) option" where
  "py_cobs_encode s =
     do {
       let dst = replicate (cobs_max_encoded_size (length s)) 0;
       ((st, len), dst) \<leftarrow> cobs_encode s (length s) dst (length dst);
       Some (if st \<noteq> Cobs_Ok then Inl ValueError else Inr (take len dst))
     }"

definition py_cobs_decode :: "byte list \<Rightarrow> (PyError + byte list) option" where
  "py_cobs_decode s =
     do {
       let dst = replicate (length s + 1) 0;
       ((st, len), dst) \<leftarrow> cobs_decode s (length s) dst (length dst);
       Some (if st \<noteq> Cobs_Ok then Inl ValueError else Inr (take len dst))
     }"

text \<open>The payload's size is cast to \<open>uint8_t\<close>; the uninitialised \<open>wire\<close> is \<open>wire0\<close>.\<close>

definition py_encode_frame :: "buf \<Rightarrow> MessageType \<Rightarrow> byte list \<Rightarrow> (PyError + byte list) option" where
  "py_encode_frame wire0 type p =
     do {
       ((st, len), wire) \<leftarrow> encode_frame type (Some p) (of_nat (length p)) wire0 kMaxPacket;
       Some (if st \<noteq> Frame_Ok then Inl ValueError else Inr (take len wire))
     }"

definition py_decode_region :: "byte list \<Rightarrow> (PyError + Frame) option" where
  "py_decode_region r =
     do {
       ((st, crc), f) \<leftarrow> decode_region r (length r) Frame_init;
       Some (if st \<noteq> Frame_Ok then Inl ValueError else Inr f)
     }"

definition py_frame_payload :: "Frame \<Rightarrow> byte list" where
  "py_frame_payload f = take (unat (flength f)) (payload f)"

section \<open>Properties\<close>

text \<open>The COBS bindings are total inverses: encoding never raises, its result holds no zero,
  and decoding it returns the data.\<close>

lemma py_cobs_roundtrip:
  "\<exists>e. py_cobs_encode s = Some (Inr e) \<and> 0 \<notin> set e \<and> py_cobs_decode e = Some (Inr s)"
proof -
  let ?e = "cobs_encoding s"
  have fits: "length ?e \<le> cobs_max_encoded_size (length s)" by (rule length_cobs_encoding_le)
  have "cobs_encode s (length s) (replicate (cobs_max_encoded_size (length s)) 0) (cobs_max_encoded_size (length s))
      = Some ((Cobs_Ok, length ?e), blit 0 ?e (replicate (cobs_max_encoded_size (length s)) 0))"
    using cobs_io.enc_ok [of "length s" s] fits by simp
  then have "py_cobs_encode s = Some (Inr ?e)"
    by (simp add: py_cobs_encode_def Let_def) (simp add: blit_def)
  moreover have "length s \<le> length ?e" using length_cobs_unblock [OF cobs_io.uncode_code [of s]] by linarith
  then have "cobs_decode ?e (length ?e) (replicate (length ?e + 1) 0) (length ?e + 1)
      = Some ((Cobs_Ok, length s), blit 0 s (replicate (length ?e + 1) 0))"
    using cobs_io.dec_ok [of "length ?e" ?e "length ?e + 1" "replicate (length ?e + 1) 0" s]
    by (simp add: cobs_io.uncode_code)
  then have "py_cobs_decode ?e = Some (Inr s)"
    by (simp add: py_cobs_decode_def Let_def) (simp add: blit_def)
  ultimately show ?thesis using cobs_io.code_no_zero by blast
qed

text \<open>C40: what \<open>encode_frame\<close> returns to Python for every payload length. Up to 250 bytes it is
  the packet; but the length is reduced modulo 256 before the check, so that of a payload of
  256 bytes or more only the first \<open>length mod 256\<close> bytes are sent, without an error, unless
  the remainder is above 250.\<close>

theorem py_encode_frame_lengths:
  assumes "length wire0 = kMaxPacket"
  shows "py_encode_frame wire0 type p = Some
    (if length p mod 256 > kMaxPayload then Inl ValueError
     else Inr (frame_wire type (take (length p mod 256) p)))"
proof -
  let ?len = "of_nat (length p) :: byte" and ?n = "length p mod 256"
  have n: "unat ?len = ?n" by (simp add: unat_of_nat)
  have w0: "length wire0 = 256" "256 \<le> length wire0" using assms by (simp_all add: kMaxPacket_def)
  have valid: "payload_valid (Some p) ?len" "payload_bytes (Some p) ?len = take ?n p"
    using n by (simp_all add: payload_valid_def payload_bytes_def)
  obtain w where w: "encode_frame type (Some p) ?len wire0 256 =
      Some (if ?n > 250 then (PayloadTooLarge, 0) else if 256 < ?n + 6 then (BufferTooSmall, 0)
            else (Frame_Ok, ?n + 6), w)"
      "?n \<le> 250 \<and> ?n + 6 \<le> 256 \<longrightarrow> w = blit 0 (frame_wire type (take ?n p)) wire0"
    using encode_frame_result [of ?len "Some p" 256 wire0 type] valid w0 n by auto
  show ?thesis
  proof (cases "?n > 250")
    case True
    then show ?thesis using w(1) by (simp add: py_encode_frame_def frame_consts)
  next
    case False
    then have "length (frame_wire type (take ?n p)) = ?n + 6" by (simp add: length_frame_wire)
    then have "take (?n + 6) (blit 0 (frame_wire type (take ?n p)) wire0) = frame_wire type (take ?n p)"
      by (simp add: blit_def)
    then show ?thesis using False w by (simp add: py_encode_frame_def frame_consts)
  qed
qed

theorem py_encode_frame_lengths_witness:
  "py_encode_frame (replicate 256 0) MT_Command (replicate 257 7) = Some
    (if length (replicate 257 (7 :: byte)) mod 256 > kMaxPayload then Inl ValueError
     else Inr (frame_wire MT_Command (take (length (replicate 257 (7 :: byte)) mod 256) (replicate 257 7))))"
  by (rule py_encode_frame_lengths) (simp add: kMaxPacket_def)

end
