(* ===== verification/PyValues.thy ===== *)
theory PyValues
  imports PyCore Span
begin

text \<open>
  The type casters of \<open>src/bindings/eup_pybind.hpp\<close>: \<open>InlineString<N>\<close> to and from \<open>bytes\<close>,
  \<open>InlineArray<T, N>\<close> to a list and from a sequence. The Python objects and the C API that the
  casters call are outside the repository: a record of functions on a type \<open>'o\<close> of objects, whose
  documented laws are the locale \<open>python\<close>. The caster of an element is pybind11's, a parameter
  too. \<open>value\<close>, the caster's target, is passed in and returned.
\<close>

section \<open>The objects\<close>

text \<open>\<open>PyBytes_Check\<close>, \<open>PyBytes_AsStringAndSize\<close> (\<open>None\<close>: it fails), \<open>bytes(...)\<close>,
  \<open>isinstance<sequence>\<close>, \<open>isinstance<str>\<close>, \<open>len\<close>, iteration (the items, then what it raises, if
  anything), and the making of a list.\<close>

record 'o Python =
  bytes_check :: "'o \<Rightarrow> bool"
  bytes_data :: "'o \<Rightarrow> byte list option"
  bytes_new :: "byte list \<Rightarrow> 'o"
  sequence_check :: "'o \<Rightarrow> bool"
  str_check :: "'o \<Rightarrow> bool"
  seq_len :: "'o \<Rightarrow> PyError + nat"
  seq_items :: "'o \<Rightarrow> 'o list \<times> PyError option"
  list_new :: "'o list \<Rightarrow> 'o"

locale python =
  fixes py :: "'o Python"
  assumes new_bytes: "bytes_check py (bytes_new py bs)" "bytes_data py (bytes_new py bs) = Some bs"
    and new_list: "sequence_check py (list_new py os)" "\<not> str_check py (list_new py os)"
      "\<not> bytes_check py (list_new py os)" "seq_len py (list_new py os) = Inr (length os)"
      "seq_items py (list_new py os) = (os, None)"

section \<open>The casters\<close>

fun string_load_loop :: "nat \<Rightarrow> byte list \<Rightarrow> InlineString \<Rightarrow> InlineString option" where
  "string_load_loop N [] value = Some value"
| "string_load_loop N (b # buf) value =
     do { (_, value) \<leftarrow> push_back N value b; string_load_loop N buf value }"

definition string_load :: "nat \<Rightarrow> 'o Python \<Rightarrow> 'o \<Rightarrow> InlineString \<Rightarrow> (bool \<times> InlineString) option" where
  "string_load N py src value =
     (if \<not> bytes_check py src then Some (False, value)
      else case bytes_data py src of
        None \<Rightarrow> Some (False, value)
      | Some buf \<Rightarrow>
          if length buf > N then Some (False, value)
          else do { value \<leftarrow> string_load_loop N buf (clear value); Some (True, value) })"

text \<open>\<open>bytes(data, size)\<close> reads \<open>size\<close> bytes.\<close>

definition string_cast :: "'o Python \<Rightarrow> InlineString \<Rightarrow> 'o option" where
  "string_cast py s =
     (if isize s \<le> length (idata s) then Some (bytes_new py (take (isize s) (idata s))) else None)"

fun array_load_loop ::
  "nat \<Rightarrow> ('o \<Rightarrow> bool \<Rightarrow> 'a option) \<Rightarrow> bool \<Rightarrow> 'o list \<Rightarrow> PyError option \<Rightarrow> 'a InlineArray \<Rightarrow>
   ((PyError + bool) \<times> 'a InlineArray) option" where
  "array_load_loop N conv convert [] raised value =
     Some (case raised of None \<Rightarrow> (Inr True, value) | Some e \<Rightarrow> (Inl e, value))"
| "array_load_loop N conv convert (item # items) raised value =
     (case conv item convert of
        None \<Rightarrow> Some (Inr False, value)
      | Some x \<Rightarrow> do {
          (_, value) \<leftarrow> push_back N value x;
          array_load_loop N conv convert items raised value
        })"

definition array_load ::
  "nat \<Rightarrow> 'o Python \<Rightarrow> ('o \<Rightarrow> bool \<Rightarrow> 'a option) \<Rightarrow> 'o \<Rightarrow> bool \<Rightarrow> 'a InlineArray \<Rightarrow>
   ((PyError + bool) \<times> 'a InlineArray) option" where
  "array_load N py conv src convert value =
     (if \<not> sequence_check py src \<or> str_check py src \<or> bytes_check py src then Some (Inr False, value)
      else case seq_len py src of
        Inl e \<Rightarrow> Some (Inl e, value)
      | Inr n \<Rightarrow>
          if n > N then Some (Inr False, value)
          else case seq_items py src of (items, raised) \<Rightarrow>
            array_load_loop N conv convert items raised (clear value))"

function array_cast_loop :: "('a \<Rightarrow> 'o) \<Rightarrow> 'a InlineArray \<Rightarrow> nat \<Rightarrow> 'o list \<Rightarrow> 'o list option" where
  "array_cast_loop cast a i out =
     (if i < isize a then do {
        x \<leftarrow> mem_read (idata a) i;
        array_cast_loop cast a (i + 1) (out @ [cast x])
      } else Some out)"
  by pat_completeness auto
termination by (relation "measure (\<lambda>(cast, a, i, out). isize a - i)") auto

declare array_cast_loop.simps [simp del]

definition array_cast :: "'o Python \<Rightarrow> ('a \<Rightarrow> 'o) \<Rightarrow> 'a InlineArray \<Rightarrow> 'o option" where
  "array_cast py cast a = do { out \<leftarrow> array_cast_loop cast a 0 []; Some (list_new py out) }"

section \<open>What the casters do\<close>

text \<open>Both loops append, and stop growing at the capacity.\<close>

lemma elems_bound: "array_ok N a \<Longrightarrow> length (elems a) \<le> N" "array_ok N a \<Longrightarrow> take N (elems a) = elems a"
  by (auto simp: array_ok_def elems_def)

lemma push_back_take:
  assumes "array_ok N v"
  shows "\<exists>b v'. push_back N v x = Some (b, v') \<and> array_ok N v' \<and> elems v' = take N (elems v @ [x])"
proof -
  obtain v' where "push_back N v x = Some (isize v < N, v')" "array_ok N v'"
      "elems v' = (if isize v < N then elems v @ [x] else elems v)"
    using push_back_elems [OF assms] by blast
  moreover have "length (elems v) = isize v" "isize v \<le> N"
    using length_elems [OF assms] assms by (simp, simp add: array_ok_def)
  ultimately show ?thesis by auto
qed

lemma take_append_take: "take n (take n xs @ ys) = take n (xs @ ys)"
  by (simp add: min_def)

lemma string_load_loop_elems:
  "array_ok N v \<Longrightarrow> \<exists>v'. string_load_loop N bs v = Some v' \<and> array_ok N v' \<and> elems v' = take N (elems v @ bs)"
proof (induction bs arbitrary: v)
  case (Cons b bs)
  obtain c v1 where v1: "push_back N v b = Some (c, v1)" "array_ok N v1" "elems v1 = take N (elems v @ [b])"
    using push_back_take [OF Cons.prems] by blast
  show ?case using Cons.IH [OF v1(2)] v1(1,3) take_append_take [of N "elems v @ [b]" bs] by auto
qed (simp add: elems_bound)

text \<open>The items that were yielded convert one and all, or loading stops at the first that does not.\<close>

definition all_convert :: "('o \<Rightarrow> bool \<Rightarrow> 'a option) \<Rightarrow> bool \<Rightarrow> 'o list \<Rightarrow> bool" where
  "all_convert conv convert items \<longleftrightarrow> list_all (\<lambda>item. conv item convert \<noteq> None) items"

definition converted :: "('o \<Rightarrow> bool \<Rightarrow> 'a option) \<Rightarrow> bool \<Rightarrow> 'o list \<Rightarrow> 'a list" where
  "converted conv convert items = map (\<lambda>item. the (conv item convert)) items"

lemma array_load_loop_exact:
  assumes "array_ok N v"
  shows "\<exists>v'. array_load_loop N conv convert items raised v =
      Some (if all_convert conv convert items then case raised of None \<Rightarrow> Inr True | Some e \<Rightarrow> Inl e else Inr False, v') \<and>
    array_ok N v' \<and> (all_convert conv convert items \<longrightarrow> elems v' = take N (elems v @ converted conv convert items))"
  using assms
proof (induction items arbitrary: v)
  case Nil
  then show ?case by (cases raised) (simp_all add: all_convert_def converted_def elems_bound)
next
  case (Cons item items)
  show ?case
  proof (cases "conv item convert")
    case None
    then show ?thesis using Cons.prems by (simp add: all_convert_def)
  next
    case (Some x)
    obtain b v1 where v1: "push_back N v x = Some (b, v1)" "array_ok N v1" "elems v1 = take N (elems v @ [x])"
      using push_back_take [OF Cons.prems] by blast
    then show ?thesis
      using Cons.IH [OF v1(2)] Some take_append_take [of N "elems v @ [x]" "converted conv convert items"]
      by (auto simp: all_convert_def converted_def)
  qed
qed

text \<open>The outcome of loading an array, case by case.\<close>

lemma array_load_exact:
  assumes "array_ok N v"
  shows "\<exists>r v'. array_load N py conv src convert v = Some (r, v') \<and> array_ok N v' \<and>
    (let items = fst (seq_items py src); raised = snd (seq_items py src);
         tried = sequence_check py src \<and> \<not> str_check py src \<and> \<not> bytes_check py src;
         yielded = (\<exists>n. seq_len py src = Inr n \<and> n \<le> N) \<and> all_convert conv convert items
     in (r = Inr True \<longleftrightarrow> tried \<and> yielded \<and> raised = None) \<and>
        (\<forall>e. r = Inl e \<longleftrightarrow> tried \<and> (seq_len py src = Inl e \<or> yielded \<and> raised = Some e)) \<and>
        (r = Inr True \<longrightarrow> elems v' = take N (converted conv convert items)))"
proof -
  have cl: "array_ok N (clear v)" "elems (clear v) = []" using array_ok_clear [OF assms] by simp_all
  from array_load_loop_exact [OF cl(1), of conv convert "fst (seq_items py src)" "snd (seq_items py src)"]
  show ?thesis
    using assms cl(2)
    by (cases "seq_len py src"; cases "snd (seq_items py src)"; cases "all_convert conv convert (fst (seq_items py src))")
       (auto simp: array_load_def Let_def split: prod.splits)
qed

lemma array_cast_loop_elems:
  "\<lbrakk>array_ok N a; i \<le> isize a\<rbrakk> \<Longrightarrow>
   array_cast_loop cast a i out = Some (out @ map cast (drop i (elems a)))"
proof (induction "isize a - i" arbitrary: i out)
  case 0
  then show ?case by (subst array_cast_loop.simps) (simp add: array_ok_def elems_def)
next
  case (Suc k)
  then have i: "i < isize a" "i < length (elems a)" by simp_all
  then have "drop i (elems a) = idata a ! i # drop (Suc i) (elems a)"
    using Suc.prems by (simp add: Cons_nth_drop_Suc [symmetric] elems_def)
  then show ?case using i Suc.prems Suc.hyps(1) [of "Suc i"] Suc.hyps(2)
    by (subst array_cast_loop.simps) (simp add: array_ok_def)
qed

lemma array_cast_elems: "array_ok N a \<Longrightarrow> array_cast py cast a = Some (list_new py (map cast (elems a)))"
  using array_cast_loop_elems [of N a 0 cast "[]"] by (simp add: array_cast_def)

lemma string_cast_elems: "array_ok N s \<Longrightarrow> string_cast py s = Some (bytes_new py (elems s))"
  by (simp add: string_cast_def array_ok_def elems_def)

lemma string_load_bytes:
  assumes "array_ok N v"
  shows "\<exists>v'. string_load N py src v = Some (bytes_check py src \<and> (case bytes_data py src of None \<Rightarrow> False | Some bs \<Rightarrow> length bs \<le> N), v') \<and>
    array_ok N v' \<and>
    (\<forall>bs. bytes_check py src \<and> bytes_data py src = Some bs \<and> length bs \<le> N \<longrightarrow> elems v' = bs)"
proof (cases "bytes_data py src")
  case None
  then show ?thesis using assms by (simp add: string_load_def)
next
  case (Some bs)
  have cl: "array_ok N (clear v)" "elems (clear v) = []" using array_ok_clear [OF assms] by simp_all
  obtain v' where "string_load_loop N bs (clear v) = Some v'" "array_ok N v'" "elems v' = take N bs"
    using string_load_loop_elems [OF cl(1), of bs] cl(2) by auto
  then show ?thesis using Some assms by (simp add: string_load_def)
qed

context python
begin

lemma string_roundtrip:
  assumes "array_ok N s" "array_ok N v"
  shows "\<exists>src v'. string_cast py s = Some src \<and> string_load N py src v = Some (True, v') \<and>
    array_ok N v' \<and> elems v' = elems s"
proof -
  have "length (elems s) \<le> N" using elems_bound(1) [OF assms(1)] .
  then show ?thesis
    using string_load_bytes [OF assms(2), of py "bytes_new py (elems s)"] string_cast_elems [OF assms(1)] new_bytes
    by auto
qed

lemma array_roundtrip:
  assumes "array_ok N a" "array_ok N v" "\<And>x. x \<in> set (elems a) \<Longrightarrow> conv (cast x) c = Some x"
  shows "\<exists>src v'. array_cast py cast a = Some src \<and> array_load N py conv src c v = Some (Inr True, v') \<and>
    array_ok N v' \<and> elems v' = elems a"
proof -
  have "all_convert conv c (map cast (elems a))" "converted conv c (map cast (elems a)) = elems a"
    using assms(3) by (auto simp: all_convert_def converted_def list_all_iff intro: map_idI)
  then show ?thesis
    using array_load_exact [OF assms(2), of py conv "list_new py (map cast (elems a))" c] elems_bound [OF assms(1)]
    by (auto simp: array_cast_elems [OF assms(1)] new_list Let_def)
qed

end

section \<open>A Python\<close>

text \<open>Enough of Python to run the casters; it meets the laws.\<close>

datatype PyObj = PyInt int | PyBytes "byte list" | PyStr string | PyList "PyObj list"

definition cpython :: "PyObj Python" where
  "cpython = \<lparr>
     bytes_check = (\<lambda>x. case x of PyBytes _ \<Rightarrow> True | _ \<Rightarrow> False),
     bytes_data = (\<lambda>x. case x of PyBytes bs \<Rightarrow> Some bs | _ \<Rightarrow> None),
     bytes_new = PyBytes,
     sequence_check = (\<lambda>x. case x of PyInt _ \<Rightarrow> False | _ \<Rightarrow> True),
     str_check = (\<lambda>x. case x of PyStr _ \<Rightarrow> True | _ \<Rightarrow> False),
     seq_len = (\<lambda>x. case x of PyList os \<Rightarrow> Inr (length os) | PyBytes bs \<Rightarrow> Inr (length bs)
       | PyStr s \<Rightarrow> Inr (length s) | PyInt _ \<Rightarrow> Inl TypeError),
     seq_items = (\<lambda>x. case x of PyList os \<Rightarrow> (os, None) | PyBytes bs \<Rightarrow> (map (PyInt \<circ> uint) bs, None)
       | PyStr s \<Rightarrow> (map (\<lambda>c. PyStr [c]) s, None) | PyInt _ \<Rightarrow> ([], Some TypeError)),
     list_new = PyList\<rparr>"

interpretation cpython: python cpython
  by unfold_locales (simp_all add: cpython_def)

fun py_uint :: "PyObj \<Rightarrow> bool \<Rightarrow> 'a::len word option" where
  "py_uint (PyInt k) convert = (if 0 \<le> k \<and> k < 2 ^ LENGTH('a) then Some (word_of_int k) else None)"
| "py_uint x convert = None"

lemma py_uint_cast: "py_uint (PyInt (uint u)) c = Some u"
  using uint_lt2p [of u] by simp

section \<open>Properties\<close>

text \<open>The casters are inverse to each other: a string cast to \<open>bytes\<close> loads back with the same
  bytes, an array cast to a list loads back with the same elements, whatever the target held,
  for every Python that keeps the laws and every element caster that loads what it casts.\<close>

lemma span_casters_roundtrip:
  assumes "python py" "array_ok N s" "array_ok N v" "array_ok M a" "array_ok M u"
    and "\<And>x. x \<in> set (elems a) \<Longrightarrow> conv (cast x) convert = Some x"
  shows "(\<exists>src v'. string_cast py s = Some src \<and> string_load N py src v = Some (True, v') \<and>
      array_ok N v' \<and> elems v' = elems s) \<and>
    (\<exists>src u'. array_cast py cast a = Some src \<and> array_load M py conv src convert u = Some (Inr True, u') \<and>
      array_ok M u' \<and> elems u' = elems a)"
  using python.string_roundtrip [OF assms(1-3)] python.array_roundtrip [OF assms(1,4,5), of conv cast convert] assms(6)
  by blast

text \<open>C37: loading a span from any object at all, however it behaves, is total and never leaves the array.
  A string is loaded exactly from \<open>bytes\<close> of at most the capacity. An array is loaded exactly when
  the object is a sequence but neither \<open>str\<close> nor \<open>bytes\<close>, its \<open>len\<close> is at most the capacity, and all
  that it yields converts and nothing is raised; loading raises exactly what \<open>len\<close> raises or, when all that
  was yielded converts, what the iteration raises; it is refused otherwise. What the array then holds
  are the converted items in order, the first \<open>M\<close> of them: of a sequence that yields more than
  its \<open>len\<close> the surplus is lost silently.\<close>

theorem span_loads_safe:
  assumes "array_ok N v" "array_ok M u"
  shows "(\<exists>v'. string_load N py src v = Some (bytes_check py src \<and>
        (case bytes_data py src of None \<Rightarrow> False | Some bs \<Rightarrow> length bs \<le> N), v') \<and> array_ok N v' \<and>
      (\<forall>bs. bytes_check py src \<and> bytes_data py src = Some bs \<and> length bs \<le> N \<longrightarrow> elems v' = bs)) \<and>
    (\<exists>r u'. array_load M py conv seq convert u = Some (r, u') \<and> array_ok M u' \<and>
      (let items = fst (seq_items py seq); raised = snd (seq_items py seq);
           tried = sequence_check py seq \<and> \<not> str_check py seq \<and> \<not> bytes_check py seq;
           yielded = (\<exists>n. seq_len py seq = Inr n \<and> n \<le> M) \<and> list_all (\<lambda>item. conv item convert \<noteq> None) items
       in (r = Inr True \<longleftrightarrow> tried \<and> yielded \<and> raised = None) \<and>
          (\<forall>e. r = Inl e \<longleftrightarrow> tried \<and> (seq_len py seq = Inl e \<or> yielded \<and> raised = Some e)) \<and>
          (r = Inr True \<longrightarrow> elems u' = take M (map (\<lambda>item. the (conv item convert)) items))))"
  using string_load_bytes [OF assms(1), of py src]
    array_load_exact [OF assms(2), of py conv seq convert, unfolded all_convert_def converted_def]
  by (rule conjI)

text \<open>Two bytes fill a string of capacity 2, and a list of two integers an array; a \<open>str\<close>, though a
  sequence, is refused as an array, and so is a list of three.\<close>

theorem span_loads_safe_witness:
  "(\<exists>v'. string_load 2 cpython (PyBytes [104, 105]) (array_of 2 0 [7]) = Some (True, v') \<and> elems v' = [104, 105]) \<and>
    (\<exists>u'. array_load 2 cpython (py_uint :: PyObj \<Rightarrow> bool \<Rightarrow> 16 word option) (PyList [PyInt 1, PyInt 500]) True (array_of 2 0 [7]) =
      Some (Inr True, u') \<and> elems u' = [1, 500]) \<and>
    (\<exists>u'. array_load 2 cpython (py_uint :: PyObj \<Rightarrow> bool \<Rightarrow> 16 word option) (PyStr ''hi'') True (array_of 2 0 [7]) = Some (Inr False, u')) \<and>
    (\<exists>u'. array_load 2 cpython (py_uint :: PyObj \<Rightarrow> bool \<Rightarrow> 16 word option) (PyList [PyInt 1, PyInt 2, PyInt 3]) True (array_of 2 0 [7]) =
      Some (Inr False, u'))"
proof (intro conjI)
  have b: "array_ok 2 (array_of 2 0 [7 :: byte])" and w: "array_ok 2 (array_of 2 0 [7 :: 16 word])" by (simp_all add: array_of_ok)
  note load = span_loads_safe [OF b w, where py = cpython and convert = True and conv = "py_uint :: PyObj \<Rightarrow> bool \<Rightarrow> 16 word option"]
  show "\<exists>v'. string_load 2 cpython (PyBytes [104, 105]) (array_of 2 0 [7]) = Some (True, v') \<and> elems v' = [104, 105]"
    using load [of "PyBytes [104, 105]"] by (auto simp: cpython_def)
  show "\<exists>u'. array_load 2 cpython (py_uint :: PyObj \<Rightarrow> bool \<Rightarrow> 16 word option) (PyList [PyInt 1, PyInt 500]) True (array_of 2 0 [7]) =
      Some (Inr True, u') \<and> elems u' = [1, 500]"
    using load [of _ "PyList [PyInt 1, PyInt 500]"] by (auto simp: cpython_def Let_def)
  have refused: "r = Inr False" if "r \<noteq> Inr True" "\<forall>e. r \<noteq> Inl e" for r :: "PyError + bool"
    using that by (cases r) (auto intro: ccontr)
  show "\<exists>u'. array_load 2 cpython (py_uint :: PyObj \<Rightarrow> bool \<Rightarrow> 16 word option) (PyStr ''hi'') True (array_of 2 0 [7]) = Some (Inr False, u')"
    using load [of _ "PyStr ''hi''"] refused by (fastforce simp: cpython_def Let_def)
  show "\<exists>u'. array_load 2 cpython (py_uint :: PyObj \<Rightarrow> bool \<Rightarrow> 16 word option) (PyList [PyInt 1, PyInt 2, PyInt 3]) True (array_of 2 0 [7]) =
      Some (Inr False, u')"
    using load [of _ "PyList [PyInt 1, PyInt 2, PyInt 3]"] refused by (fastforce simp: cpython_def Let_def)
qed

end
