(* ===== verification/PyDevice.thy ===== *)
theory PyDevice
  imports PyValues DeviceApp
begin

text \<open>
  The Python host: the stream registry and the class \<open>Device\<close> of
  \<open>src/bindings/eup_pybind.hpp\<close>. Python is outside the repository: the transport object's
  \<open>read\<close>, its \<open>write\<close>, the call of a callback and the conversion of fields to objects are
  parameters of the definitions. \<open>read\<close> and \<open>write\<close> work on a transport state \<open>'io\<close>; a callback works
  on the whole device, with a state \<open>'w\<close> of its own in it, so that it may poll, register other
  callbacks or call commands while the device is at work. The refinement here is for \<open>plain\<close>
  callbacks, which leave the device alone; \<open>Reentrant\<close> is about the others. A raised exception is
  the left of a result.
\<close>

section \<open>The stream registry\<close>

type_synonym 'o py_args = "32 word \<times> 'o list"

record 'o StreamDecoder =
  sd_name :: string
  sd_decode :: "Frame \<Rightarrow> (PyError + 'o py_args) option"

type_synonym 'o registry = "byte \<rightharpoonup> 'o StreamDecoder"

definition decode_stream :: "'f StreamDef \<Rightarrow> ('f \<Rightarrow> 'o list) \<Rightarrow> Frame \<Rightarrow> (PyError + 'o py_args) option" where
  "decode_stream d to_py f =
     do {
       bodyLen \<leftarrow> size_sub (unat (flength f)) 1;
       (ok, off, counter) \<leftarrow> decode_one u32_codec (payload f) 1 bodyLen 0 0;
       if \<not> ok then Some (Inl ValueError)
       else do {
         room \<leftarrow> size_sub bodyLen off;
         (ok, fields) \<leftarrow> decode_tuple (stream_fields d) (payload f) (1 + off) room (tuple_init (stream_fields d));
         if \<not> ok then Some (Inl ValueError) else Some (Inr (counter, to_py fields))
       }
     }"

definition bind_stream :: "'f StreamDef \<Rightarrow> ('f \<Rightarrow> 'o list) \<Rightarrow> string \<Rightarrow> 'o registry \<Rightarrow> 'o registry" where
  "bind_stream d to_py name reg =
     reg(stream_opcode d \<mapsto> \<lparr>sd_name = name, sd_decode = decode_stream d to_py\<rparr>)"

section \<open>The class\<close>

record ('io, 'w, 'cb) PyDevice =
  io :: 'io
  world :: 'w
  reader :: FrameReader
  callbacks :: "string \<rightharpoonup> 'cb"
  pending :: buf
  pending_pos :: nat

type_synonym 'io py_read = "int \<Rightarrow> 'io \<Rightarrow> (PyError + buf option) \<times> 'io"
type_synonym 'io py_write = "buf \<Rightarrow> 'io \<Rightarrow> (PyError + unit) \<times> 'io"
type_synonym ('w, 'cb, 'o) py_call = "'cb \<Rightarrow> 'o py_args \<Rightarrow> 'w \<Rightarrow> (PyError + unit) \<times> 'w"

text \<open>A callback is an arbitrary Python object: it may use the device it was registered on (\<open>poll\<close>,
  \<open>on\<close>, a command), so that it acts on the whole device, and it need not return.\<close>

type_synonym ('io, 'w, 'cb, 'o) py_callback =
  "'cb \<Rightarrow> 'o py_args \<Rightarrow> ('io, 'w, 'cb) PyDevice \<Rightarrow> ((PyError + unit) \<times> ('io, 'w, 'cb) PyDevice) option"

text \<open>A plain callback returns and leaves the device alone.\<close>

definition plain :: "('w, 'cb, 'o) py_call \<Rightarrow> ('io, 'w, 'cb, 'o) py_callback" where
  "plain cl cb args dev = (case cl cb args (world dev) of (r, w) \<Rightarrow> Some (r, dev\<lparr>world := w\<rparr>))"

definition PyDevice_init :: "'io \<Rightarrow> 'w \<Rightarrow> ('io, 'w, 'cb) PyDevice" where
  "PyDevice_init t w = \<lparr>io = t, world = w, reader = FrameReader_init, callbacks = Map.empty,
     pending = [], pending_pos = 0\<rparr>"

definition dev_send_command ::
  "'io py_write \<Rightarrow> buf \<Rightarrow> nat \<Rightarrow> ('io, 'w, 'cb) PyDevice \<Rightarrow> (PyError + bool) \<times> ('io, 'w, 'cb) PyDevice" where
  "dev_send_command wr wire len dev =
     (case wr (take len wire) (io dev) of
        (Inl e, t) \<Rightarrow> (Inl e, dev\<lparr>io := t\<rparr>)
      | (Inr _, t) \<Rightarrow> (Inr True, dev\<lparr>io := t\<rparr>))"

definition on :: "string \<Rightarrow> 'cb \<Rightarrow> ('io, 'w, 'cb) PyDevice \<Rightarrow> ('io, 'w, 'cb) PyDevice" where
  "on name cb dev = dev\<lparr>callbacks := (callbacks dev)(name \<mapsto> cb)\<rparr>"

text \<open>An object that is not \<open>bytes\<close> (\<open>None\<close> here) counts as no data.\<close>

definition read_chunk ::
  "'io py_read \<Rightarrow> int \<Rightarrow> ('io, 'w, 'cb) PyDevice \<Rightarrow> (PyError + buf) \<times> ('io, 'w, 'cb) PyDevice" where
  "read_chunk rd n dev =
     (case rd n (io dev) of
        (Inl e, t) \<Rightarrow> (Inl e, dev\<lparr>io := t\<rparr>)
      | (Inr (Some bs), t) \<Rightarrow> (Inr bs, dev\<lparr>io := t\<rparr>)
      | (Inr None, t) \<Rightarrow> (Inr [], dev\<lparr>io := t\<rparr>))"

text \<open>The byte, or \<open>None\<close> for the \<open>-1\<close> of the code.\<close>

definition take_byte ::
  "('io, 'w, 'cb) PyDevice \<Rightarrow> ((PyError + byte option) \<times> ('io, 'w, 'cb) PyDevice) option" where
  "take_byte dev =
     do {
       b \<leftarrow> mem_read (pending dev) (pending_pos dev);
       Some (Inr (Some b), dev\<lparr>pending_pos := pending_pos dev + 1\<rparr>)
     }"

definition next_byte ::
  "'io py_read \<Rightarrow> ('io, 'w, 'cb) PyDevice \<Rightarrow> ((PyError + byte option) \<times> ('io, 'w, 'cb) PyDevice) option" where
  "next_byte rd dev =
     (if length (pending dev) \<le> pending_pos dev then
        (case read_chunk rd 256 dev of
           (Inl e, dev) \<Rightarrow> Some (Inl e, dev)
         | (Inr bs, dev) \<Rightarrow>
             let dev = dev\<lparr>pending := bs, pending_pos := 0\<rparr>
             in if pending dev = [] then Some (Inr None, dev) else take_byte dev)
      else take_byte dev)"

definition dev_dispatch_stream ::
  "('io, 'w, 'cb, 'o) py_callback \<Rightarrow> 'o registry \<Rightarrow> Frame \<Rightarrow> ('io, 'w, 'cb) PyDevice \<Rightarrow>
   ((PyError + bool) \<times> ('io, 'w, 'cb) PyDevice) option" where
  "dev_dispatch_stream cl reg f dev =
     (if unat (flength f) < 1 then Some (Inr False, dev)
      else do {
        opc \<leftarrow> mem_read (payload f) 0;
        case reg opc of
          None \<Rightarrow> Some (Inr False, dev)
        | Some entry \<Rightarrow>
            (case callbacks dev (sd_name entry) of
               None \<Rightarrow> Some (Inr False, dev)
             | Some cb \<Rightarrow> do {
                 args \<leftarrow> sd_decode entry f;
                 case args of
                   Inl e \<Rightarrow> Some (Inl e, dev)
                 | Inr args \<Rightarrow> do {
                     (res, dev) \<leftarrow> cl cb args dev;
                     case res of Inl e \<Rightarrow> Some (Inl e, dev) | Inr _ \<Rightarrow> Some (Inr True, dev)
                   }
               })
      })"

text \<open>The loop of \<open>await_reply\<close>; it need not end, as long as bytes keep coming.\<close>

partial_function (option) await_loop ::
  "'io py_read \<Rightarrow> ('io, 'w, 'cb, 'o) py_callback \<Rightarrow> 'o registry \<Rightarrow> ('io, 'w, 'cb) PyDevice \<Rightarrow>
   ((PyError + Frame option) \<times> ('io, 'w, 'cb) PyDevice) option" where
  "await_loop rd cl reg dev =
     do {
       (r, dev) \<leftarrow> next_byte rd dev;
       case r of
         Inl e \<Rightarrow> Some (Inl e, dev)
       | Inr None \<Rightarrow> Some (Inr None, dev)
       | Inr (Some b) \<Rightarrow> do {
           (ev, rdr) \<leftarrow> push (reader dev) b;
           let dev = dev\<lparr>reader := rdr\<rparr>;
           if ev = FrameReady then
             let f = frame rdr in
             if ftype f = MT_Reply then Some (Inr (Some f), dev)
             else if ftype f = MT_Stream then do {
               (r, dev) \<leftarrow> dev_dispatch_stream cl reg f dev;
               case r of Inl e \<Rightarrow> Some (Inl e, dev) | Inr _ \<Rightarrow> await_loop rd cl reg dev
             }
             else await_loop rd cl reg dev
           else await_loop rd cl reg dev
         }
     }"

text \<open>The reply is copied into the caller's frame when there is one.\<close>

definition dev_await_reply ::
  "'io py_read \<Rightarrow> ('io, 'w, 'cb, 'o) py_callback \<Rightarrow> 'o registry \<Rightarrow> Frame \<Rightarrow> ('io, 'w, 'cb) PyDevice \<Rightarrow>
   ((PyError + bool) \<times> Frame \<times> ('io, 'w, 'cb) PyDevice) option" where
  "dev_await_reply rd cl reg out dev =
     do {
       (r, dev) \<leftarrow> await_loop rd cl reg dev;
       case r of
         Inl e \<Rightarrow> Some (Inl e, out, dev)
       | Inr None \<Rightarrow> Some (Inr False, out, dev)
       | Inr (Some f) \<Rightarrow> Some (Inr True, f, dev)
     }"

fun poll_loop ::
  "('io, 'w, 'cb, 'o) py_callback \<Rightarrow> 'o registry \<Rightarrow> byte list \<Rightarrow> nat \<Rightarrow> ('io, 'w, 'cb) PyDevice \<Rightarrow>
   ((PyError + nat) \<times> ('io, 'w, 'cb) PyDevice) option" where
  "poll_loop cl reg [] delivered dev = Some (Inr delivered, dev)"
| "poll_loop cl reg (b # s) delivered dev =
     do {
       (ev, rdr) \<leftarrow> push (reader dev) b;
       let dev = dev\<lparr>reader := rdr\<rparr>;
       if ev = FrameReady \<and> ftype (frame rdr) = MT_Stream then do {
         (r, dev) \<leftarrow> dev_dispatch_stream cl reg (frame rdr) dev;
         case r of
           Inl e \<Rightarrow> Some (Inl e, dev)
         | Inr hit \<Rightarrow> poll_loop cl reg s (if hit then delivered + 1 else delivered) dev
       } else poll_loop cl reg s delivered dev
     }"

text \<open>\<open>pending_.substr\<close> raises when the position is beyond the end. The operands of the sum are evaluated
  from left to right; C++ leaves the order open, and \<open>Threads\<close> has both (\<open>poll_orders_agree\<close>: here it makes
  no difference, as long as the position is not beyond the end).\<close>

definition poll ::
  "'io py_read \<Rightarrow> ('io, 'w, 'cb, 'o) py_callback \<Rightarrow> 'o registry \<Rightarrow> int \<Rightarrow> ('io, 'w, 'cb) PyDevice \<Rightarrow>
   ((PyError + nat) \<times> ('io, 'w, 'cb) PyDevice) option" where
  "poll rd cl reg maxBytes dev =
     (if length (pending dev) < pending_pos dev then Some (Inl PyException, dev)
      else case read_chunk rd maxBytes dev of
        (Inl e, dev') \<Rightarrow> Some (Inl e, dev')
      | (Inr bs, dev') \<Rightarrow>
          let chunk = drop (pending_pos dev) (pending dev) @ bs
          in poll_loop cl reg chunk 0 (dev'\<lparr>pending := [], pending_pos := 0\<rparr>))"

section \<open>What the device does with the bytes, on byte lists\<close>

type_synonym 'o reg_spec = "byte \<rightharpoonup> string \<times> (byte list \<Rightarrow> PyError + 'o py_args)"

text \<open>The delivery of one stream payload.\<close>

definition deliver ::
  "('w, 'cb, 'o) py_call \<Rightarrow> 'o reg_spec \<Rightarrow> (string \<rightharpoonup> 'cb) \<Rightarrow> byte list \<Rightarrow> 'w \<Rightarrow> (PyError + bool) \<times> 'w" where
  "deliver cl rs cbs ps w =
     (case ps of [] \<Rightarrow> (Inr False, w)
      | opc # _ \<Rightarrow>
          (case rs opc of None \<Rightarrow> (Inr False, w)
           | Some (name, dec) \<Rightarrow>
               (case cbs name of None \<Rightarrow> (Inr False, w)
                | Some cb \<Rightarrow>
                    (case dec ps of Inl e \<Rightarrow> (Inl e, w)
                     | Inr args \<Rightarrow>
                         (case cl cb args w of (Inl e, w') \<Rightarrow> (Inl e, w') | (Inr _, w') \<Rightarrow> (Inr True, w'))))))"

text \<open>Which callback a stream payload goes to, with which arguments; or the exception its body raises.\<close>

definition recipient ::
  "'o reg_spec \<Rightarrow> (string \<rightharpoonup> 'cb) \<Rightarrow> byte list \<Rightarrow> (PyError + 'cb \<times> 'o py_args) option" where
  "recipient rs cbs ps =
     (case ps of [] \<Rightarrow> None
      | opc # _ \<Rightarrow>
          (case rs opc of None \<Rightarrow> None
           | Some (name, dec) \<Rightarrow> map_option (\<lambda>cb. map_sum (\<lambda>e. e) (Pair cb) (dec ps)) (cbs name)))"

text \<open>The bytes, from what the reader holds: the outcome (an exception, or the reply if one was
  waited for, and the number of streams delivered), the world, what is held, the bytes left.\<close>

fun host_rx ::
  "bool \<Rightarrow> ('w, 'cb, 'o) py_call \<Rightarrow> 'o reg_spec \<Rightarrow> (string \<rightharpoonup> 'cb) \<Rightarrow> held \<Rightarrow> byte list \<Rightarrow> nat \<Rightarrow> 'w \<Rightarrow>
   (PyError + byte list option \<times> nat) \<times> 'w \<times> held \<times> byte list" where
  "host_rx wait cl rs cbs h [] n w = (Inr (None, n), w, h, [])"
| "host_rx wait cl rs cbs h (b # s) n w =
     (if b \<noteq> kDelimiter then host_rx wait cl rs cbs (hold h b) s n w
      else (case region_msg h of
          None \<Rightarrow> host_rx wait cl rs cbs (Some []) s n w
        | Some (t, ps) \<Rightarrow>
            if wait \<and> t = MT_Reply then (Inr (Some ps, n), w, Some [], s)
            else if t = MT_Stream then
              (case deliver cl rs cbs ps w of
                 (Inl e, w') \<Rightarrow> (Inl e, w', Some [], s)
               | (Inr hit, w') \<Rightarrow> host_rx wait cl rs cbs (Some []) s (if hit then n + 1 else n) w')
            else host_rx wait cl rs cbs (Some []) s n w))"

definition decodes :: "'o StreamDecoder \<Rightarrow> (byte list \<Rightarrow> PyError + 'o py_args) \<Rightarrow> bool" where
  "decodes e dec \<longleftrightarrow> (\<forall>f. frame_wf f \<longrightarrow> frame_data f \<noteq> [] \<longrightarrow> sd_decode e f = Some (dec (frame_data f)))"

locale stream_registry =
  fixes reg :: "'o registry" and rs :: "'o reg_spec"
  assumes registered: "rel_option (\<lambda>e (name, dec). sd_name e = name \<and> decodes e dec) (reg opc) (rs opc)"
begin

lemma dispatch_calls:
  assumes "frame_wf f"
  shows "dev_dispatch_stream cl reg f dev =
    (case recipient rs (callbacks dev) (frame_data f) of
       None \<Rightarrow> Some (Inr False, dev)
     | Some (Inl e) \<Rightarrow> Some (Inl e, dev)
     | Some (Inr (cb, args)) \<Rightarrow>
         cl cb args dev \<bind> (\<lambda>(q, dev). Some (map_sum (\<lambda>e. e) (\<lambda>_. True) q, dev)))"
proof (cases "unat (flength f)")
  case 0
  then show ?thesis by (simp add: dev_dispatch_stream_def frame_data_def recipient_def)
next
  case (Suc k)
  have "length (payload f) = 250" using assms by (simp add: frame_wf_def kMaxPayload_def)
  then obtain opc pl where pl: "payload f = opc # pl" by (cases "payload f") auto
  have data: "frame_data f = opc # take k pl" using Suc pl by (simp add: frame_data_def)
  show ?thesis
  proof (cases "reg opc")
    case None
    then have "rs opc = None" using registered [of opc] by simp
    then show ?thesis using None Suc pl data by (simp add: dev_dispatch_stream_def recipient_def mem_read_def)
  next
    case (Some e)
    then obtain dec where "rs opc = Some (sd_name e, dec)" "decodes e dec"
      using registered [of opc] by (cases "rs opc") auto
    moreover from this have "sd_decode e f = Some (dec (frame_data f))"
      using assms data by (simp add: decodes_def)
    ultimately show ?thesis using Some Suc pl data
      by (auto simp: dev_dispatch_stream_def recipient_def mem_read_def fun_eq_iff
          intro!: arg_cong2 [where f = Option.bind] split: option.splits sum.splits)
  qed
qed

lemma dispatch_delivers:
  assumes "frame_wf f"
  shows "dev_dispatch_stream (plain cl) reg f dev =
    Some (case deliver cl rs (callbacks dev) (frame_data f) (world dev) of (r, w) \<Rightarrow> (r, dev\<lparr>world := w\<rparr>))"
  by (auto simp: dispatch_calls [OF assms] recipient_def deliver_def plain_def split: list.splits option.splits sum.splits prod.splits)

end

lemma empty_registry: "stream_registry Map.empty Map.empty"
  by unfold_locales simp

context stream_contract
begin

lemma decode_stream_parse:
  "decodes \<lparr>sd_name = name, sd_decode = decode_stream d to_py\<rparr>
     (\<lambda>ps. case stream_parse sf (tl ps) of None \<Rightarrow> Inl ValueError | Some (c, xs) \<Rightarrow> Inr (c, to_py xs))"
  unfolding decodes_def
proof (intro allI impI)
  fix f assume f: "frame_wf f" "frame_data f \<noteq> []"
  then obtain opc body where data: "frame_data f = opc # body" by (cases "frame_data f") auto
  have "length (frame_data f) = unat (flength f)"
    using f(1) by (simp add: frame_wf_def frame_data_def)
  then have n: "unat (flength f) = Suc (length body)" using data by simp
  note body = frame_data_body [OF f(1) data]
  have thunk: "se_dispatch (stream d (\<lambda>c xs h. Some (c, xs))) (payload f) 1 (length body) None =
      Some (case stream_parse sf body of None \<Rightarrow> (False, None) | Some (counter, xs) \<Rightarrow> (True, Some (counter, xs)))"
    using thunk_parses [OF body(2)] body(1) by simp
  have "decode_stream d to_py f = map_option (\<lambda>(ok, h). case h of None \<Rightarrow> Inl ValueError | Some (c, xs) \<Rightarrow> Inr (c, to_py xs))
      (se_dispatch (stream d (\<lambda>c xs h. Some (c, xs))) (payload f) 1 (length body) None)"
    using n by (auto simp: decode_stream_def stream_def stream_thunk_def split: bind_splits)
  then show "sd_decode \<lparr>sd_name = name, sd_decode = decode_stream d to_py\<rparr> f = Some (case stream_parse sf (tl (frame_data f)) of
      None \<Rightarrow> Inl ValueError | Some (c, xs) \<Rightarrow> Inr (c, to_py xs))"
    using thunk data by (simp split: option.splits)
qed

lemma bind_stream_registered:
  assumes "stream_registry reg rs"
  shows "stream_registry (bind_stream d to_py name reg)
    (rs(stream_opcode d \<mapsto> (name, \<lambda>ps. case stream_parse sf (tl ps) of None \<Rightarrow> Inl ValueError | Some (c, xs) \<Rightarrow> Inr (c, to_py xs))))"
  using assms decode_stream_parse by (simp add: stream_registry_def bind_stream_def)

end

section \<open>\<open>poll\<close> and \<open>await_reply\<close> do it\<close>

context stream_registry
begin

lemma poll_loop_refines:
  "reader_ok (reader dev) \<Longrightarrow>
   \<exists>r dev'. poll_loop (plain cl) reg bs n dev = Some (r, dev') \<and> reader_ok (reader dev') \<and>
     io dev' = io dev \<and> callbacks dev' = callbacks dev \<and> pending dev' = pending dev \<and> pending_pos dev' = pending_pos dev \<and>
     (case host_rx False cl rs (callbacks dev) (reader_holds (reader dev)) bs n (world dev) of
        (res, w, h, rest) \<Rightarrow> r = map_sum (\<lambda>e. e) snd res \<and> world dev' = w \<and> reader_holds (reader dev') = h)"
proof (induction bs arbitrary: n dev)
  case (Cons b s)
  let ?h = "reader_holds (reader dev)"
  show ?case
  proof (cases "b = kDelimiter")
    case False
    then obtain r1 where "push (reader dev) b = Some (NeedMore, r1)" "reader_ok r1" "reader_holds r1 = hold ?h b"
      using reader_more Cons.prems by blast
    then show ?thesis using Cons.IH [of "dev\<lparr>reader := r1\<rparr>" n] False by simp
  next
    case True
    obtain ev r1 where p: "push (reader dev) kDelimiter = Some (ev, r1)" "reader_ok r1" "reader_holds r1 = Some []"
        "case region_msg ?h of None \<Rightarrow> ev \<noteq> FrameReady
         | Some m \<Rightarrow> ev = FrameReady \<and> frame_msg (frame r1) = m \<and> frame_wf (frame r1)"
      using reader_close Cons.prems by blast
    let ?d1 = "dev\<lparr>reader := r1\<rparr>"
    show ?thesis
    proof (cases "region_msg ?h")
      case None
      then show ?thesis using True p Cons.IH [of ?d1 n] by simp
    next
      case (Some m)
      then have f: "ev = FrameReady" "m = (ftype (frame r1), frame_data (frame r1))" "frame_wf (frame r1)"
        using p(4) by (auto simp: frame_msg_def)
      show ?thesis
      proof (cases "ftype (frame r1) = MT_Stream")
        case False
        then show ?thesis using True Some p f Cons.IH [of ?d1 n] by simp
      next
        case st: True
        obtain r w where d: "deliver cl rs (callbacks dev) (frame_data (frame r1)) (world dev) = (r, w)" by force
        then have disp: "dev_dispatch_stream (plain cl) reg (frame r1) ?d1 = Some (r, ?d1\<lparr>world := w\<rparr>)"
          using dispatch_delivers [OF f(3), of cl ?d1] by simp
        show ?thesis using True Some p f st d disp Cons.IH [of "?d1\<lparr>world := w\<rparr>"]
          by (cases r) simp_all
      qed
    qed
  qed
qed simp

end

text \<open>A transport object that hands out the chunks \<open>cs\<close> and then no more for now.\<close>

inductive supplies :: "'io py_read \<Rightarrow> buf list \<Rightarrow> 'io \<Rightarrow> bool" for rd where
  supplies_none: "rd 256 t = (Inr None, t') \<Longrightarrow> supplies rd [] t"
| supplies_empty: "rd 256 t = (Inr (Some []), t') \<Longrightarrow> supplies rd [] t"
| supplies_chunk: "\<lbrakk>rd 256 t = (Inr (Some c), t'); c \<noteq> []; supplies rd cs t'\<rbrakk> \<Longrightarrow> supplies rd (c # cs) t"

inductive_cases suppliesE: "supplies rd cs t"

definition unread :: "('io, 'w, 'cb) PyDevice \<Rightarrow> buf list \<Rightarrow> byte list" where
  "unread dev cs = drop (pending_pos dev) (pending dev) @ concat cs"

lemma take_byte_next:
  assumes "pending_pos dev < length (pending dev)"
  shows "take_byte dev = Some (Inr (Some (pending dev ! pending_pos dev)), dev\<lparr>pending_pos := pending_pos dev + 1\<rparr>)"
    "drop (pending_pos dev) (pending dev) = pending dev ! pending_pos dev # drop (pending_pos dev + 1) (pending dev)"
  using assms by (simp_all add: take_byte_def Cons_nth_drop_Suc)

lemma next_byte_unread:
  assumes "supplies rd cs (io dev)"
  shows "case unread dev cs of
      [] \<Rightarrow> \<exists>t. next_byte rd dev = Some (Inr None, dev\<lparr>io := t, pending := [], pending_pos := 0\<rparr>)
    | b # s \<Rightarrow> \<exists>t p k cs'. next_byte rd dev = Some (Inr (Some b), dev\<lparr>io := t, pending := p, pending_pos := k\<rparr>) \<and>
        supplies rd cs' t \<and> s = drop k p @ concat cs'"
proof (cases "length (pending dev) \<le> pending_pos dev")
  case False
  then have lt: "pending_pos dev < length (pending dev)" by simp
  have "next_byte rd dev = Some (Inr (Some (pending dev ! pending_pos dev)),
      dev\<lparr>io := io dev, pending := pending dev, pending_pos := pending_pos dev + 1\<rparr>)"
    using take_byte_next(1) [OF lt] False by (simp add: next_byte_def)
  moreover have un: "unread dev cs = pending dev ! pending_pos dev # drop (pending_pos dev + 1) (pending dev) @ concat cs"
    using take_byte_next(2) [OF lt] by (simp add: unread_def)
  ultimately show ?thesis unfolding un list.case using assms
    by (intro exI [of _ "io dev"] exI [of _ "pending dev"] exI [of _ "pending_pos dev + 1"] exI [of _ cs]) simp
next
  case True
  from assms show ?thesis
  proof (rule suppliesE)
    fix t' assume "cs = []" "rd 256 (io dev) = (Inr None, t')"
    then show ?thesis using True by (auto simp: unread_def next_byte_def read_chunk_def)
  next
    fix t' assume "cs = []" "rd 256 (io dev) = (Inr (Some []), t')"
    then show ?thesis using True by (auto simp: unread_def next_byte_def read_chunk_def)
  next
    fix c t' cs1 assume c: "cs = c # cs1" "rd 256 (io dev) = (Inr (Some c), t')" "c \<noteq> []" "supplies rd cs1 t'"
    then obtain b c' where bc: "c = b # c'" by (cases c) auto
    have "next_byte rd dev = Some (Inr (Some b), dev\<lparr>io := t', pending := c, pending_pos := 1\<rparr>)"
      using True c(2) bc by (simp add: next_byte_def read_chunk_def take_byte_def mem_read_def)
    moreover have "unread dev cs = b # drop 1 c @ concat cs1" using True c(1) bc by (simp add: unread_def)
    ultimately show ?thesis using c(4) by fastforce
  qed
qed

text \<open>What the loop of \<open>await_reply\<close> does with one byte: an exception, the reply, or \<open>Inr None\<close> to go on.\<close>

definition await_byte ::
  "('io, 'w, 'cb, 'o) py_callback \<Rightarrow> 'o registry \<Rightarrow> byte \<Rightarrow> ('io, 'w, 'cb) PyDevice \<Rightarrow>
   ((PyError + Frame option) \<times> ('io, 'w, 'cb) PyDevice) option" where
  "await_byte cl reg b dev =
     do {
       (ev, rdr) \<leftarrow> push (reader dev) b;
       let dev = dev\<lparr>reader := rdr\<rparr>;
       if ev \<noteq> FrameReady then Some (Inr None, dev)
       else if ftype (frame rdr) = MT_Reply then Some (Inr (Some (frame rdr)), dev)
       else if ftype (frame rdr) = MT_Stream then do {
         (r, dev) \<leftarrow> dev_dispatch_stream cl reg (frame rdr) dev;
         Some (map_sum id (\<lambda>_. None) r, dev)
       }
       else Some (Inr None, dev)
     }"

definition same_line :: "('io, 'w, 'cb) PyDevice \<Rightarrow> ('io, 'w, 'cb) PyDevice \<Rightarrow> bool" where
  "same_line dev' dev \<longleftrightarrow> io dev' = io dev \<and> pending dev' = pending dev \<and> pending_pos dev' = pending_pos dev \<and>
     callbacks dev' = callbacks dev"

lemma await_body:
  "push (reader dev) b \<bind> (\<lambda>(ev, rdr).
     let dev = dev\<lparr>reader := rdr\<rparr> in
     if ev = FrameReady then
       let f = frame rdr in
       if ftype f = MT_Reply then Some (Inr (Some f), dev)
       else if ftype f = MT_Stream then dev_dispatch_stream cl reg f dev \<bind>
         (\<lambda>(r, dev). case r of Inl e \<Rightarrow> Some (Inl e, dev) | Inr _ \<Rightarrow> loop rd cl reg dev)
       else loop rd cl reg dev
     else loop rd cl reg dev) =
   await_byte cl reg b dev \<bind> (\<lambda>(q, dev). case q of Inr None \<Rightarrow> loop rd cl reg dev | _ \<Rightarrow> Some (q, dev))"
proof (cases "push (reader dev) b")
  case (Some p)
  obtain ev rdr where p: "p = (ev, rdr)" by (cases p)
  let ?d = "dev\<lparr>reader := rdr\<rparr>"
  show ?thesis
    by (cases "dev_dispatch_stream cl reg (frame rdr) ?d")
       (auto simp: await_byte_def Some p Let_def split: sum.splits)
qed (simp add: await_byte_def)

lemma await_loop_byte:
  "next_byte rd dev = Some (Inr (Some b), d) \<Longrightarrow>
   await_loop rd cl reg dev =
     await_byte cl reg b d \<bind> (\<lambda>(q, dev). case q of Inr None \<Rightarrow> await_loop rd cl reg dev | _ \<Rightarrow> Some (q, dev))"
  by (subst await_loop.simps) (simp add: await_body)

context stream_registry
begin

text \<open>\<open>await_reply\<close> as long as the transport supplies bytes: it ends, and does what \<open>host_rx\<close>
  says; unless it ends for lack of bytes, every byte after the reply (or after the frame whose
  delivery raised) is still there to be read.\<close>

text \<open>One byte: \<open>Inr None\<close> when the loop goes on.\<close>

lemma await_byte_refines:
  assumes "reader_ok (reader dev)"
  shows "\<exists>q dev'. await_byte (plain cl) reg b dev = Some (q, dev') \<and> reader_ok (reader dev') \<and> same_line dev' dev \<and>
    (case q of Inr (Some f) \<Rightarrow> frame_wf f \<and> ftype f = MT_Reply | _ \<Rightarrow> True) \<and>
    (\<exists>n'. \<forall>s. host_rx True cl rs (callbacks dev) (reader_holds (reader dev)) (b # s) n (world dev) =
      (case q of Inl e \<Rightarrow> (Inl e, world dev', reader_holds (reader dev'), s)
       | Inr (Some f) \<Rightarrow> (Inr (Some (frame_data f), n), world dev', reader_holds (reader dev'), s)
       | Inr None \<Rightarrow> host_rx True cl rs (callbacks dev) (reader_holds (reader dev')) s n' (world dev')))"
proof (cases "b = kDelimiter")
  case False
  then obtain r1 where "push (reader dev) b = Some (NeedMore, r1)" "reader_ok r1" "reader_holds r1 = hold (reader_holds (reader dev)) b"
    using reader_more assms by blast
  then show ?thesis using False by (auto simp: await_byte_def same_line_def)
next
  case True
  obtain ev r1 where p1: "push (reader dev) kDelimiter = Some (ev, r1)" "reader_ok r1" "reader_holds r1 = Some []"
      "case region_msg (reader_holds (reader dev)) of None \<Rightarrow> ev \<noteq> FrameReady
       | Some m \<Rightarrow> ev = FrameReady \<and> frame_msg (frame r1) = m \<and> frame_wf (frame r1)"
    using reader_close assms by blast
  show ?thesis
  proof (cases "region_msg (reader_holds (reader dev))")
    case None
    then show ?thesis using True p1 by (auto simp: await_byte_def same_line_def)
  next
    case (Some m)
    then have f: "ev = FrameReady" "m = (ftype (frame r1), frame_data (frame r1))" "frame_wf (frame r1)"
      using p1(4) by (auto simp: frame_msg_def)
    obtain r w where del: "deliver cl rs (callbacks dev) (frame_data (frame r1)) (world dev) = (r, w)" by force
    then have disp: "dev_dispatch_stream (plain cl) reg (frame r1) (dev\<lparr>reader := r1\<rparr>) = Some (r, dev\<lparr>reader := r1, world := w\<rparr>)"
      using dispatch_delivers [OF f(3), of cl "dev\<lparr>reader := r1\<rparr>"] by simp
    let ?d = "if ftype (frame r1) = MT_Stream then dev\<lparr>reader := r1, world := w\<rparr> else dev\<lparr>reader := r1\<rparr>"
    let ?q = "if ftype (frame r1) = MT_Reply then Inr (Some (frame r1))
      else if ftype (frame r1) = MT_Stream then map_sum id (\<lambda>_. None) r else Inr None"
    have ne: "MT_Stream \<noteq> MT_Reply" by (simp add: message_types)
    have run: "await_byte (plain cl) reg b dev = Some (?q, ?d)"
      using True f(1) p1(1) disp ne by (auto simp: await_byte_def Let_def)
    show ?thesis
      unfolding run option.inject Pair_inject
      using True Some f p1(2,3) del ne
      by (cases r; intro exI [of _ ?q] exI [of _ ?d] conjI refl
          exI [of _ "if ftype (frame r1) = MT_Stream \<and> r = Inr True then n + 1 else n"]; auto simp: same_line_def)
  qed
qed

lemma await_loop_refines:
  "\<lbrakk>reader_ok (reader dev); supplies rd cs (io dev)\<rbrakk> \<Longrightarrow>
   \<exists>r dev'. await_loop rd (plain cl) reg dev = Some (r, dev') \<and> reader_ok (reader dev') \<and> callbacks dev' = callbacks dev \<and>
     (case host_rx True cl rs (callbacks dev) (reader_holds (reader dev)) (unread dev cs) n (world dev) of
        (res, w, h, rest) \<Rightarrow> world dev' = w \<and> reader_holds (reader dev') = h \<and>
          (case res of Inl e \<Rightarrow> r = Inl e \<and> (\<exists>cs'. supplies rd cs' (io dev') \<and> unread dev' cs' = rest)
           | Inr (None, k) \<Rightarrow> r = Inr None
           | Inr (Some ps, k) \<Rightarrow> (\<exists>f. r = Inr (Some f) \<and> frame_wf f \<and> frame_msg f = (MT_Reply, ps)) \<and>
               (\<exists>cs'. supplies rd cs' (io dev') \<and> unread dev' cs' = rest)))"
proof (induction "unread dev cs" arbitrary: dev cs n)
  case Nil
  then obtain t where "next_byte rd dev = Some (Inr None, dev\<lparr>io := t, pending := [], pending_pos := 0\<rparr>)"
    using next_byte_unread [OF Nil.prems(2)] unfolding Nil.hyps [symmetric] by auto
  then have "await_loop rd (plain cl) reg dev = Some (Inr None, dev\<lparr>io := t, pending := [], pending_pos := 0\<rparr>)"
    by (subst await_loop.simps) simp
  then show ?case using Nil by (simp flip: Nil.hyps)
next
  case (Cons b s)
  have bs: "unread dev cs = b # s" using Cons.hyps(2) by simp
  then obtain t p k cs1 where nb: "next_byte rd dev = Some (Inr (Some b), dev\<lparr>io := t, pending := p, pending_pos := k\<rparr>)"
      "supplies rd cs1 t" "s = drop k p @ concat cs1"
    using next_byte_unread [OF Cons.prems(2)] by auto
  let ?d = "dev\<lparr>io := t, pending := p, pending_pos := k\<rparr>"
  have sel: "reader ?d = reader dev" "callbacks ?d = callbacks dev" "world ?d = world dev" by simp_all
  obtain q d1 n' where q: "await_byte (plain cl) reg b ?d = Some (q, d1)" "reader_ok (reader d1)" "same_line d1 ?d"
      "case q of Inr (Some f) \<Rightarrow> frame_wf f \<and> ftype f = MT_Reply | _ \<Rightarrow> True"
      "host_rx True cl rs (callbacks dev) (reader_holds (reader dev)) (b # s) n (world dev) =
        (case q of Inl e \<Rightarrow> (Inl e, world d1, reader_holds (reader d1), s)
         | Inr (Some f) \<Rightarrow> (Inr (Some (frame_data f), n), world d1, reader_holds (reader d1), s)
         | Inr None \<Rightarrow> host_rx True cl rs (callbacks dev) (reader_holds (reader d1)) s n' (world d1))"
    using await_byte_refines [of ?d cl b n, unfolded sel, OF Cons.prems(1)] by blast
  have d1: "supplies rd cs1 (io d1)" "unread d1 cs1 = s" "callbacks d1 = callbacks dev"
    using q(3) nb(2,3) by (simp_all add: same_line_def unread_def)
  have loop: "await_loop rd (plain cl) reg dev = (case q of Inr None \<Rightarrow> await_loop rd (plain cl) reg d1 | _ \<Rightarrow> Some (q, d1))"
    by (simp add: await_loop_byte [OF nb(1)] q(1))
  show ?case
  proof (cases "q = Inr None")
    case True
    show ?thesis using Cons.hyps(1) [OF d1(2) [symmetric] q(2) d1(1), of n', unfolded d1(2,3)]
      unfolding bs loop q(5) True by simp
  next
    case False
    then show ?thesis using loop q(2,4,5) d1 unfolding bs
      by (cases q) (auto simp: frame_msg_def simp del: host_rx.simps split: option.splits)
  qed
qed

end

section \<open>Packets\<close>

lemma host_rx_nonzero:
  "\<lbrakk>0 \<notin> set s; length xs + length s \<le> 255\<rbrakk> \<Longrightarrow>
   host_rx wait cl rs cbs (Some xs) (s @ s') n w = host_rx wait cl rs cbs (Some (xs @ s)) s' n w"
  by (induction s arbitrary: xs) (auto simp: hold_def kDelimiter_def)

lemma host_rx_wire:
  assumes "length ps \<le> 250"
  shows "host_rx wait cl rs cbs (Some []) (frame_wire t ps @ s) n w =
    (if wait \<and> t = MT_Reply then (Inr (Some ps, n), w, Some [], s)
     else if t = MT_Stream then
       (case deliver cl rs cbs ps w of
          (Inl e, w') \<Rightarrow> (Inl e, w', Some [], s)
        | (Inr hit, w') \<Rightarrow> host_rx wait cl rs cbs (Some []) s (if hit then n + 1 else n) w')
     else host_rx wait cl rs cbs (Some []) s n w)"
proof -
  have "length ([] :: byte list) + length (cobs_encoding (frame_raw t ps)) \<le> 255"
    using assms by (simp add: length_cobs_encoding_small)
  from host_rx_nonzero [OF cobs_io.code_no_zero this, of wait cl rs cbs "kDelimiter # s" n w]
  show ?thesis using region_msg_wire [OF assms, of t] by (simp add: frame_wire_def)
qed

definition streams :: "byte list list \<Rightarrow> byte list" where
  "streams xs = concat (map (frame_wire MT_Stream) xs)"

definition deliveries ::
  "('w, 'cb, 'o) py_call \<Rightarrow> 'o reg_spec \<Rightarrow> (string \<rightharpoonup> 'cb) \<Rightarrow> byte list list \<Rightarrow> 'w \<Rightarrow> 'w" where
  "deliveries cl rs cbs xs w = fold (\<lambda>x w. snd (deliver cl rs cbs x w)) xs w"

lemma host_rx_streams:
  assumes "list_all (\<lambda>x. length x \<le> 250) xs" "\<And>x w. x \<in> set xs \<Longrightarrow> \<not> isl (fst (deliver cl rs cbs x w))"
  shows "\<exists>k. host_rx wait cl rs cbs (Some []) (streams xs @ s) n w
    = host_rx wait cl rs cbs (Some []) s k (deliveries cl rs cbs xs w)"
  using assms
proof (induction xs arbitrary: n w)
  case (Cons x xs)
  have ne: "MT_Stream \<noteq> MT_Reply" by (simp add: message_types)
  obtain hit w' where d: "deliver cl rs cbs x w = (Inr hit, w')"
    using Cons.prems(2) [of x w] by (cases "deliver cl rs cbs x w"; cases "fst (deliver cl rs cbs x w)") auto
  have "streams (x # xs) @ s = frame_wire MT_Stream x @ (streams xs @ s)" by (simp add: streams_def)
  then show ?case
    using Cons host_rx_wire [of x wait cl rs cbs MT_Stream "streams xs @ s" n w] d ne
    by (auto simp: deliveries_def)
qed (auto simp: streams_def deliveries_def)

section \<open>The registry of the example's module\<close>

fun telemetry_objects :: "16 word \<times> int \<times> unit \<Rightarrow> PyObj list" where
  "telemetry_objects (adc0, temp_c10, u) = [PyInt (uint adc0), PyInt temp_c10]"

definition app_registry :: "PyObj registry" where
  "app_registry = bind_stream TelemetryStream telemetry_objects ''telemetry'' Map.empty"

abbreviation "telemetry_fields \<equiv> tcons_spec u16_field (tcons_spec (int_spec TYPE(16)) tnil_spec)"

definition app_decoders :: "PyObj reg_spec" where
  "app_decoders = [stream_opcode TelemetryStream \<mapsto>
     (''telemetry'', \<lambda>ps. case stream_parse telemetry_fields (tl ps) of
        None \<Rightarrow> Inl ValueError | Some (c, xs) \<Rightarrow> Inr (c, telemetry_objects xs))]"

interpretation app_reg: stream_registry app_registry app_decoders
  unfolding app_registry_def app_decoders_def
  by (rule telemetry.bind_stream_registered [OF empty_registry])

section \<open>Properties\<close>

text \<open>A transport that has one chunk, a callback that counts, and a device nobody has used.\<close>

definition one_shot :: "byte list \<Rightarrow> nat py_read" where
  "one_shot bs n t = (Inr (Some (if t = 0 then bs else [])), t + 1)"

definition count_call :: "(nat, unit, PyObj) py_call" where
  "count_call cb args w = (Inr (), w + 1)"

definition idle :: "(nat, nat, unit) PyDevice" where
  "idle = PyDevice_init 0 0"

lemma one_shot_supplies: "\<lbrakk>bs \<noteq> []; t = 0\<rbrakk> \<Longrightarrow> supplies (one_shot bs) [bs] t"
  by (rule supplies_chunk [where t' = 1], simp add: one_shot_def, simp, rule supplies_empty [where t' = 2])
     (simp add: one_shot_def)

text \<open>C10: waiting for a reply while the device interleaves streams: every stream packet before the
  reply is delivered to its callback, in order, the reply is handed out, and every byte after
  it stays unread for the next call, however the transport cut the bytes into chunks.\<close>

theorem await_reply_past_streams:
  assumes "stream_registry reg rs" "reader_ok (reader dev)" "reader_holds (reader dev) = Some []"
    and "supplies rd cs (io dev)" "unread dev cs = streams xs @ frame_wire MT_Reply ps @ rest"
    and "list_all (\<lambda>x. length x \<le> kMaxPayload) xs" "length ps \<le> kMaxPayload"
    and "\<And>x w. x \<in> set xs \<Longrightarrow> \<not> isl (fst (deliver cl rs (callbacks dev) x w))"
  shows "\<exists>f dev' cs'. dev_await_reply rd (plain cl) reg out dev = Some (Inr True, f, dev') \<and>
    frame_wf f \<and> frame_msg f = (MT_Reply, ps) \<and>
    world dev' = deliveries cl rs (callbacks dev) xs (world dev) \<and>
    supplies rd cs' (io dev') \<and> unread dev' cs' = rest \<and>
    reader_ok (reader dev') \<and> reader_holds (reader dev') = Some []"
proof -
  have len: "list_all (\<lambda>x. length x \<le> 250) xs" "length ps \<le> 250" using assms(6,7) by (simp_all add: kMaxPayload_def)
  obtain k where k: "host_rx True cl rs (callbacks dev) (Some []) (streams xs @ frame_wire MT_Reply ps @ rest) 0 (world dev) =
      (Inr (Some ps, k), deliveries cl rs (callbacks dev) xs (world dev), Some [], rest)"
    using host_rx_streams [OF len(1) assms(8), of True "frame_wire MT_Reply ps @ rest" 0 "world dev"]
    by (auto simp: host_rx_wire [OF len(2)])
  then show ?thesis
    using stream_registry.await_loop_refines [OF assms(1,2,4), of cl 0] assms(3)
    unfolding assms(5) by (auto simp: dev_await_reply_def)
qed

theorem await_reply_past_streams_witness:
  "\<exists>f dev' cs'. dev_await_reply (one_shot (streams [[9]] @ frame_wire MT_Reply [0] @ [5])) (plain count_call) app_registry Frame_init idle
      = Some (Inr True, f, dev') \<and>
    frame_wf f \<and> frame_msg f = (MT_Reply, [0]) \<and>
    world dev' = deliveries count_call app_decoders (callbacks idle) [[9]] (world idle) \<and>
    supplies (one_shot (streams [[9]] @ frame_wire MT_Reply [0] @ [5])) cs' (io dev') \<and> unread dev' cs' = [5] \<and>
    reader_ok (reader dev') \<and> reader_holds (reader dev') = Some []"
proof (rule await_reply_past_streams [OF app_reg.stream_registry_axioms])
  show "supplies (one_shot (streams [[9]] @ frame_wire MT_Reply [0] @ [5])) [streams [[9]] @ frame_wire MT_Reply [0] @ [5]] (io idle)"
    by (rule one_shot_supplies) (simp_all add: idle_def PyDevice_init_def)
  show "\<not> isl (fst (deliver count_call app_decoders (callbacks idle) x w))" for x w
    by (simp add: deliver_def idle_def PyDevice_init_def split: list.splits option.splits)
qed (simp_all add: idle_def PyDevice_init_def unread_def kMaxPayload_def)

text \<open>C33: \<open>await_reply\<close> ends once the transport supplies nothing more, whatever the bytes were: it
  is memory safe, never over-reads, keeps the reader's invariant, and its result is that of the
  abstract receiver: the first reply, an exception, or \<open>false\<close>; on \<open>false\<close> or an exception the
  caller's frame is untouched.\<close>

theorem await_reply_ends:
  assumes "stream_registry reg rs" "reader_ok (reader dev)" "supplies rd cs (io dev)"
  shows "\<exists>r f dev'. dev_await_reply rd (plain cl) reg out dev = Some (r, f, dev') \<and> reader_ok (reader dev') \<and>
    (case host_rx True cl rs (callbacks dev) (reader_holds (reader dev)) (unread dev cs) 0 (world dev) of
       (res, w, h, rest) \<Rightarrow> world dev' = w \<and> reader_holds (reader dev') = h \<and>
         (case res of Inl e \<Rightarrow> r = Inl e \<and> f = out
          | Inr (None, k) \<Rightarrow> r = Inr False \<and> f = out
          | Inr (Some ps, k) \<Rightarrow> r = Inr True \<and> frame_wf f \<and> frame_msg f = (MT_Reply, ps)))"
proof -
  obtain res w h rest where x: "host_rx True cl rs (callbacks dev) (reader_holds (reader dev)) (unread dev cs) 0 (world dev)
      = (res, w, h, rest)" by (metis prod_cases4)
  note L = stream_registry.await_loop_refines [OF assms, of cl 0, unfolded x prod.case]
  show ?thesis
  proof (cases res)
    case (Inl e)
    then show ?thesis using L unfolding x by (auto simp: dev_await_reply_def)
  next
    case (Inr q)
    then show ?thesis using L unfolding x by (cases q; cases "fst q") (auto simp: dev_await_reply_def)
  qed
qed

theorem await_reply_ends_witness:
  "\<exists>r f dev'. dev_await_reply (one_shot [1, 2, 0]) (plain count_call) app_registry Frame_init idle = Some (r, f, dev') \<and> reader_ok (reader dev') \<and>
    (case host_rx True count_call app_decoders (callbacks idle) (reader_holds (reader idle)) (unread idle [[1, 2, 0]]) 0 (world idle) of
       (res, w, h, rest) \<Rightarrow> world dev' = w \<and> reader_holds (reader dev') = h \<and>
         (case res of Inl e \<Rightarrow> r = Inl e \<and> f = Frame_init
          | Inr (None, k) \<Rightarrow> r = Inr False \<and> f = Frame_init
          | Inr (Some ps, k) \<Rightarrow> r = Inr True \<and> frame_wf f \<and> frame_msg f = (MT_Reply, ps)))"
proof (rule await_reply_ends [OF app_reg.stream_registry_axioms])
  show "supplies (one_shot [1, 2, 0]) [[1, 2, 0]] (io idle)"
    by (rule one_shot_supplies) (simp_all add: idle_def PyDevice_init_def)
qed (simp add: idle_def PyDevice_init_def)

text \<open>C34: \<open>poll\<close> processes what was left over and one fresh read, completely and in order: it
  delivers the streams, counts those that reached a callback, skips everything else, and
  leaves nothing pending. (When a delivery raises, what follows in the chunk is dropped.)\<close>

theorem poll_delivers:
  assumes "stream_registry reg rs" "reader_ok (reader dev)" "pending_pos dev \<le> length (pending dev)"
    and "rd maxBytes (io dev) = (Inr (Some bs), t)"
  shows "\<exists>r dev'. poll rd (plain cl) reg maxBytes dev = Some (r, dev') \<and> io dev' = t \<and> pending dev' = [] \<and>
    reader_ok (reader dev') \<and>
    (case host_rx False cl rs (callbacks dev) (reader_holds (reader dev)) (unread dev [bs]) 0 (world dev) of
       (res, w, h, rest) \<Rightarrow> r = map_sum (\<lambda>e. e) snd res \<and> world dev' = w \<and> reader_holds (reader dev') = h)"
  using stream_registry.poll_loop_refines [OF assms(1), of "dev\<lparr>io := t, pending := [], pending_pos := 0\<rparr>" cl
      "unread dev [bs]" 0] assms(2-4)
  by (auto simp: poll_def read_chunk_def unread_def Let_def)

theorem poll_delivers_witness:
  "\<exists>r dev'. poll (one_shot (streams [[9]])) (plain count_call) app_registry 64 idle = Some (r, dev') \<and> io dev' = 1 \<and> pending dev' = [] \<and>
    reader_ok (reader dev') \<and>
    (case host_rx False count_call app_decoders (callbacks idle) (reader_holds (reader idle)) (unread idle [streams [[9]]]) 0 (world idle) of
       (res, w, h, rest) \<Rightarrow> r = map_sum (\<lambda>e. e) snd res \<and> world dev' = w \<and> reader_holds (reader dev') = h)"
  by (rule poll_delivers [OF app_reg.stream_registry_axioms])
     (simp_all add: idle_def PyDevice_init_def one_shot_def)

end
