(* ===== verification/PyCall.thy ===== *)
theory PyCall
  imports PyDevice
begin

text \<open>
  Commands called from Python: \<open>add_command\<close> and \<open>bind_command\<close> of
  \<open>src/bindings/eup_pybind.hpp\<close>, that is \<open>call\<close> with the class \<open>Device\<close> as its transport. \<open>call\<close>
  is \<open>noexcept\<close>: an exception that one of the two transport methods throws ends the program,
  which is the outcome \<open>None\<close> here, as a memory fault is. The locale \<open>remote_line\<close> is the
  contract of the Python transport object and whatever is behind it: a command written is
  answered, with streams before and after the answer, and what is read is what was put there.
  Under it the class \<open>Device\<close> is a \<open>link\<close>, also when a packet has only partly arrived, and no
  stream packet is lost, whatever the calls and polls.
\<close>

section \<open>The code\<close>

definition py_sender :: "'io py_write \<Rightarrow> ('io, 'w, 'cb) PyDevice Sender" where
  "py_sender wr wire len dev =
     (case dev_send_command wr wire len dev of
        (Inl e, dev) \<Rightarrow> None
      | (Inr sent, dev) \<Rightarrow> Some (sent, dev))"

definition py_awaiter ::
  "'io py_read \<Rightarrow> ('io, 'w, 'cb, 'o) py_callback \<Rightarrow> 'o registry \<Rightarrow> ('io, 'w, 'cb) PyDevice Awaiter" where
  "py_awaiter rd cl reg out dev =
     (case dev_await_reply rd cl reg out dev of
        None \<Rightarrow> None
      | Some (Inl e, out, dev) \<Rightarrow> None
      | Some (Inr got, out, dev) \<Rightarrow> Some (got, out, dev))"

text \<open>The conversion of a tuple, from the casters of its elements: \<open>Some None\<close> when an element, or
  the number of elements, does not fit.\<close>

fun load_nil :: "'o list \<Rightarrow> unit option option" where
  "load_nil [] = Some (Some ())"
| "load_nil (x # xs) = Some None"

fun load_cons ::
  "('o \<Rightarrow> 'a option option) \<Rightarrow> ('o list \<Rightarrow> 't option option) \<Rightarrow> 'o list \<Rightarrow> ('a \<times> 't) option option" where
  "load_cons ld lds [] = Some None"
| "load_cons ld lds (x # xs) =
     do {
       a \<leftarrow> ld x;
       t \<leftarrow> lds xs;
       Some (case a of None \<Rightarrow> None | Some a \<Rightarrow> map_option (Pair a) t)
     }"

fun cast_nil :: "unit \<Rightarrow> 'o list option" where
  "cast_nil () = Some []"

fun cast_cons :: "('a \<Rightarrow> 'o option) \<Rightarrow> ('t \<Rightarrow> 'o list option) \<Rightarrow> 'a \<times> 't \<Rightarrow> 'o list option" where
  "cast_cons cs css (a, t) = do { x \<leftarrow> cs a; xs \<leftarrow> css t; Some (x # xs) }"

type_synonym ('io, 'w, 'cb, 'o) py_method =
  "'o list \<Rightarrow> ('io, 'w, 'cb) PyDevice \<Rightarrow> ((PyError + 'o list) \<times> ('io, 'w, 'cb) PyDevice) option"

text \<open>The method that \<open>add_command\<close> defines: arguments that do not convert are a \<open>TypeError\<close>.\<close>

definition add_command ::
  "buf \<Rightarrow> buf \<Rightarrow> 'io py_write \<Rightarrow> 'io py_read \<Rightarrow> ('io, 'w, 'cb, 'o) py_callback \<Rightarrow> 'o registry \<Rightarrow>
   ('a, 'r) CommandDef \<Rightarrow> ('o list \<Rightarrow> 'a option option) \<Rightarrow> (StatusCode \<times> 'r \<Rightarrow> 'o list option) \<Rightarrow>
   ('io, 'w, 'cb, 'o) py_method" where
  "add_command payload0 wire0 wr rd cl reg d load cast args dev =
     do {
       a \<leftarrow> load args;
       case a of
         None \<Rightarrow> Some (Inl TypeError, dev)
       | Some a \<Rightarrow> do {
           (out, dev) \<leftarrow> call payload0 wire0 (py_sender wr) (py_awaiter rd cl reg) d a dev;
           objs \<leftarrow> cast out;
           Some (Inr objs, dev)
         }
     }"

text \<open>\<open>bind_command\<close> adds the method to the class.\<close>

definition bind_command ::
  "buf \<Rightarrow> buf \<Rightarrow> 'io py_write \<Rightarrow> 'io py_read \<Rightarrow> ('io, 'w, 'cb, 'o) py_callback \<Rightarrow> 'o registry \<Rightarrow>
   ('a, 'r) CommandDef \<Rightarrow> ('o list \<Rightarrow> 'a option option) \<Rightarrow> (StatusCode \<times> 'r \<Rightarrow> 'o list option) \<Rightarrow>
   string \<Rightarrow> (string \<rightharpoonup> ('io, 'w, 'cb, 'o) py_method) \<Rightarrow> (string \<rightharpoonup> ('io, 'w, 'cb, 'o) py_method)" where
  "bind_command payload0 wire0 wr rd cl reg d load cast name cls =
     cls(name \<mapsto> add_command payload0 wire0 wr rd cl reg d load cast)"

section \<open>Streams cut anywhere\<close>

lemma streams_simps [simp]:
  "streams [] = []" "streams (x # xs) = frame_wire MT_Stream x @ streams xs" "streams (xs @ ys) = streams xs @ streams ys"
  by (simp_all add: streams_def)

lemma deliveries_append: "deliveries cl rs cbs (xs @ ys) w = deliveries cl rs cbs ys (deliveries cl rs cbs xs w)"
  by (simp add: deliveries_def)

lemma deliveries_Cons: "deliveries cl rs cbs (x # xs) w = deliveries cl rs cbs xs (snd (deliver cl rs cbs x w))"
  by (simp add: deliveries_def)

lemma host_rx_held:
  assumes "0 \<notin> set h" "length h \<le> 255"
  shows "host_rx wait cl rs cbs (Some h) s n w = host_rx wait cl rs cbs (Some []) (h @ s) n w"
  using host_rx_nonzero [OF assms(1), of "[]" wait cl rs cbs s n w] assms(2) by simp

text \<open>Where a packet starts: what is held before a zero is the region that the zero closes.\<close>

lemma held_prefix:
  assumes "h @ b # s = frame_wire t x @ q" "0 \<notin> set h"
  shows "if b = 0 then h = cobs_encoding (frame_raw t x) \<and> s = q
    else length h < length (cobs_encoding (frame_raw t x))"
proof -
  let ?c = "cobs_encoding (frame_raw t x)"
  have eq: "h @ b # s = ?c @ 0 # q" using assms(1) by (simp add: frame_wire_def kDelimiter_def)
  have c: "0 \<notin> set ?c" by (rule cobs_io.code_no_zero)
  show ?thesis
  proof (cases "b = 0")
    case True
    have "takeWhile (\<lambda>y. y \<noteq> 0) (h @ 0 # s) = h" "takeWhile (\<lambda>y. y \<noteq> 0) (?c @ 0 # q) = ?c"
      using assms(2) c by (auto intro!: takeWhile_eq_all_conv [THEN iffD2] simp: takeWhile_append)
    then have "h = ?c" using eq True by metis
    then show ?thesis using eq True by simp
  next
    case False
    have "length h < length ?c"
    proof (rule ccontr)
      assume "\<not> length h < length ?c"
      then have "length ?c < length (h @ [b])" by simp
      then have "(h @ [b]) ! length ?c = 0" using arg_cong [OF eq, of "\<lambda>l. l ! length ?c"]
        by (simp add: nth_append split: if_splits)
      then have "0 \<in> set (h @ [b])" using \<open>length ?c < length (h @ [b])\<close> by (metis nth_mem)
      then show False using assms(2) False by simp
    qed
    then show ?thesis using False by simp
  qed
qed

lemma host_rx_cut:
  assumes "h @ s @ s' = streams xs" "0 \<notin> set h" "list_all (\<lambda>x. length x \<le> 250) xs"
    and ok: "\<And>x w. x \<in> set xs \<Longrightarrow> \<not> isl (fst (deliver cl rs cbs x w))"
  shows "\<exists>ys zs h' k. xs = ys @ zs \<and> host_rx False cl rs cbs (Some h) s n w = (Inr (None, k), deliveries cl rs cbs ys w, Some h', []) \<and>
    0 \<notin> set h' \<and> h' @ s' = streams zs \<and>
    ((\<forall>x\<in>set xs. \<forall>w. fst (deliver cl rs cbs x w) = Inr True) \<longrightarrow> k = n + length ys)"
  using assms
proof (induction s arbitrary: h xs n w)
  case Nil
  then show ?case by (intro exI [of _ "[]"] exI [of _ xs] exI [of _ h]) (simp add: deliveries_def)
next
  case (Cons b s)
  obtain x xs' where xs: "xs = x # xs'" using Cons.prems(1) by (cases xs) auto
  have x: "length x \<le> 250" "list_all (\<lambda>x. length x \<le> 250) xs'" using Cons.prems(3) xs by simp_all
  have ok': "y \<in> set xs' \<Longrightarrow> \<not> isl (fst (deliver cl rs cbs y v))" for y v using Cons.prems(4) xs by simp
  note p = held_prefix [of h b "s @ s'" MT_Stream x "streams xs'"]
  show ?case
  proof (cases "b = 0")
    case False
    then have "length h < length (cobs_encoding (frame_raw MT_Stream x))"
      using p Cons.prems(1,2) xs by simp
    then have "hold (Some h) b = Some (h @ [b])" using x(1) by (simp add: hold_def length_cobs_encoding_small)
    then show ?thesis using Cons.IH [of "h @ [b]" xs n w] Cons.prems False by (simp add: kDelimiter_def)
  next
    case True
    then have h: "h = cobs_encoding (frame_raw MT_Stream x)" "s @ s' = streams xs'"
      using p Cons.prems(1,2) xs by simp_all
    obtain hit w' where d: "deliver cl rs cbs x w = (Inr hit, w')"
      using Cons.prems(4) [of x w] xs by (cases "deliver cl rs cbs x w"; cases "fst (deliver cl rs cbs x w)") auto
    let ?n = "if hit then n + 1 else n"
    have step: "host_rx False cl rs cbs (Some h) (b # s) n w = host_rx False cl rs cbs (Some []) s ?n w'"
      using True h(1) region_msg_wire [OF x(1), of MT_Stream] d by (simp add: kDelimiter_def)
    have base: "[] @ s @ s' = streams xs'" "0 \<notin> set []" using h(2) by simp_all
    obtain ys zs h' k where "xs' = ys @ zs" "host_rx False cl rs cbs (Some []) s ?n w' = (Inr (None, k), deliveries cl rs cbs ys w', Some h', [])"
        "0 \<notin> set h'" "h' @ s' = streams zs"
        "(\<forall>x\<in>set xs'. \<forall>w. fst (deliver cl rs cbs x w) = Inr True) \<longrightarrow> k = ?n + length ys"
      using Cons.IH [OF base x(2) ok', of ?n w'] by blast
    moreover have "(\<forall>w. fst (deliver cl rs cbs x w) = Inr True) \<longrightarrow> hit" using d by (metis fst_conv sum.inject(2))
    ultimately show ?thesis unfolding step xs using d
      by (intro exI [of _ "x # ys"] exI [of _ zs] exI [of _ h'] exI [of _ k]) (auto simp: deliveries_Cons)
  qed
qed

text \<open>Waiting with a packet partly received: the first reply on the line ends it.\<close>

context stream_registry
begin

lemma await_held:
  assumes "reader_ok (reader dev)" "supplies rd cs (io dev)" "reader_holds (reader dev) = Some h"
    and "h @ unread dev cs = streams xs @ frame_wire MT_Reply ps @ rest"
    and "list_all (\<lambda>x. length x \<le> kMaxPayload) xs" "length ps \<le> kMaxPayload"
    and "\<And>x w. x \<in> set xs \<Longrightarrow> \<not> isl (fst (deliver cl rs (callbacks dev) x w))"
  shows "\<exists>f dev' cs'. await_loop rd (plain cl) reg dev = Some (Inr (Some f), dev') \<and> frame_wf f \<and> frame_msg f = (MT_Reply, ps) \<and>
    reader_ok (reader dev') \<and> callbacks dev' = callbacks dev \<and> reader_holds (reader dev') = Some [] \<and>
    world dev' = deliveries cl rs (callbacks dev) xs (world dev) \<and> supplies rd cs' (io dev') \<and> unread dev' cs' = rest"
proof -
  have h: "0 \<notin> set h" "length h \<le> 255" using reader_ok_held [OF assms(1)] assms(3) by (simp_all add: held_ok_def)
  have len: "list_all (\<lambda>x. length x \<le> 250) xs" "length ps \<le> 250" using assms(5,6) by (simp_all add: kMaxPayload_def)
  obtain k where "host_rx True cl rs (callbacks dev) (Some h) (unread dev cs) 0 (world dev) =
      (Inr (Some ps, k), deliveries cl rs (callbacks dev) xs (world dev), Some [], rest)"
    using host_rx_streams [OF len(1) assms(7), of True "frame_wire MT_Reply ps @ rest" 0 "world dev"]
    by (auto simp: host_rx_held [OF h] assms(4) host_rx_wire [OF len(2)])
  then show ?thesis using await_loop_refines [OF assms(1,2), of cl 0] assms(3) by auto
qed

end

section \<open>What the class keeps while it waits\<close>

lemma next_byte_keeps:
  assumes "next_byte rd dev = Some (r, dev')" "\<And>n t. P t \<Longrightarrow> P (snd (rd n t))"
    and "P (io dev)" "pending_pos dev \<le> length (pending dev)"
  shows "P (io dev') \<and> pending_pos dev' \<le> length (pending dev') \<and> reader dev' = reader dev \<and>
    world dev' = world dev \<and> callbacks dev' = callbacks dev"
  using assms(1,3,4) assms(2) [of "io dev" 256]
  by (auto simp: next_byte_def take_byte_def read_chunk_def Let_def mem_read_def Suc_le_eq
      split: if_splits prod.splits sum.splits option.splits bind_splits)

lemma dispatch_runs:
  assumes "dev_dispatch_stream cl reg f dev = Some (r, dev')"
  shows "dev' = dev \<or> (\<exists>cb args q. cl cb args dev = Some (q, dev'))"
  using assms
  by (auto simp: dev_dispatch_stream_def split: if_splits option.splits sum.splits prod.splits bind_splits)

text \<open>An invariant of the device that its own steps and the callbacks keep.\<close>

lemma await_byte_keeps:
  assumes "await_byte cl reg b dev = Some (q, dev')"
    and "\<And>dev b ev r. \<lbrakk>I dev; push (reader dev) b = Some (ev, r)\<rbrakk> \<Longrightarrow> I (dev\<lparr>reader := r\<rparr>)"
    and "\<And>cb args dev r dev'. \<lbrakk>I dev; cl cb args dev = Some (r, dev')\<rbrakk> \<Longrightarrow> I dev'" and "I dev"
  shows "I dev'"
proof -
  obtain ev rdr where p: "push (reader dev) b = Some (ev, rdr)"
    using assms(1) by (auto simp: await_byte_def split: bind_splits)
  then have d: "I (dev\<lparr>reader := rdr\<rparr>)" using assms(2,4) by blast
  then have "dev_dispatch_stream cl reg f (dev\<lparr>reader := rdr\<rparr>) = Some (r, d2) \<Longrightarrow> I d2" for f r d2
    using dispatch_runs [of cl reg f "dev\<lparr>reader := rdr\<rparr>" r d2] assms(3) by blast
  then show ?thesis using assms(1) d
    by (auto simp: await_byte_def p Let_def split: if_splits bind_splits)
qed

lemma await_loop_keeps:
  assumes "await_loop rd cl reg dev = Some res"
    and "\<And>dev r dev'. \<lbrakk>I dev; next_byte rd dev = Some (r, dev')\<rbrakk> \<Longrightarrow> I dev'"
    and "\<And>dev b ev r. \<lbrakk>I dev; push (reader dev) b = Some (ev, r)\<rbrakk> \<Longrightarrow> I (dev\<lparr>reader := r\<rparr>)"
    and "\<And>cb args dev r dev'. \<lbrakk>I dev; cl cb args dev = Some (r, dev')\<rbrakk> \<Longrightarrow> I dev'" and "I dev"
  shows "I (snd res)"
proof -
  let ?keep = "\<lambda>rd cl. (\<forall>dev r dev'. I dev \<longrightarrow> next_byte rd dev = Some (r, dev') \<longrightarrow> I dev') \<and>
    (\<forall>cb args dev r dev'. I dev \<longrightarrow> cl cb args dev = Some (r, dev') \<longrightarrow> I dev')"
  have "?keep rd cl \<and> I dev \<longrightarrow> I (snd res)"
  proof (rule await_loop.raw_induct [OF _ assms(1)], intro impI, elim conjE, unfold await_body)
    fix loop rd cl reg and dev :: "('a, 'b, 'c) PyDevice" and res
    assume IH: "\<And>rd cl reg dev res. loop rd cl reg dev = Some res \<Longrightarrow> ?keep rd cl \<and> I dev \<longrightarrow> I (snd res)"
      and nxt: "\<forall>dev r dev'. I dev \<longrightarrow> next_byte rd dev = Some (r, dev') \<longrightarrow> I dev'"
      and cbs: "\<forall>cb args dev r dev'. I dev \<longrightarrow> cl cb args dev = Some (r, dev') \<longrightarrow> I dev'" and inv: "I dev"
      and run: "next_byte rd dev \<bind> (\<lambda>(r, dev). case r of
          Inl e \<Rightarrow> Some (Inl e, dev)
        | Inr None \<Rightarrow> Some (Inr None, dev)
        | Inr (Some b) \<Rightarrow> await_byte cl reg b dev \<bind>
            (\<lambda>(q, dev). case q of Inr None \<Rightarrow> loop rd cl reg dev | _ \<Rightarrow> Some (q, dev))) = Some res"
    obtain r d1 where nb: "next_byte rd dev = Some (r, d1)" using run by (cases "next_byte rd dev") auto
    then have d1: "I d1" using nxt inv by blast
    show "I (snd res)"
    proof (cases "\<exists>b. r = Inr (Some b)")
      case False
      then have "snd res = d1" using run nb by (cases r) (auto split: option.splits)
      then show ?thesis using d1 by simp
    next
      case True
      then obtain b q d2 where b: "r = Inr (Some b)" "await_byte cl reg b d1 = Some (q, d2)"
          "(case q of Inr None \<Rightarrow> loop rd cl reg d2 | _ \<Rightarrow> Some (q, d2)) = Some res"
        using run nb by (auto split: bind_splits)
      have d2: "I d2" by (rule await_byte_keeps [where I = I, OF b(2) assms(3) cbs [rule_format] d1])
      show ?thesis
      proof (cases "q = Inr None")
        case True
        then have "loop rd cl reg d2 = Some res" using b(3) by simp
        from mp [OF IH [OF this] conjI [OF conjI [OF nxt cbs] d2]] show ?thesis .
      next
        case False
        then have "res = (q, d2)" using b(3) by (auto split: sum.splits option.splits)
        then show ?thesis using d2 by simp
      qed
    qed
  qed
  moreover have "?keep rd cl" by (intro conjI allI impI) (erule (1) assms(2), erule (1) assms(4))
  ultimately show ?thesis using assms(5) by (iprover intro: conjI)
qed

section \<open>The contract of the transport object\<close>

text \<open>\<open>view\<close> is the state of the device behind the transport, \<open>hist\<close> the payloads of all the
  streams that were ever put on the line; \<open>idle\<close> the states of the transport in which the contract
  holds; \<open>fine\<close> the stream payloads that fit a frame and on which the callbacks \<open>cbs\<close> do not raise,
  and \<open>w0\<close> the first state of the callbacks.\<close>

locale remote_line = stream_registry reg rs
  for reg :: "'o registry" and rs :: "'o reg_spec" +
  fixes rd :: "'io py_read" and wr :: "'io py_write" and cl :: "('w, 'cb, 'o) py_call"
    and cbs :: "string \<rightharpoonup> 'cb" and w0 :: 'w
    and srv :: "byte list \<Rightarrow> 'st \<Rightarrow> byte list \<times> 'st"
    and view :: "'io \<Rightarrow> 'st" and hist :: "'io \<Rightarrow> byte list list" and idle :: "'io \<Rightarrow> bool"
    and fine :: "byte list \<Rightarrow> bool"
  assumes callbacks_return: "fine x \<Longrightarrow> length x \<le> kMaxPayload \<and> \<not> isl (fst (deliver cl rs cbs x w))"
    and line_supplies: "idle t \<Longrightarrow> \<exists>cs. supplies rd cs t"
    and line_answers: "\<lbrakk>idle t; supplies rd cs t; length ps \<le> kMaxPayload\<rbrakk> \<Longrightarrow>
      \<exists>t' cs' xs ys rs'. wr (frame_wire MT_Command ps) t = (Inr (), t') \<and> idle t' \<and> supplies rd cs' t' \<and>
        concat cs' = concat cs @ streams xs @ frame_wire MT_Reply rs' @ streams ys \<and>
        list_all fine (xs @ ys) \<and> hist t' = hist t @ xs @ ys \<and>
        srv ps (view t) = (rs', view t') \<and> 1 \<le> length rs' \<and> length rs' \<le> kMaxPayload"
    and line_reads: "\<lbrakk>idle t; supplies rd cs t\<rbrakk> \<Longrightarrow>
      \<exists>bs t' cs'. rd n t = (Inr (Some bs), t') \<and> supplies rd cs' t' \<and> concat cs = bs @ concat cs'"
    and line_keeps: "idle t \<Longrightarrow> idle (snd (rd n t)) \<and> view (snd (rd n t)) = view t \<and> hist (snd (rd n t)) = hist t"
begin

text \<open>The invariant of the session: what was ever put on the line is what was delivered, in order,
  followed by what is still on its way.\<close>

definition in_step :: "('io, 'w, 'cb) PyDevice \<Rightarrow> buf list \<Rightarrow> byte list \<Rightarrow> byte list list \<Rightarrow> byte list list \<Rightarrow> bool" where
  "in_step dev cs h ys xs \<longleftrightarrow> reader_ok (reader dev) \<and> pending_pos dev \<le> length (pending dev) \<and>
     callbacks dev = cbs \<and> idle (io dev) \<and> supplies rd cs (io dev) \<and>
     reader_holds (reader dev) = Some h \<and> h @ unread dev cs = streams xs \<and>
     hist (io dev) = ys @ xs \<and> list_all fine xs \<and>
     world dev = deliveries cl rs cbs ys w0"

definition session_ok :: "('io, 'w, 'cb) PyDevice \<Rightarrow> bool" where
  "session_ok dev \<longleftrightarrow> (\<exists>cs h ys xs. in_step dev cs h ys xs)"

lemma held: "reader_ok r \<Longrightarrow> reader_holds r = Some h \<Longrightarrow> 0 \<notin> set h \<and> length h \<le> 255"
  using reader_ok_held [of r] by (simp add: held_ok_def)

lemma await_in_step:
  assumes "reader_ok (reader dev)" "pending_pos dev \<le> length (pending dev)" "callbacks dev = cbs"
    and "idle (io dev)" "supplies rd cs (io dev)" "reader_holds (reader dev) = Some h"
    and "h @ unread dev cs = streams xs @ frame_wire MT_Reply ps @ streams zs"
    and "list_all fine (xs @ zs)" "length ps \<le> kMaxPayload"
    and "hist (io dev) = ys @ xs @ zs" "world dev = deliveries cl rs cbs ys w0"
  shows "\<exists>f dev' cs'. dev_await_reply rd (plain cl) reg out dev = Some (Inr True, f, dev') \<and>
    frame_wf f \<and> frame_msg f = (MT_Reply, ps) \<and> in_step dev' cs' [] (ys @ xs) zs \<and> view (io dev') = view (io dev)"
proof -
  have fine: "list_all (\<lambda>x. length x \<le> kMaxPayload) xs" "x \<in> set xs \<Longrightarrow> \<not> isl (fst (deliver cl rs (callbacks dev) x w))"
      "list_all fine zs" for x w
    using assms(3,8) callbacks_return by (auto simp: list_all_iff)
  obtain f dev' cs' where a: "await_loop rd (plain cl) reg dev = Some (Inr (Some f), dev')" "reader_ok (reader dev')"
      "callbacks dev' = cbs" "world dev' = deliveries cl rs cbs xs (world dev)" "reader_holds (reader dev') = Some []"
      "frame_wf f" "frame_msg f = (MT_Reply, ps)" "supplies rd cs' (io dev')" "unread dev' cs' = streams zs"
    using await_held [OF assms(1,5-7) fine(1) assms(9) fine(2)] assms(3) by blast
  let ?P = "\<lambda>t. idle t \<and> view t = view (io dev) \<and> hist t = hist (io dev)"
  let ?I = "\<lambda>d. ?P (io d) \<and> pending_pos d \<le> length (pending d)"
  have P: "?P t \<Longrightarrow> ?P (snd (rd n t))" for n t using line_keeps by auto
  have "?I (snd (Inr (Some f) :: PyError + Frame option, dev'))"
  proof (rule await_loop_keeps [OF a(1), of ?I])
    show "?I d'" if "?I d" "next_byte rd d = Some (r, d')" for d r d'
      using next_byte_keeps [OF that(2), of ?P] that(1) P by blast
  qed (use assms(2,4) in \<open>auto simp: plain_def split: prod.splits\<close>)
  then have keeps: "?P (io dev')" "pending_pos dev' \<le> length (pending dev')" by simp_all
  have "in_step dev' cs' [] (ys @ xs) zs"
    using a keeps assms(10,11) fine(3) by (simp add: in_step_def deliveries_append)
  then show ?thesis using a keeps by (auto simp: dev_await_reply_def)
qed

text \<open>Polling: the streams that are complete by then are delivered.\<close>

lemma poll_in_step:
  assumes "in_step dev cs h ys xs"
  shows "\<exists>bs t cs'. rd n (io dev) = (Inr (Some bs), t) \<and> concat cs = bs @ concat cs' \<and>
    (\<exists>k dev' h' us vs. poll rd (plain cl) reg n dev = Some (Inr k, dev') \<and> xs = us @ vs \<and>
      in_step dev' cs' h' (ys @ us) vs \<and> io dev' = t \<and> unread dev' cs' = concat cs' \<and> view t = view (io dev) \<and>
      ((\<forall>x\<in>set xs. \<forall>w. fst (deliver cl rs cbs x w) = Inr True) \<longrightarrow> k = length us))"
proof -
  have inv: "reader_ok (reader dev)" "pending_pos dev \<le> length (pending dev)" "callbacks dev = cbs"
      "idle (io dev)" "supplies rd cs (io dev)" "reader_holds (reader dev) = Some h"
      "h @ unread dev cs = streams xs" "hist (io dev) = ys @ xs" "list_all fine xs"
      "world dev = deliveries cl rs cbs ys w0"
    using assms by (simp_all add: in_step_def)
  have xs: "list_all (\<lambda>x. length x \<le> 250) xs" "\<And>x w. x \<in> set xs \<Longrightarrow> \<not> isl (fst (deliver cl rs cbs x w))"
    using inv(9) callbacks_return by (auto simp: kMaxPayload_def list_all_iff)
  obtain bs t cs' where rd: "rd n (io dev) = (Inr (Some bs), t)" "supplies rd cs' t" "concat cs = bs @ concat cs'"
    using line_reads [OF inv(4,5)] by blast
  let ?chunk = "drop (pending_pos dev) (pending dev) @ bs" and ?d = "dev\<lparr>io := t, pending := [], pending_pos := 0\<rparr>"
  have "h @ ?chunk @ concat cs' = streams xs" using inv(7) rd(3) by (simp add: unread_def)
  then obtain us vs h' k where cut: "xs = us @ vs" "0 \<notin> set h'" "h' @ concat cs' = streams vs"
      "host_rx False cl rs cbs (Some h) ?chunk 0 (world dev) = (Inr (None, k), deliveries cl rs cbs us (world dev), Some h', [])"
      "(\<forall>x\<in>set xs. \<forall>w. fst (deliver cl rs cbs x w) = Inr True) \<longrightarrow> k = length us"
    using host_rx_cut [OF _ _ xs, of h ?chunk "concat cs'" 0 "world dev"] held [OF inv(1,6)] by fastforce
  obtain dev' where p: "poll_loop (plain cl) reg ?chunk 0 ?d = Some (Inr k, dev')" "reader_ok (reader dev')"
      "io dev' = t" "callbacks dev' = cbs" "pending dev' = []" "pending_pos dev' = 0"
      "world dev' = deliveries cl rs cbs us (world dev)" "reader_holds (reader dev') = Some h'"
    using poll_loop_refines [of ?d cl ?chunk 0] inv(1,3,6) cut(4) by auto
  have "poll rd (plain cl) reg n dev = Some (Inr k, dev')"
    using p(1) inv(2) rd(1) by (simp add: poll_def read_chunk_def Let_def)
  moreover have "idle t" "view t = view (io dev)" "hist t = hist (io dev)"
    using line_keeps [OF inv(4), of n] rd(1) by simp_all
  moreover have un: "unread dev' cs' = concat cs'" using p by (simp add: unread_def)
  ultimately have "in_step dev' cs' h' (ys @ us) vs"
    using rd cut p inv(8-10) by (simp add: in_step_def deliveries_append)
  then show ?thesis
    using rd cut(1,5) p(3) un \<open>poll rd (plain cl) reg n dev = Some (Inr k, dev')\<close> \<open>view t = view (io dev)\<close> by blast
qed

text \<open>A command: sent, answered, the streams before the answer delivered.\<close>

lemma exchange_in_step:
  assumes "in_step dev cs h ys xs" "length ps \<le> kMaxPayload"
    and "take (length (frame_wire MT_Command ps)) wire = frame_wire MT_Command ps"
  shows "\<exists>d1 f d2 cs' us vs rs'. py_sender wr wire (length (frame_wire MT_Command ps)) dev = Some (True, d1) \<and>
    py_awaiter rd (plain cl) reg out d1 = Some (True, f, d2) \<and> frame_wf f \<and> frame_msg f = (MT_Reply, rs') \<and>
    1 \<le> length rs' \<and> srv ps (view (io dev)) = (rs', view (io d2)) \<and> in_step d2 cs' [] (ys @ xs @ us) vs"
proof -
  have inv: "reader_ok (reader dev)" "pending_pos dev \<le> length (pending dev)" "callbacks dev = cbs"
      "idle (io dev)" "supplies rd cs (io dev)" "reader_holds (reader dev) = Some h"
      "h @ unread dev cs = streams xs" "hist (io dev) = ys @ xs" "list_all fine xs"
      "world dev = deliveries cl rs cbs ys w0"
    using assms(1) by (simp_all add: in_step_def)
  obtain t cs' us vs rs' where a: "wr (frame_wire MT_Command ps) (io dev) = (Inr (), t)" "idle t" "supplies rd cs' t"
      "concat cs' = concat cs @ streams us @ frame_wire MT_Reply rs' @ streams vs"
      "list_all fine (us @ vs)" "hist t = hist (io dev) @ us @ vs"
      "srv ps (view (io dev)) = (rs', view t)" "1 \<le> length rs'" "length rs' \<le> kMaxPayload"
    using line_answers [OF inv(4,5) assms(2)] by blast
  let ?d = "dev\<lparr>io := t\<rparr>"
  have "h @ unread ?d cs' = streams (xs @ us) @ frame_wire MT_Reply rs' @ streams vs"
    using inv(7) a(4) by (simp add: unread_def)
  then obtain f d2 cs'' where "dev_await_reply rd (plain cl) reg out ?d = Some (Inr True, f, d2)" "frame_wf f"
      "frame_msg f = (MT_Reply, rs')" "in_step d2 cs'' [] (ys @ xs @ us) vs" "view (io d2) = view t"
    using await_in_step [of ?d cs' h "xs @ us" rs' vs ys out] inv a by auto
  then show ?thesis using a assms(3)
    by (auto simp: py_sender_def py_awaiter_def dev_send_command_def)
qed

lemma session_link: "link (py_sender wr) (py_awaiter rd (plain cl) reg) srv (\<lambda>dev. view (io dev)) session_ok"
proof
  fix dev :: "('io, 'w, 'cb) PyDevice" and ps wire f
  assume "session_ok dev" and ps: "length ps \<le> kMaxPayload" "take (length (frame_wire MT_Command ps)) wire = frame_wire MT_Command ps"
  then obtain cs h ys xs where "in_step dev cs h ys xs" by (auto simp: session_ok_def)
  from exchange_in_step [OF this ps, of f] obtain d1 reply d2 rs' where
    x: "py_sender wr wire (length (frame_wire MT_Command ps)) dev = Some (True, d1)"
      "py_awaiter rd (plain cl) reg f d1 = Some (True, reply, d2)" "frame_wf reply" "frame_msg reply = (MT_Reply, rs')"
      "1 \<le> length rs'" "srv ps (view (io dev)) = (rs', view (io d2))" "session_ok d2"
    unfolding session_ok_def by blast
  then have "ftype reply = MT_Reply" "frame_data reply = rs'" "1 \<le> unat (flength reply)"
    by (auto simp: frame_msg_def frame_data_def)
  then show "\<exists>t1 reply t2. py_sender wr wire (length (frame_wire MT_Command ps)) dev = Some (True, t1) \<and>
      py_awaiter rd (plain cl) reg f t1 = Some (True, reply, t2) \<and> session_ok t2 \<and> frame_wf reply \<and> ftype reply = MT_Reply \<and>
      srv ps (view (io dev)) = (frame_data reply, view (io t2)) \<and> 1 \<le> unat (flength reply)"
    using x by blast
qed

end

sublocale remote_line \<subseteq> py_link: link "py_sender wr" "py_awaiter rd (plain cl) reg" srv "\<lambda>dev. view (io dev)" session_ok
  by (rule session_link)

text \<open>Whatever was asked, the answer is the first reply on the line.\<close>

lemma py_call_takes:
  assumes "contract d sa sr" "valid sa a" "length payload0 = kMaxPayload" "length wire0 = kMaxPacket"
    and "py_sender wr (blit 0 (frame_wire MT_Command (request d sa a)) wire0)
      (length (frame_wire MT_Command (request d sa a))) dev = Some (True, d1)"
    and "py_awaiter rd cl reg Frame_init d1 = Some (True, f, d2)" "frame_wf f" "frame_msg f = (MT_Reply, ps)" "1 \<le> length ps"
  shows "call payload0 wire0 (py_sender wr) (py_awaiter rd cl reg) d a dev = Some (result_of d sr ps, d2)"
proof -
  have f: "ftype f = MT_Reply" "frame_data f = ps" "1 \<le> unat (flength f)"
    using assms(8,9) by (auto simp: frame_msg_def frame_data_def)
  then show ?thesis
    using contract.call_request_wire [OF assms(1-4)] contract.call_reply_result [OF assms(1,7) f(3)] assms(5,6)
    by (simp add: call_def)
qed

text \<open>What was on the line before a call has been delivered when it returns.\<close>

context remote_line
begin

lemma call_flushes:
  assumes con: "contract d sa sr" and a: "valid sa a" and dev: "session_ok dev"
    and len: "length payload0 = kMaxPayload" "length wire0 = kMaxPacket"
    and run: "call payload0 wire0 (py_sender wr) (py_awaiter rd (plain cl) reg) d a dev = Some (out, dev')"
  shows "\<exists>us vs. world dev' = deliveries cl rs cbs (hist (io dev) @ us) w0 \<and> hist (io dev') = hist (io dev) @ us @ vs"
proof -
  let ?ps = "request d sa a" and ?w = "frame_wire MT_Command (request d sa a)"
  obtain cs h ys xs where i: "in_step dev cs h ys xs" using dev by (auto simp: session_ok_def)
  have ps: "length ?ps \<le> kMaxPayload" by (rule contract.request_bound [OF con a])
  have w: "take (length ?w) (blit 0 ?w wire0) = ?w" by (simp add: blit_def)
  obtain d1 f d2 cs' us vs rs' where x: "py_sender wr (blit 0 ?w wire0) (length ?w) dev = Some (True, d1)"
      "py_awaiter rd (plain cl) reg Frame_init d1 = Some (True, f, d2)" "frame_wf f" "frame_msg f = (MT_Reply, rs')"
      "1 \<le> length rs'" "in_step d2 cs' [] (ys @ xs @ us) vs"
    using exchange_in_step [OF i ps w, of Frame_init] by blast
  have "d2 = dev'" using py_call_takes [OF con a len x(1-5)] run by simp
  moreover have "hist (io dev) = ys @ xs" using i by (simp add: in_step_def)
  ultimately show ?thesis using x(6) by (auto simp: in_step_def)
qed

end

text \<open>A method called from Python runs the handler behind the line, once, on the converted
  arguments, and returns its converted result.\<close>

context remote_line
begin

lemma add_command_runs_handler:
  assumes h: "handler_contract d sa sr fn sinv" and dev: "session_ok dev" "sinv (view (io dev))"
    and a: "load args = Some (Some a)" "valid sa a"
    and len: "length payload0 = kMaxPayload" "length wire0 = kMaxPacket"
    and served: "\<And>st. sinv st \<Longrightarrow> srv (request d sa a) st = answer sa sr fn (kMaxPayload - 1) (ser sa a) st"
  shows "\<exists>c r st' dev'. fn (canon sa a) (view (io dev)) = Some ((c, r), st') \<and> sinv st' \<and> valid sr r \<and>
    add_command payload0 wire0 wr rd (plain cl) reg d load cast args dev =
      map_option (\<lambda>objs. (Inr objs, dev')) (cast (c, if c = SC_Ok then canon sr r else tuple_init (RetsTuple d))) \<and>
    session_ok dev' \<and> view (io dev') = st'"
proof -
  have con: "contract d sa sr" using h by (rule handler_contract.axioms)
  have rem: "remote (py_sender wr) (py_awaiter rd (plain cl) reg) srv (\<lambda>dev. view (io dev)) session_ok d sa sr"
    by (intro remote.intro session_link con)
  obtain c r st' dev' where x: "fn (canon sa a) (view (io dev)) = Some ((c, r), st')" "sinv st'"
      "call payload0 wire0 (py_sender wr) (py_awaiter rd (plain cl) reg) d a dev =
        Some ((c, if c = SC_Ok then canon sr r else tuple_init (RetsTuple d)), dev')"
      "session_ok dev'" "view (io dev') = st'"
    using remote.call_runs_handler [OF rem h dev(1) a(2) dev(2) len served] by blast
  have "valid sa (canon sa a)" using pack.canon_valid [OF contract.axioms(1) [OF con] a(2)] by simp
  from handler_contract.handler_total [OF h dev(2) this] have "valid sr r" using x(1) by auto
  then show ?thesis using x a(1)
    by (cases "cast (c, if c = SC_Ok then canon sr r else tuple_init (RetsTuple d))") (auto simp: add_command_def)
qed

end

section \<open>Properties\<close>

text \<open>C17: nothing ties a reply to its command: \<open>call\<close> over the class \<open>Device\<close> takes the first reply on
  the line, whichever command that reply answers. When an earlier call gave up and its reply
  arrives late, the next call, of any command, returns the old reply's status and what its
  bytes decode to, and leaves its own reply on the line for the call after it.\<close>

theorem call_takes_first_reply:
  assumes "stream_registry reg rs" "contract d sa sr" "valid sa a"
    and "length payload0 = kMaxPayload" "length wire0 = kMaxPacket"
    and "reader_ok (reader dev)" "reader_holds (reader dev) = Some h"
    and "wr (frame_wire MT_Command (request d sa a)) (io dev) = (Inr (), t)" "supplies rd cs t"
    and "h @ unread dev cs = streams xs @ frame_wire MT_Reply old @ rest"
    and "list_all (\<lambda>x. length x \<le> kMaxPayload) xs" "1 \<le> length old" "length old \<le> kMaxPayload"
    and "\<And>x w. x \<in> set xs \<Longrightarrow> \<not> isl (fst (deliver cl rs (callbacks dev) x w))"
  shows "\<exists>dev' cs'. call payload0 wire0 (py_sender wr) (py_awaiter rd (plain cl) reg) d a dev = Some (result_of d sr old, dev') \<and>
    supplies rd cs' (io dev') \<and> unread dev' cs' = rest \<and> reader_ok (reader dev') \<and> reader_holds (reader dev') = Some []"
proof -
  let ?w = "frame_wire MT_Command (request d sa a)" and ?d = "dev\<lparr>io := t\<rparr>"
  have send: "py_sender wr (blit 0 ?w wire0) (length ?w) dev = Some (True, ?d)"
    using assms(8) by (simp add: py_sender_def dev_send_command_def blit_def)
  have "h @ unread ?d cs = streams xs @ frame_wire MT_Reply old @ rest" using assms(10) by (simp add: unread_def)
  from stream_registry.await_held [OF assms(1) _ _ _ this assms(11,13), where cl = cl and rd = rd] obtain f dev' cs' where
    a: "await_loop rd (plain cl) reg ?d = Some (Inr (Some f), dev')" "frame_wf f" "frame_msg f = (MT_Reply, old)"
      "reader_ok (reader dev')" "reader_holds (reader dev') = Some []" "supplies rd cs' (io dev')" "unread dev' cs' = rest"
    using assms(6,7,9,14) by auto
  have "py_awaiter rd (plain cl) reg Frame_init ?d = Some (True, f, dev')"
    using a(1) by (simp add: py_awaiter_def dev_await_reply_def)
  from py_call_takes [OF assms(2-5) send this a(2,3) assms(12)] show ?thesis using a(4-7) by blast
qed

text \<open>A line on which the reply to a forgotten \<open>read_adc\<close> waits while \<open>get_uptime_ms\<close> is called.\<close>

definition late_line :: "byte list" where
  "late_line = frame_wire MT_Reply [SC_Ok, 0, 2] @ frame_wire MT_Reply [SC_Ok, 5, 0, 0, 0]"

theorem call_takes_first_reply_witness:
  "\<exists>dev' cs'. call (replicate 250 0) (replicate 256 0) (py_sender (\<lambda>bs t. (Inr (), t)))
      (py_awaiter (one_shot late_line) (plain count_call) app_registry) GetUptimeCmd () idle
        = Some (result_of GetUptimeCmd u32_fields [SC_Ok, 0, 2], dev') \<and>
    supplies (one_shot late_line) cs' (io dev') \<and> unread dev' cs' = frame_wire MT_Reply [SC_Ok, 5, 0, 0, 0] \<and>
    reader_ok (reader dev') \<and> reader_holds (reader dev') = Some []"
proof (rule call_takes_first_reply [OF app_reg.stream_registry_axioms handler_contract.axioms(1) [OF get_uptime.handler_contract_axioms]])
  show "supplies (one_shot late_line) [late_line] 0"
    by (rule one_shot_supplies) (simp_all add: late_line_def frame_wire_def)
  show "[] @ unread idle [late_line] = streams [] @ frame_wire MT_Reply [SC_Ok, 0, 2] @ frame_wire MT_Reply [SC_Ok, 5, 0, 0, 0]"
    by (simp add: idle_def PyDevice_init_def unread_def late_line_def)
qed (simp_all add: idle_def PyDevice_init_def frame_consts tnil_spec_def)

end
