(* ===== verification/PyModule.thy ===== *)
theory PyModule
  imports PyCall
begin

text \<open>
  The module \<open>example_protocol\<close> of \<open>src/examples/rgb_led_adc/python_module.cpp\<close>: the seven
  commands of the example as methods of the class \<open>Device\<close>. pybind11's own casters of integers
  and of the status are parameters (\<open>Pybind\<close>); those of the spans are the repository's.
\<close>

section \<open>The code\<close>

record 'o Pybind =
  load_u8 :: "'o \<Rightarrow> byte option"
  cast_u8 :: "byte \<Rightarrow> 'o"
  cast_u16 :: "16 word \<Rightarrow> 'o"
  cast_u32 :: "32 word \<Rightarrow> 'o"
  cast_status :: "StatusCode \<Rightarrow> 'o"

definition arg_u8 :: "'o Pybind \<Rightarrow> 'o \<Rightarrow> byte option option" where
  "arg_u8 pb x = Some (load_u8 pb x)"

definition arg_name :: "'o Python \<Rightarrow> 'o \<Rightarrow> InlineString option option" where
  "arg_name py x =
     do {
       (ok, s) \<leftarrow> string_load kMaxNameLen py x (InlineArray_init kMaxNameLen 0);
       Some (if ok then Some s else None)
     }"

definition ret :: "('a \<Rightarrow> 'o) \<Rightarrow> 'a \<Rightarrow> 'o option" where
  "ret cast x = Some (cast x)"

definition example_protocol ::
  "buf \<Rightarrow> buf \<Rightarrow> 'io py_write \<Rightarrow> 'io py_read \<Rightarrow> ('io, 'w, 'cb, 'o) py_callback \<Rightarrow> 'o registry \<Rightarrow>
   'o Python \<Rightarrow> 'o Pybind \<Rightarrow> (string \<rightharpoonup> ('io, 'w, 'cb, 'o) py_method)" where
  "example_protocol payload0 wire0 wr rd cl reg py pb =
     (let u8 = arg_u8 pb; st = ret (cast_status pb);
          cls = bind_command payload0 wire0 wr rd cl reg SetRgbCmd
            (load_cons u8 (load_cons u8 (load_cons u8 load_nil))) (cast_cons st cast_nil) ''set_rgb'' Map.empty;
          cls = bind_command payload0 wire0 wr rd cl reg ReadAdcCmd
            (load_cons u8 load_nil) (cast_cons st (cast_cons (ret (cast_u16 pb)) cast_nil)) ''read_adc'' cls;
          cls = bind_command payload0 wire0 wr rd cl reg GetRgbCmd load_nil
            (cast_cons st (cast_cons (ret (cast_u8 pb)) (cast_cons (ret (cast_u8 pb))
              (cast_cons (ret (cast_u8 pb)) cast_nil)))) ''get_rgb'' cls;
          cls = bind_command payload0 wire0 wr rd cl reg GetUptimeCmd load_nil
            (cast_cons st (cast_cons (ret (cast_u32 pb)) cast_nil)) ''get_uptime_ms'' cls;
          cls = bind_command payload0 wire0 wr rd cl reg SetNameCmd
            (load_cons (arg_name py) load_nil) (cast_cons st cast_nil) ''set_name'' cls;
          cls = bind_command payload0 wire0 wr rd cl reg GetNameCmd load_nil
            (cast_cons st (cast_cons (string_cast py) cast_nil)) ''get_name'' cls
      in bind_command payload0 wire0 wr rd cl reg ReadBlockCmd
           (load_cons u8 load_nil) (cast_cons st (cast_cons (array_cast py (cast_u16 pb)) cast_nil)) ''read_block'' cls)"

section \<open>Every method returns\<close>

lemma arg_name_ok: "\<exists>s. arg_name py x = Some s \<and> (\<forall>v. s = Some v \<longrightarrow> array_ok kMaxNameLen v)"
  using string_load_bytes [of kMaxNameLen "InlineArray_init kMaxNameLen 0" py x] by (auto simp: arg_name_def)

definition loads :: "('o list \<Rightarrow> 'a option option) \<Rightarrow> 'a Spec \<Rightarrow> bool" where
  "loads load sa \<longleftrightarrow> (\<forall>args. \<exists>a. load args = Some a \<and> (\<forall>x. a = Some x \<longrightarrow> valid sa x))"

definition casts :: "('r \<Rightarrow> 'o list option) \<Rightarrow> 'r Spec \<Rightarrow> bool" where
  "casts cast sr \<longleftrightarrow> (\<forall>r. valid sr r \<longrightarrow> cast r \<noteq> None)"

lemma loads_nil: "loads load_nil tnil_spec"
  unfolding loads_def
proof
  show "\<exists>a. load_nil args = Some a \<and> (\<forall>x. a = Some x \<longrightarrow> valid tnil_spec x)" for args :: "'o list"
    by (cases args) (simp_all add: codec_sel tnil_spec_def)
qed

lemma loads_cons:
  assumes "\<And>x. \<exists>a. ld x = Some a \<and> (\<forall>v. a = Some v \<longrightarrow> valid s v)" "loads lds r"
  shows "loads (load_cons ld lds) (tcons_spec s r)"
  unfolding loads_def
proof
  fix args
  show "\<exists>a. load_cons ld lds args = Some a \<and> (\<forall>x. a = Some x \<longrightarrow> valid (tcons_spec s r) x)"
  proof (cases args)
    case (Cons x xs)
    obtain a t where "ld x = Some a" "\<forall>v. a = Some v \<longrightarrow> valid s v" "lds xs = Some t" "\<forall>v. t = Some v \<longrightarrow> valid r v"
      using assms unfolding loads_def by metis
    then show ?thesis using Cons by (cases a; cases t) (simp_all add: tcons_spec_def)
  qed simp
qed

lemma casts_nil: "casts cast_nil tnil_spec"
  by (simp add: casts_def)

lemma casts_cons: "\<lbrakk>\<And>x. valid s x \<Longrightarrow> cs x \<noteq> None; casts css r\<rbrakk> \<Longrightarrow> casts (cast_cons cs css) (tcons_spec s r)"
  by (fastforce simp: casts_def tcons_spec_def)

lemma casts_status: "casts css sr \<Longrightarrow> valid sr r \<Longrightarrow> \<exists>objs. cast_cons (ret (cast_status pb)) css (c, r) = Some objs"
  by (auto simp: casts_def ret_def)

lemma add_command_returns:
  assumes "loads load sa" "casts css sr" "P dev"
    and "\<And>a. valid sa a \<Longrightarrow> \<exists>c r dev'. call payload0 wire0 (py_sender wr) (py_awaiter rd cl reg) d a dev = Some ((c, r), dev') \<and>
      valid sr r \<and> P dev'"
  shows "\<exists>q dev'. add_command payload0 wire0 wr rd cl reg d load (cast_cons (ret (cast_status pb)) css) args dev = Some (q, dev') \<and> P dev'"
proof -
  obtain a where a: "load args = Some a" "\<forall>x. a = Some x \<longrightarrow> valid sa x" using assms(1) unfolding loads_def by blast
  show ?thesis
  proof (cases a)
    case None
    then show ?thesis using a(1) assms(3) by (simp add: add_command_def)
  next
    case (Some x)
    then obtain c r dev' where r: "call payload0 wire0 (py_sender wr) (py_awaiter rd cl reg) d x dev = Some ((c, r), dev')"
        "valid sr r" "P dev'" using assms(4) a(2) by blast
    from casts_status [OF assms(2) r(2)] obtain objs where "cast_cons (ret (cast_status pb)) css (c, r) = Some objs" by blast
    then show ?thesis using a(1) Some r(1,3) by (simp add: add_command_def del: cast_cons.simps)
  qed
qed

text \<open>What a method can end with: \<open>TypeError\<close> before anything is sent, or the status and the results.\<close>

definition method_ends :: "'o Pybind \<Rightarrow> 'd \<Rightarrow> PyError + 'o list \<Rightarrow> 'd \<Rightarrow> bool" where
  "method_ends pb dev r dev' \<longleftrightarrow>
     (case r of Inl e \<Rightarrow> e = TypeError \<and> dev' = dev | Inr objs \<Rightarrow> \<exists>c rest. objs = cast_status pb c # rest)"

lemma add_command_ends:
  assumes "add_command payload0 wire0 wr rd cl reg d load (cast_cons (ret (cast_status pb)) css) args dev = Some (r, dev')"
  shows "method_ends pb dev r dev'"
  using assms by (fastforce simp: add_command_def method_ends_def ret_def split: bind_splits option.splits)

lemma methods_end:
  assumes "example_protocol payload0 wire0 wr rd cl reg py pb name = Some m" "m args dev = Some (r, dev')"
  shows "method_ends pb dev r dev'"
  using assms unfolding example_protocol_def Let_def bind_command_def
  by (auto split: if_splits intro: add_command_ends simp del: cast_cons.simps)

lemma args_u8: "\<exists>a. arg_u8 pb x = Some a \<and> (\<forall>v. a = Some v \<longrightarrow> valid u8_field v)"
  by (simp add: arg_u8_def codec_sel)

lemma args_name: "\<exists>a. arg_name py x = Some a \<and> (\<forall>v. a = Some v \<longrightarrow> valid name_field v)"
  using arg_name_ok [of py x] by (auto simp: codec_sel list_all_iff)

lemmas method_loads = loads_cons args_u8 args_name loads_nil

lemma rets: "ret f x \<noteq> None" "valid name_field s \<Longrightarrow> string_cast py s \<noteq> None"
  "valid block_field b \<Longrightarrow> array_cast py cast b \<noteq> None"
  by (auto simp: ret_def codec_sel string_cast_elems array_cast_elems)

lemmas method_casts = casts_cons rets casts_nil

lemma table_entries:
  "map_of kServers (def_opcode SetRgbCmd) = Some (answer rgb_fields tnil_spec set_rgb)"
  "map_of kServers (def_opcode ReadAdcCmd) = Some (answer u8_fields u16_fields read_adc)"
  "map_of kServers (def_opcode GetRgbCmd) = Some (answer tnil_spec rgb_fields get_rgb)"
  "map_of kServers (def_opcode GetUptimeCmd) = Some (answer tnil_spec u32_fields get_uptime_ms)"
  "map_of kServers (def_opcode SetNameCmd) = Some (answer name_fields tnil_spec set_name)"
  "map_of kServers (def_opcode GetNameCmd) = Some (answer tnil_spec name_fields get_name)"
  "map_of kServers (def_opcode ReadBlockCmd) = Some (answer u8_fields block_fields read_block)"
  by (simp_all add: served)

text \<open>The line has the example's firmware behind it.\<close>

locale app_line = remote_line reg rs rd wr cl cbs w0 "serve kServers kMaxPayload" view hist idle fine
  for reg :: "'o registry" and rs :: "'o reg_spec"
    and rd :: "'io py_read" and wr :: "'io py_write" and cl :: "('w, 'cb, 'o) py_call"
    and cbs :: "string \<rightharpoonup> 'cb" and w0 :: 'w
    and view :: "'io \<Rightarrow> Device" and hist :: "'io \<Rightarrow> byte list list" and idle :: "'io \<Rightarrow> bool"
    and fine :: "byte list \<Rightarrow> bool" +
  assumes firmware_ok: "idle t \<Longrightarrow> dev_ok (view t)"
begin

lemma session_firmware: "session_ok dev \<Longrightarrow> dev_ok (view (io dev))"
  by (auto simp: session_ok_def in_step_def intro: firmware_ok)

lemma method_runs:
  assumes "handler_contract d sa sr fn dev_ok" "map_of kServers (def_opcode d) = Some (answer sa sr fn)"
    and "session_ok dev" "load args = Some (Some a)" "valid sa a"
    and "length payload0 = kMaxPayload" "length wire0 = kMaxPacket"
  shows "\<exists>c r st' dev'. fn (canon sa a) (view (io dev)) = Some ((c, r), st') \<and> dev_ok st' \<and> valid sr r \<and>
    add_command payload0 wire0 wr rd (plain cl) reg d load cast args dev =
      map_option (\<lambda>objs. (Inr objs, dev')) (cast (c, if c = SC_Ok then canon sr r else tuple_init (RetsTuple d))) \<and>
    session_ok dev' \<and> view (io dev') = st'"
proof (rule add_command_runs_handler [OF assms(1,3)])
  show "dev_ok (view (io dev))" using session_firmware [OF assms(3)] .
  show "serve kServers kMaxPayload (request d sa a) st = answer sa sr fn (kMaxPayload - 1) (ser sa a) st" for st
    using assms(2) by (simp add: serve_def request_def)
qed (use assms in auto)

lemma method_returns:
  assumes h: "handler_contract d sa sr fn dev_ok" and srv: "map_of kServers (def_opcode d) = Some (answer sa sr fn)"
    and lds: "loads load sa" "casts css sr" and dev: "session_ok dev"
    and len: "length payload0 = kMaxPayload" "length wire0 = kMaxPacket"
  shows "\<exists>q dev'. add_command payload0 wire0 wr rd (plain cl) reg d load (cast_cons (ret (cast_status pb)) css) args dev = Some (q, dev') \<and>
    session_ok dev'"
proof (rule add_command_returns [where P = session_ok, OF lds dev])
  fix a assume a: "valid sa a"
  note con = handler_contract.axioms(1) [OF h]
  note packs = contract.axioms(1,2) [OF con]
  have rem: "remote (py_sender wr) (py_awaiter rd (plain cl) reg) (serve kServers kMaxPayload) (\<lambda>dev. view (io dev)) session_ok d sa sr"
    by (intro remote.intro session_link con)
  have "serve kServers kMaxPayload (request d sa a) st = answer sa sr fn (kMaxPayload - 1) (ser sa a) st" for st
    using srv by (simp add: serve_def request_def)
  then obtain c r st' dev' where r: "fn (canon sa a) (view (io dev)) = Some ((c, r), st')" "session_ok dev'"
      "call payload0 wire0 (py_sender wr) (py_awaiter rd (plain cl) reg) d a dev =
        Some ((c, if c = SC_Ok then canon sr r else tuple_init (RetsTuple d)), dev')"
    using remote.call_runs_handler [OF rem h dev a session_firmware [OF dev] len] by blast
  have "valid sr r"
    using handler_contract.handler_total [OF h session_firmware [OF dev] pack.canon_valid [OF packs(1) a, THEN conjunct1]] r(1) by auto
  then have "valid sr (if c = SC_Ok then canon sr r else tuple_init (RetsTuple d))"
    using pack.canon_valid [OF packs(2)] pack.initial_valid [OF packs(2)] by simp
  then show "\<exists>c r dev'. call payload0 wire0 (py_sender wr) (py_awaiter rd (plain cl) reg) d a dev = Some ((c, r), dev') \<and>
      valid sr r \<and> session_ok dev'" using r(2,3) by blast
qed

lemma methods_return:
  assumes "session_ok dev" "length payload0 = kMaxPayload" "length wire0 = kMaxPacket"
    and "example_protocol payload0 wire0 wr rd (plain cl) reg py pb name = Some m"
  shows "\<exists>q dev'. m args dev = Some (q, dev') \<and> session_ok dev'"
proof -
  note M = method_returns [OF _ _ _ _ assms(1-3)]
  note calls = M [OF set_rgb.handler_contract_axioms table_entries(1)] M [OF read_adc.handler_contract_axioms table_entries(2)]
    M [OF get_rgb.handler_contract_axioms table_entries(3)] M [OF get_uptime.handler_contract_axioms table_entries(4)]
    M [OF set_name.handler_contract_axioms table_entries(5)] M [OF get_name.handler_contract_axioms table_entries(6)]
    M [OF read_block.handler_contract_axioms table_entries(7)]
  show ?thesis using assms(4)
    unfolding example_protocol_def Let_def bind_command_def
    by (auto split: if_splits intro!: calls method_loads method_casts)
qed

end

end
