(* ===== verification/Session.thy ===== *)
theory Session
  imports PyModule
begin

text \<open>
  The whole system: the Python host of \<open>src/bindings/eup_pybind.hpp\<close> and the firmware of
  \<open>src/examples/rgb_led_adc/device.cpp\<close> at the two ends of a serial line, in any interleaving.
  The line (\<open>Uart\<close>) holds the bytes the device has sent and the host has not read; a read hands
  out any non-empty part of them, as \<open>grants\<close> says. The steps are: the firmware emits telemetry,
  the host polls, the host calls a command, the line decides how it cuts the next reads. The line
  interprets the contracts \<open>remote_line\<close> and \<open>app_line\<close>; the invariant of the reachable states
  says that nothing is lost, forged, repeated or reordered.
\<close>

section \<open>The line\<close>

record Uart =
  to_host :: "byte list"
  grants :: "nat list"
  firmware :: Device
  emitted :: "32 word list"

definition Uart_boot :: Uart where
  "Uart_boot = \<lparr>to_host = [], grants = [], firmware = Device_boot, emitted = []\<rparr>"

definition grant :: "int \<Rightarrow> Uart \<Rightarrow> nat" where
  "grant n u = (case grants u of [] \<Rightarrow> nat n | g # gs \<Rightarrow> min (nat n) (max 1 g))"

definition uart_read :: "Uart py_read" where
  "uart_read n u = (Inr (Some (take (grant n u) (to_host u))),
     u\<lparr>to_host := drop (grant n u) (to_host u), grants := tl (grants u)\<rparr>)"

definition wire_buffer :: buf where "wire_buffer = replicate kMaxPacket 0"

definition uart_write :: "Uart py_write" where
  "uart_write bs u =
     (case device_handle_packet zero_payload bs (length bs) wire_buffer kMaxPacket (firmware u) of
        None \<Rightarrow> (Inl PyException, u)
      | Some (n, wire, dev) \<Rightarrow> (Inr (), u\<lparr>to_host := to_host u @ take n wire, firmware := dev\<rparr>))"

definition uart_tick :: "32 word \<Rightarrow> Uart \<Rightarrow> Uart option" where
  "uart_tick c u =
     do {
       (n, wire) \<leftarrow> device_emit_telemetry zero_payload c wire_buffer kMaxPacket;
       Some (u\<lparr>to_host := to_host u @ take n wire, emitted := emitted u @ [c]\<rparr>)
     }"

section \<open>It keeps the contract\<close>

definition temp_c10 :: "32 word \<Rightarrow> int" where
  "temp_c10 c = sint (ucast (230 + c * 5) :: 16 word)"

definition telemetry_payload :: "32 word \<Rightarrow> byte list" where
  "telemetry_payload c = stream_payload TelemetryStream telemetry_fields c (512, temp_c10 c, ())"

definition telemetry_args :: "32 word \<Rightarrow> PyObj py_args" where
  "telemetry_args c = (c, [PyInt 512, PyInt (temp_c10 c)])"

definition log_call :: "(PyObj py_args list, unit, PyObj) py_call" where
  "log_call cb args w = (Inr (), w @ [args])"

definition the_callbacks :: "string \<rightharpoonup> unit" where
  "the_callbacks = [''telemetry'' \<mapsto> ()]"

definition line_idle :: "Uart \<Rightarrow> bool" where
  "line_idle u \<longleftrightarrow> dev_ok (firmware u)"

definition line_hist :: "Uart \<Rightarrow> byte list list" where
  "line_hist u = map telemetry_payload (emitted u)"

lemma telemetry_valid: "valid telemetry_fields (512, temp_c10 c, ())" "canon telemetry_fields (512, temp_c10 c, ()) = (512, temp_c10 c, ())"
  by (simp_all add: codec_sel int_ok_sint temp_c10_def)

lemma telemetry_payload_bound: "length (telemetry_payload c) \<le> kMaxPayload"
  unfolding telemetry_payload_def by (rule telemetry.payload_bound [OF telemetry_valid(1)])

lemma emits_telemetry:
  "device_emit_telemetry zero_payload c wire_buffer kMaxPacket =
     Some (length (frame_wire MT_Stream (telemetry_payload c)), blit 0 (frame_wire MT_Stream (telemetry_payload c)) wire_buffer)"
proof -
  let ?p = "telemetry_payload c"
  have n: "length ?p \<le> 250" using telemetry_payload_bound by (simp add: kMaxPayload_def)
  have len: "unat (of_nat (length ?p) :: byte) = length ?p" using n by (intro unat_of_nat_byte) simp
  obtain pl where pl: "StreamWriter_write zero_payload TelemetryStream wire_buffer kMaxPacket c (512, temp_c10 c, ()) =
      encode_frame MT_Stream (Some pl) (of_nat (length ?p)) wire_buffer kMaxPacket"
      "payload_valid (Some pl) (of_nat (length ?p))" "payload_bytes (Some pl) (of_nat (length ?p)) = ?p"
    using telemetry.write_frames [OF telemetry_valid(1), of zero_payload kMaxPacket wire_buffer c c]
    unfolding telemetry_payload_def [symmetric] by (auto simp: zero_payload_def wire_buffer_def)
  have "StreamWriter_write zero_payload TelemetryStream wire_buffer kMaxPacket c (512, temp_c10 c, ()) =
      Some ((Frame_Ok, length ?p + 6), blit 0 (frame_wire MT_Stream ?p) wire_buffer)"
    using encode_frame_Ok [OF _ pl(2), of kMaxPacket wire_buffer MT_Stream] pl(1,3) len n
    by (simp add: kMaxPacket_def wire_buffer_def)
  then show ?thesis using n
    by (simp add: device_emit_telemetry_def Let_def hw_read_adc_def temp_c10_def length_frame_wire)
qed

lemma uart_tick_puts:
  "uart_tick c u = Some (u\<lparr>to_host := to_host u @ frame_wire MT_Stream (telemetry_payload c), emitted := emitted u @ [c]\<rparr>)"
  by (simp add: uart_tick_def emits_telemetry) (simp add: blit_def)

lemma uart_read_takes:
  "\<exists>k. uart_read n u = (Inr (Some (take k (to_host u))), u\<lparr>to_host := drop k (to_host u), grants := tl (grants u)\<rparr>) \<and>
     k \<le> nat n \<and> (0 < n \<longrightarrow> 0 < k)"
  by (auto simp: uart_read_def grant_def split: list.splits)

lemma uart_supplies: "\<exists>cs. supplies uart_read cs u \<and> concat cs = to_host u"
proof (induction "length (to_host u)" arbitrary: u rule: less_induct)
  case less
  obtain k where k: "uart_read 256 u = (Inr (Some (take k (to_host u))), u\<lparr>to_host := drop k (to_host u), grants := tl (grants u)\<rparr>)" "0 < k"
    using uart_read_takes [of 256 u] by auto
  show ?case
  proof (cases "to_host u")
    case Nil
    then show ?thesis using supplies_empty [of uart_read u] k(1) by (intro exI [of _ "[]"]) simp
  next
    case (Cons b bs)
    obtain cs where "supplies uart_read cs (u\<lparr>to_host := drop k (to_host u), grants := tl (grants u)\<rparr>)"
        "concat cs = drop k (to_host u)"
      using less [of "u\<lparr>to_host := drop k (to_host u), grants := tl (grants u)\<rparr>"] k(2) Cons by auto
    then show ?thesis using supplies_chunk [of uart_read u "take k (to_host u)", OF k(1)] k(2) Cons
      by (intro exI [of _ "take k (to_host u) # cs"]) simp
  qed
qed

lemma supplies_uart: "supplies uart_read cs u \<Longrightarrow> concat cs = to_host u"
proof (induction rule: supplies.induct)
  case (supplies_none t t')
  then show ?case by (simp add: uart_read_def)
next
  case (supplies_empty t t')
  then show ?case using uart_read_takes [of 256 t] by auto
next
  case (supplies_chunk t c t' cs)
  then show ?case using uart_read_takes [of 256 t] by auto
qed

lemma uart_answers:
  assumes "line_idle u" "length ps \<le> kMaxPayload"
  shows "\<exists>rs u'. uart_write (frame_wire MT_Command ps) u = (Inr (), u') \<and>
    u' = u\<lparr>to_host := to_host u @ frame_wire MT_Reply rs, firmware := firmware u'\<rparr> \<and> line_idle u' \<and>
    serve kServers kMaxPayload ps (firmware u) = (rs, firmware u') \<and> 1 \<le> length rs \<and> length rs \<le> kMaxPayload"
proof -
  let ?w = "frame_wire MT_Command ps"
  have ps: "length ps \<le> 250" using assms(2) by (simp add: kMaxPayload_def)
  obtain rs st' where rs: "serve kServers kMaxPayload ps (firmware u) = (rs, st')" by force
  obtain n d where h: "device_handle_packet zero_payload ?w (length ?w) wire_buffer kMaxPacket (firmware u) = Some (n, d, st')"
      "dev_ok st'" "1 \<le> length rs" "length rs \<le> kMaxPayload" "n = length rs + 6" "d = blit 0 (frame_wire MT_Reply rs) wire_buffer"
    using device_handle_packet_answer [of zero_payload "length ?w" ?w kMaxPacket wire_buffer "firmware u"] assms(1)
      device_answer_command [OF ps, of "firmware u"] rs
    by (auto simp: zero_payload_def wire_buffer_def line_idle_def kMaxPacket_def kMaxPayload_def)
  have "take n d = frame_wire MT_Reply rs"
    using h(4-6) length_frame_wire [of rs MT_Reply] by (simp add: blit_def kMaxPayload_def)
  then show ?thesis using h rs by (simp add: uart_write_def line_idle_def)
qed

lemma telemetry_decodes: "app_decoders (stream_opcode TelemetryStream) = Some (''telemetry'',
    \<lambda>ps. case stream_parse telemetry_fields (tl ps) of None \<Rightarrow> Inl ValueError | Some (c, xs) \<Rightarrow> Inr (c, telemetry_objects xs))"
  by (simp add: app_decoders_def)

lemma deliver_telemetry:
  "deliver log_call app_decoders the_callbacks (telemetry_payload c) w = (Inr True, w @ [telemetry_args c])"
proof -
  have "stream_parse telemetry_fields (stream_body telemetry_fields c (512, temp_c10 c, ())) = Some (c, 512, temp_c10 c, ())"
    using telemetry.parse_body [OF telemetry_valid(1)] telemetry_valid(2) by simp
  then show ?thesis
    by (simp add: deliver_def telemetry_payload_def stream_payload_def telemetry_decodes the_callbacks_def log_call_def telemetry_args_def)
qed

interpretation uart: app_line app_registry app_decoders uart_read uart_write log_call the_callbacks "[]" firmware line_hist line_idle
  "\<lambda>x. x \<in> range telemetry_payload"
proof
  fix x w assume "x \<in> range telemetry_payload"
  then show "length x \<le> kMaxPayload \<and> \<not> isl (fst (deliver log_call app_decoders the_callbacks x w))"
    using telemetry_payload_bound by (auto simp: deliver_telemetry)
next
  fix u assume "line_idle u"
  then show "\<exists>cs. supplies uart_read cs u" "dev_ok (firmware u)"
    using uart_supplies [of u] by (auto simp: line_idle_def)
  show "line_idle (snd (uart_read n u)) \<and> firmware (snd (uart_read n u)) = firmware u \<and> line_hist (snd (uart_read n u)) = line_hist u" for n
    using \<open>line_idle u\<close> by (simp add: uart_read_def line_idle_def line_hist_def)
next
  fix u cs and ps :: "byte list" assume u: "line_idle u" "supplies uart_read cs u" "length ps \<le> kMaxPayload"
  obtain rs u' where a: "uart_write (frame_wire MT_Command ps) u = (Inr (), u')"
      "u' = u\<lparr>to_host := to_host u @ frame_wire MT_Reply rs, firmware := firmware u'\<rparr>" "line_idle u'"
      "serve kServers kMaxPayload ps (firmware u) = (rs, firmware u')" "1 \<le> length rs" "length rs \<le> kMaxPayload"
    using uart_answers [OF u(1,3)] by blast
  obtain cs' where cs': "supplies uart_read cs' u'" "concat cs' = to_host u'" using uart_supplies by blast
  have "to_host u' = to_host u @ frame_wire MT_Reply rs" "line_hist u' = line_hist u"
    using arg_cong [OF a(2), of to_host] arg_cong [OF a(2), of emitted] by (simp_all add: line_hist_def)
  then show "\<exists>t' cs' xs ys rs'. uart_write (frame_wire MT_Command ps) u = (Inr (), t') \<and> line_idle t' \<and> supplies uart_read cs' t' \<and>
      concat cs' = concat cs @ streams xs @ frame_wire MT_Reply rs' @ streams ys \<and>
      list_all (\<lambda>x. x \<in> range telemetry_payload) (xs @ ys) \<and> line_hist t' = line_hist u @ xs @ ys \<and>
      serve kServers kMaxPayload ps (firmware u) = (rs', firmware t') \<and> 1 \<le> length rs' \<and> length rs' \<le> kMaxPayload"
    using a(1,3-6) cs' supplies_uart [OF u(2)]
    by (intro exI [of _ u'] exI [of _ cs'] exI [of _ "[]"] exI [of _ rs]) simp
next
  fix u cs n assume "line_idle u" "supplies uart_read cs u"
  obtain k where "uart_read n u = (Inr (Some (take k (to_host u))), u\<lparr>to_host := drop k (to_host u), grants := tl (grants u)\<rparr>)"
    using uart_read_takes by blast
  then show "\<exists>bs t' cs'. uart_read n u = (Inr (Some bs), t') \<and> supplies uart_read cs' t' \<and> concat cs = bs @ concat cs'"
    using uart_supplies [of "u\<lparr>to_host := drop k (to_host u), grants := tl (grants u)\<rparr>"]
      supplies_uart [OF \<open>supplies uart_read cs u\<close>] by auto
qed

section \<open>The steps of the system\<close>

type_synonym Host = "(Uart, PyObj py_args list, unit) PyDevice"

definition host_start :: Host where
  "host_start = on ''telemetry'' () (PyDevice_init Uart_boot [])"

abbreviation line_methods ::
  "buf \<Rightarrow> buf \<Rightarrow> PyObj Python \<Rightarrow> PyObj Pybind \<Rightarrow> (string \<rightharpoonup> (Uart, PyObj py_args list, unit, PyObj) py_method)" where
  "line_methods payload0 wire0 py pb \<equiv> example_protocol payload0 wire0 uart_write uart_read (plain log_call) app_registry py pb"

inductive session_step :: "buf \<Rightarrow> buf \<Rightarrow> PyObj Python \<Rightarrow> PyObj Pybind \<Rightarrow> Host \<Rightarrow> Host \<Rightarrow> bool"
  for payload0 wire0 py pb where
  tick: "uart_tick c (io dev) = Some u \<Longrightarrow> session_step payload0 wire0 py pb dev (dev\<lparr>io := u\<rparr>)"
| cut: "session_step payload0 wire0 py pb dev (dev\<lparr>io := (io dev)\<lparr>grants := gs\<rparr>\<rparr>)"
| polled: "poll uart_read (plain log_call) app_registry n dev = Some (r, dev') \<Longrightarrow> session_step payload0 wire0 py pb dev dev'"
| called: "\<lbrakk>line_methods payload0 wire0 py pb name = Some m; m args dev = Some (r, dev')\<rbrakk> \<Longrightarrow>
    session_step payload0 wire0 py pb dev dev'"

inductive_cases session_stepE: "session_step payload0 wire0 py pb dev dev'"

inductive reachable :: "buf \<Rightarrow> buf \<Rightarrow> PyObj Python \<Rightarrow> PyObj Pybind \<Rightarrow> Host \<Rightarrow> bool"
  for payload0 wire0 py pb where
  start: "reachable payload0 wire0 py pb host_start"
| step: "\<lbrakk>reachable payload0 wire0 py pb dev; session_step payload0 wire0 py pb dev dev'\<rbrakk> \<Longrightarrow>
    reachable payload0 wire0 py pb dev'"

lemma line_unread: "uart.in_step dev cs h ys xs \<Longrightarrow> unread dev cs = drop (pending_pos dev) (pending dev) @ to_host (io dev)"
  by (auto simp: uart.in_step_def unread_def supplies_uart)

lemma deliveries_telemetry:
  "deliveries log_call app_decoders the_callbacks (map telemetry_payload cs) w = w @ map telemetry_args cs"
proof (induction cs arbitrary: w)
  case (Cons c cs)
  then show ?case by (simp add: deliveries_Cons deliver_telemetry)
qed (simp add: deliveries_def)

lemma session_start: "uart.session_ok host_start"
proof -
  have "supplies uart_read [] Uart_boot" by (rule supplies_empty) (simp add: uart_read_def Uart_boot_def)
  then have "uart.in_step host_start [] [] [] []"
    unfolding uart.in_step_def
    by (simp add: host_start_def on_def PyDevice_init_def the_callbacks_def unread_def deliveries_def
        line_idle_def line_hist_def Uart_boot_def fun_eq_iff)
  then show ?thesis unfolding uart.session_ok_def by blast
qed

lemma session_tick:
  assumes "uart.session_ok dev" "uart_tick c (io dev) = Some u"
  shows "uart.session_ok (dev\<lparr>io := u\<rparr>)"
proof -
  let ?p = "telemetry_payload c" and ?dev = "dev\<lparr>io := u\<rparr>"
  obtain cs h ys xs where i: "uart.in_step dev cs h ys xs" using assms(1) by (auto simp: uart.session_ok_def)
  have u: "u = (io dev)\<lparr>to_host := to_host (io dev) @ frame_wire MT_Stream ?p, emitted := emitted (io dev) @ [c]\<rparr>"
    using assms(2) by (simp add: uart_tick_puts)
  obtain cs' where cs': "supplies uart_read cs' u" "concat cs' = to_host u" using uart_supplies by blast
  have "unread ?dev cs' = unread dev cs @ frame_wire MT_Stream ?p"
    using line_unread [OF i] cs'(2) u by (simp add: unread_def)
  then have "uart.in_step ?dev cs' h ys (xs @ [?p])"
    using i cs'(1) u by (auto simp: uart.in_step_def line_idle_def line_hist_def)
  then show ?thesis unfolding uart.session_ok_def by blast
qed

lemma session_cut:
  assumes "uart.session_ok dev"
  shows "uart.session_ok (dev\<lparr>io := (io dev)\<lparr>grants := gs\<rparr>\<rparr>)"
proof -
  let ?u = "(io dev)\<lparr>grants := gs\<rparr>"
  obtain cs h ys xs where i: "uart.in_step dev cs h ys xs" using assms by (auto simp: uart.session_ok_def)
  obtain cs' where cs': "supplies uart_read cs' ?u" "concat cs' = to_host ?u" using uart_supplies by blast
  have "unread (dev\<lparr>io := ?u\<rparr>) cs' = unread dev cs" using line_unread [OF i] cs'(2) by (simp add: unread_def)
  then have "uart.in_step (dev\<lparr>io := ?u\<rparr>) cs' h ys xs"
    using i cs'(1) by (auto simp: uart.in_step_def line_idle_def line_hist_def)
  then show ?thesis unfolding uart.session_ok_def by blast
qed

lemma session_poll:
  assumes "uart.session_ok dev"
  shows "\<exists>k dev'. poll uart_read (plain log_call) app_registry n dev = Some (Inr k, dev') \<and> uart.session_ok dev'"
  using assms uart.poll_in_step unfolding uart.session_ok_def by meson

lemma session_keeps:
  assumes "session_step payload0 wire0 py pb dev dev'" "uart.session_ok dev"
    and "length payload0 = kMaxPayload" "length wire0 = kMaxPacket"
  shows "uart.session_ok dev'"
  using assms(1)
proof (rule session_stepE)
  fix n r assume "poll uart_read (plain log_call) app_registry n dev = Some (r, dev')"
  then show ?thesis using session_poll [OF assms(2), of n] by auto
next
  fix name m args r assume "line_methods payload0 wire0 py pb name = Some m" "m args dev = Some (r, dev')"
  then show ?thesis using uart.methods_return [OF assms(2-4), of py pb name m args] by auto
qed (use assms(2) session_tick session_cut in auto)

lemma reachable_session:
  assumes "reachable payload0 wire0 py pb dev" "length payload0 = kMaxPayload" "length wire0 = kMaxPacket"
  shows "uart.session_ok dev"
  using assms(1) by (induction rule: reachable.induct) (use session_start session_keeps assms(2,3) in blast)+

text \<open>What the invariant says, in terms of the system.\<close>

lemma session_line:
  assumes "uart.in_step dev cs h ys xs"
  shows "\<exists>us vs. ys = map telemetry_payload us \<and> xs = map telemetry_payload vs \<and> emitted (io dev) = us @ vs \<and>
    world dev = map telemetry_args us \<and> h @ drop (pending_pos dev) (pending dev) @ to_host (io dev) = streams xs"
proof -
  have "map telemetry_payload (emitted (io dev)) = ys @ xs" using assms by (simp add: uart.in_step_def line_hist_def)
  then obtain us vs where "ys = map telemetry_payload us" "xs = map telemetry_payload vs" "emitted (io dev) = us @ vs"
    by (auto simp: map_eq_append_conv)
  moreover from this have "world dev = map telemetry_args us" "h @ unread dev cs = streams xs"
    using assms by (simp_all add: uart.in_step_def deliveries_telemetry)
  ultimately show ?thesis using line_unread [OF assms] by auto
qed

text \<open>Polling until the line is dry.\<close>

fun polls :: "nat \<Rightarrow> int \<Rightarrow> Host \<Rightarrow> Host option" where
  "polls 0 n dev = Some dev"
| "polls (Suc k) n dev =
     do {
       (r, dev) \<leftarrow> poll uart_read (plain log_call) app_registry n dev;
       (case r of Inl e \<Rightarrow> None | Inr _ \<Rightarrow> polls k n dev)
     }"

lemma streams_zero: "0 \<notin> set (streams xs) \<Longrightarrow> xs = []"
  by (cases xs) (simp_all add: frame_wire_def kDelimiter_def)

lemma poll_line:
  assumes "uart.session_ok dev" "0 < n"
  shows "\<exists>k j dev'. poll uart_read (plain log_call) app_registry n dev = Some (Inr k, dev') \<and> uart.session_ok dev' \<and> 0 < j \<and>
    io dev' = (io dev)\<lparr>to_host := drop j (to_host (io dev)), grants := tl (grants (io dev))\<rparr> \<and>
    k + length (world dev) = length (world dev') \<and>
    (to_host (io dev') = [] \<longrightarrow> world dev' = map telemetry_args (emitted (io dev)))"
proof -
  obtain cs h ys xs where i: "uart.in_step dev cs h ys xs" using assms(1) by (auto simp: uart.session_ok_def)
  obtain j where j: "uart_read n (io dev) = (Inr (Some (take j (to_host (io dev)))),
      (io dev)\<lparr>to_host := drop j (to_host (io dev)), grants := tl (grants (io dev))\<rparr>)" "0 < j"
    using uart_read_takes [of n "io dev"] assms(2) by blast
  obtain bs t cs' where t: "uart_read n (io dev) = (Inr (Some bs), t)"
      "\<exists>k dev' h' us vs. poll uart_read (plain log_call) app_registry n dev = Some (Inr k, dev') \<and> xs = us @ vs \<and>
        uart.in_step dev' cs' h' (ys @ us) vs \<and> io dev' = t \<and> unread dev' cs' = concat cs' \<and> firmware t = firmware (io dev) \<and>
        ((\<forall>x\<in>set xs. \<forall>w. fst (deliver log_call app_decoders the_callbacks x w) = Inr True) \<longrightarrow> k = length us)"
    using uart.poll_in_step [OF i, of n] by blast
  then obtain k dev' h' us vs where p: "poll uart_read (plain log_call) app_registry n dev = Some (Inr k, dev')" "xs = us @ vs"
      "uart.in_step dev' cs' h' (ys @ us) vs" "unread dev' cs' = concat cs'" "io dev' = t"
      "(\<forall>x\<in>set xs. \<forall>w. fst (deliver log_call app_decoders the_callbacks x w) = Inr True) \<longrightarrow> k = length us"
    by blast
  have p5: "io dev' = (io dev)\<lparr>to_host := drop j (to_host (io dev)), grants := tl (grants (io dev))\<rparr>"
    using t(1) j(1) p(5) by simp
  obtain us' where ys: "ys = map telemetry_payload us'" "world dev = map telemetry_args us'"
      "xs \<in> range (map telemetry_payload)"
    using session_line [OF i] by blast
  obtain us'' vs' where l: "ys @ us = map telemetry_payload us''" "vs = map telemetry_payload vs'"
      "emitted (io dev') = us'' @ vs'" "world dev' = map telemetry_args us''"
      "h' @ drop (pending_pos dev') (pending dev') @ to_host (io dev') = streams vs"
    using session_line [OF p(3)] by blast
  have "k = length us" using p(6) ys(3) deliver_telemetry by auto
  then have "k + length (world dev) = length (world dev')"
    using ys arg_cong [OF l(1), of length] l(4) by simp
  moreover have "world dev' = map telemetry_args (emitted (io dev))" if "to_host (io dev') = []"
  proof -
    have un: "concat cs' = []" and rd: "reader_ok (reader dev')" "reader_holds (reader dev') = Some h'"
      using p(3) that by (auto simp: uart.in_step_def dest: supplies_uart)
    have "h' @ unread dev' cs' = streams vs" using p(3) by (simp add: uart.in_step_def)
    then have "h' = streams vs" unfolding p(4) un by simp
    then have "vs = []" using uart.held [OF rd] streams_zero [of vs] by simp
    then show ?thesis using l p5 by simp
  qed
  moreover have "uart.session_ok dev'" using p(3) unfolding uart.session_ok_def by blast
  ultimately show ?thesis using p(1) p5 j(2) by blast
qed

lemma polls_drain:
  assumes "uart.session_ok dev" "0 < n" "length (to_host (io dev)) \<le> k"
  shows "\<exists>dev' gs. polls (Suc k) n dev = Some dev' \<and>
    world dev' = map telemetry_args (emitted (io dev)) \<and> io dev' = (io dev)\<lparr>to_host := [], grants := gs\<rparr>"
  using assms(1,3)
proof (induction k arbitrary: dev)
  case 0
  obtain q dev' j where "poll uart_read (plain log_call) app_registry n dev = Some (Inr q, dev')"
      "io dev' = (io dev)\<lparr>to_host := drop j (to_host (io dev)), grants := tl (grants (io dev))\<rparr>"
      "to_host (io dev') = [] \<longrightarrow> world dev' = map telemetry_args (emitted (io dev))"
    using poll_line [OF 0(1) assms(2)] by blast
  then show ?case using 0(2) by auto
next
  case (Suc k)
  obtain q dev1 j where p: "poll uart_read (plain log_call) app_registry n dev = Some (Inr q, dev1)" "uart.session_ok dev1" "0 < j"
      "io dev1 = (io dev)\<lparr>to_host := drop j (to_host (io dev)), grants := tl (grants (io dev))\<rparr>"
    using poll_line [OF Suc.prems(1) assms(2)] by blast
  have "length (to_host (io dev1)) \<le> k" using p(3,4) Suc.prems(2) by auto
  then obtain dev' gs where "polls (Suc k) n dev1 = Some dev'" "world dev' = map telemetry_args (emitted (io dev1))"
      "io dev' = (io dev1)\<lparr>to_host := [], grants := gs\<rparr>"
    using Suc.IH [OF p(2)] by blast
  then show ?case using p(1,4) by auto
qed

section \<open>Properties\<close>

text \<open>What pybind11 does with integers in range; a session with one telemetry packet under way.\<close>

definition int_casters :: "PyObj Pybind" where
  "int_casters = \<lparr>load_u8 = (\<lambda>x. py_uint x True), cast_u8 = (\<lambda>u. PyInt (uint u)), cast_u16 = (\<lambda>u. PyInt (uint u)),
     cast_u32 = (\<lambda>u. PyInt (uint u)), cast_status = (\<lambda>u. PyInt (uint u))\<rparr>"

definition zero_wire :: buf where "zero_wire = replicate kMaxPacket 0"

definition host_ticked :: Host where
  "host_ticked = host_start\<lparr>io := Uart_boot\<lparr>to_host := frame_wire MT_Stream (telemetry_payload 7), emitted := [7]\<rparr>\<rparr>"

definition method_names :: "string list" where
  "method_names = [''set_rgb'', ''read_adc'', ''get_rgb'', ''get_uptime_ms'', ''set_name'', ''get_name'', ''read_block'']"

lemma methods_exist: "name \<in> set method_names \<Longrightarrow> \<exists>m. line_methods payload0 wire0 py pb name = Some m"
  by (auto simp: method_names_def example_protocol_def Let_def bind_command_def)

lemma buffers: "length zero_payload = kMaxPayload" "length zero_wire = kMaxPacket"
  by (simp_all add: zero_payload_def zero_wire_def)

lemma reachable_ticked: "reachable payload0 wire0 py pb host_ticked"
proof -
  have "session_step payload0 wire0 py pb host_start host_ticked"
    unfolding host_ticked_def
    by (rule tick [where c = 7]) (simp add: uart_tick_puts host_start_def on_def PyDevice_init_def Uart_boot_def)
  then show ?thesis using reachable.step [OF start] by blast
qed

text \<open>C4: in every reachable state of host, line and firmware, under any interleaving of telemetry,
  polls, calls (with any arguments, converting or not) and cuts of the reads: what the host's
  callback has been given is exactly the first part of what the firmware emitted, in order; and
  the rest is on its way, in the reader, the pending bytes and the line together, whole
  and in order. The reader's and the firmware's invariants hold.\<close>

theorem session_invariant:
  assumes "reachable payload0 wire0 py pb dev" "length payload0 = kMaxPayload" "length wire0 = kMaxPacket"
  shows "reader_ok (reader dev) \<and> dev_ok (firmware (io dev)) \<and> pending_pos dev \<le> length (pending dev) \<and>
    (\<exists>h us vs. emitted (io dev) = us @ vs \<and> world dev = map telemetry_args us \<and>
      reader_holds (reader dev) = Some h \<and>
      h @ drop (pending_pos dev) (pending dev) @ to_host (io dev) = streams (map telemetry_payload vs))"
proof -
  obtain cs h ys xs where i: "uart.in_step dev cs h ys xs"
    using reachable_session [OF assms] by (auto simp: uart.session_ok_def)
  then show ?thesis using session_line [OF i] by (auto simp: uart.in_step_def line_idle_def)
qed

theorem session_invariant_witness:
  "reader_ok (reader host_ticked) \<and> dev_ok (firmware (io host_ticked)) \<and> pending_pos host_ticked \<le> length (pending host_ticked) \<and>
    (\<exists>h us vs. emitted (io host_ticked) = us @ vs \<and> world host_ticked = map telemetry_args us \<and>
      reader_holds (reader host_ticked) = Some h \<and>
      h @ drop (pending_pos host_ticked) (pending host_ticked) @ to_host (io host_ticked) = streams (map telemetry_payload vs))"
  by (rule session_invariant [OF reachable_ticked [of zero_payload zero_wire cpython int_casters] buffers])

text \<open>C11: no reachable state is a dead end: polling returns a count and raises nothing; every method of
  the module, with any arguments, returns (it never leaves memory and never ends the program), with a
  status and results or, before anything is sent and with the device as it was, the exception
  \<open>TypeError\<close> of arguments that do not convert; and the telemetry of the firmware always fits.\<close>

theorem session_never_stuck:
  assumes "reachable payload0 wire0 py pb dev" "length payload0 = kMaxPayload" "length wire0 = kMaxPacket"
  shows "(\<exists>k dev'. poll uart_read (plain log_call) app_registry n dev = Some (Inr k, dev')) \<and>
    list_all (\<lambda>name. \<exists>m r dev'. line_methods payload0 wire0 py pb name = Some m \<and> m args dev = Some (r, dev') \<and>
      (case r of Inl e \<Rightarrow> e = TypeError \<and> dev' = dev | Inr objs \<Rightarrow> \<exists>c rest. objs = cast_status pb c # rest)) method_names \<and>
    (\<exists>u. uart_tick c (io dev) = Some u)"
proof (intro conjI)
  note ok = reachable_session [OF assms]
  show "\<exists>k dev'. poll uart_read (plain log_call) app_registry n dev = Some (Inr k, dev')"
    using session_poll [OF ok, of n] by blast
  show "list_all (\<lambda>name. \<exists>m r dev'. line_methods payload0 wire0 py pb name = Some m \<and> m args dev = Some (r, dev') \<and>
      (case r of Inl e \<Rightarrow> e = TypeError \<and> dev' = dev | Inr objs \<Rightarrow> \<exists>c rest. objs = cast_status pb c # rest)) method_names"
    unfolding list_all_iff
  proof
    fix name assume "name \<in> set method_names"
    then obtain m where m: "line_methods payload0 wire0 py pb name = Some m" using methods_exist by blast
    then obtain r dev' where "m args dev = Some (r, dev')" using uart.methods_return [OF ok assms(2,3)] by blast
    then show "\<exists>m r dev'. line_methods payload0 wire0 py pb name = Some m \<and> m args dev = Some (r, dev') \<and>
        (case r of Inl e \<Rightarrow> e = TypeError \<and> dev' = dev | Inr objs \<Rightarrow> \<exists>c rest. objs = cast_status pb c # rest)"
      using m methods_end [OF m] unfolding method_ends_def by blast
  qed
qed (simp add: uart_tick_puts)

theorem session_never_stuck_witness:
  "(\<exists>k dev'. poll uart_read (plain log_call) app_registry 3 host_ticked = Some (Inr k, dev')) \<and>
    list_all (\<lambda>name. \<exists>m r dev'. line_methods zero_payload zero_wire cpython int_casters name = Some m \<and>
      m [PyInt 30] host_ticked = Some (r, dev') \<and>
      (case r of Inl e \<Rightarrow> e = TypeError \<and> dev' = host_ticked | Inr objs \<Rightarrow> \<exists>c rest. objs = cast_status int_casters c # rest)) method_names \<and>
    (\<exists>u. uart_tick 8 (io host_ticked) = Some u)"
  by (rule session_never_stuck [OF reachable_ticked buffers])

text \<open>C12: everything emitted is delivered in the end: from any reachable state, polling for any
  positive number of bytes, once per byte on the line and once more, hands the callback all the
  telemetry there was, in order, however the line cuts the reads, and empties the line.\<close>

theorem session_drains:
  assumes "reachable payload0 wire0 py pb dev" "length payload0 = kMaxPayload" "length wire0 = kMaxPacket" "0 < n"
  shows "\<exists>dev' gs. polls (Suc (length (to_host (io dev)))) n dev = Some dev' \<and>
    world dev' = map telemetry_args (emitted (io dev)) \<and> io dev' = (io dev)\<lparr>to_host := [], grants := gs\<rparr>"
  by (rule polls_drain [OF reachable_session [OF assms(1-3)] assms(4) order_refl])

theorem session_drains_witness:
  "\<exists>dev' gs. polls (Suc (length (to_host (io host_ticked)))) 2 host_ticked = Some dev' \<and>
    world dev' = map telemetry_args (emitted (io host_ticked)) \<and> io dev' = (io host_ticked)\<lparr>to_host := [], grants := gs\<rparr>"
  by (rule session_drains [OF reachable_ticked [of zero_payload zero_wire cpython int_casters] buffers]) simp

text \<open>C3: a command called from Python is the handler on the device: in every reachable state, for
  every contract of the table and arguments that convert, the method runs the handler once on the
  firmware's state and returns its converted status and results; and all telemetry that was
  emitted before has been delivered when it returns.\<close>

theorem python_call_is_handler:
  assumes "reachable payload0 wire0 py pb dev" "length payload0 = kMaxPayload" "length wire0 = kMaxPacket"
    and "handler_contract d sa sr fn dev_ok" "map_of kServers (def_opcode d) = Some (answer sa sr fn)"
    and "load args = Some (Some a)" "valid sa a" "casts css sr"
  shows "\<exists>c r st' objs dev'. fn (canon sa a) (firmware (io dev)) = Some ((c, r), st') \<and>
    css (if c = SC_Ok then canon sr r else tuple_init (RetsTuple d)) = Some objs \<and>
    add_command payload0 wire0 uart_write uart_read (plain log_call) app_registry d load (cast_cons (ret (cast_status pb)) css) args dev =
      Some (Inr (cast_status pb c # objs), dev') \<and>
    firmware (io dev') = st' \<and> (\<exists>later. world dev' = map telemetry_args (emitted (io dev) @ later))"
proof -
  let ?cast = "cast_cons (ret (cast_status pb)) css"
  note ok = reachable_session [OF assms(1-3)]
  have con: "contract d sa sr" using assms(4) by (rule handler_contract.axioms)
  obtain c r st' dev' where x: "fn (canon sa a) (firmware (io dev)) = Some ((c, r), st')" "valid sr r"
      "add_command payload0 wire0 uart_write uart_read (plain log_call) app_registry d load ?cast args dev =
        map_option (\<lambda>objs. (Inr objs, dev')) (?cast (c, if c = SC_Ok then canon sr r else tuple_init (RetsTuple d)))"
      "uart.session_ok dev'" "firmware (io dev') = st'"
    using uart.method_runs [where load = load and args = args, OF assms(4,5) ok assms(6,7,2,3), of ?cast] by blast
  let ?r = "if c = SC_Ok then canon sr r else tuple_init (RetsTuple d)"
  have "valid sr ?r"
    using pack.canon_valid [OF contract.axioms(2) [OF con] x(2)] pack.initial_valid [OF contract.axioms(2) [OF con]] by simp
  then obtain objs where objs: "css ?r = Some objs" using assms(8) by (auto simp: casts_def)
  have add: "add_command payload0 wire0 uart_write uart_read (plain log_call) app_registry d load ?cast args dev =
      Some (Inr (cast_status pb c # objs), dev')"
    unfolding x(3) using objs by (simp add: ret_def)
  then obtain out where run: "call payload0 wire0 (py_sender uart_write) (py_awaiter uart_read (plain log_call) app_registry) d a dev = Some (out, dev')"
    using assms(6) by (auto simp: add_command_def split: bind_splits)
  obtain us vs where "world dev' = deliveries log_call app_decoders the_callbacks (line_hist (io dev) @ us) []"
      "line_hist (io dev') = line_hist (io dev) @ us @ vs"
    using uart.call_flushes [OF con assms(7) ok assms(2,3) run] by blast
  moreover from this obtain later where "us = map telemetry_payload later"
    by (auto simp: line_hist_def append_eq_map_conv map_eq_append_conv)
  ultimately have "world dev' = map telemetry_args (emitted (io dev) @ later)"
    using deliveries_telemetry [of "emitted (io dev) @ later" "[]"] by (simp add: line_hist_def)
  then show ?thesis using x objs add by blast
qed

theorem python_call_is_handler_witness:
  "\<exists>c r st' objs dev'. read_adc (canon u8_fields (2, ())) (firmware (io host_ticked)) = Some ((c, r), st') \<and>
    cast_cons (ret (cast_u16 int_casters)) cast_nil (if c = SC_Ok then canon u16_fields r else tuple_init (RetsTuple ReadAdcCmd)) = Some objs \<and>
    add_command zero_payload zero_wire uart_write uart_read (plain log_call) app_registry ReadAdcCmd
      (load_cons (arg_u8 int_casters) load_nil) (cast_cons (ret (cast_status int_casters)) (cast_cons (ret (cast_u16 int_casters)) cast_nil))
      [PyInt 2] host_ticked = Some (Inr (cast_status int_casters c # objs), dev') \<and>
    firmware (io dev') = st' \<and> (\<exists>later. world dev' = map telemetry_args (emitted (io host_ticked) @ later))"
proof (rule python_call_is_handler [OF reachable_ticked [of zero_payload zero_wire cpython int_casters] buffers read_adc.handler_contract_axioms table_entries(2)])
  show "casts (cast_cons (ret (cast_u16 int_casters)) cast_nil) u16_fields" by (intro method_casts)
qed (simp_all add: arg_u8_def int_casters_def codec_sel tnil_spec_def tcons_spec_def)

text \<open>A name travels from Python to the firmware and back: any \<open>bytes\<close> of at most 16 bytes given
  to \<open>set_name\<close> are what \<open>get_name\<close> returns, zeros included, both with the status \<open>Ok\<close>.\<close>

lemma python_name_session:
  assumes "reachable payload0 wire0 py pb dev" "length payload0 = kMaxPayload" "length wire0 = kMaxPacket"
    and "python py" "length bs \<le> kMaxNameLen"
  shows "\<exists>set get dev1 dev2. line_methods payload0 wire0 py pb ''set_name'' = Some set \<and>
    line_methods payload0 wire0 py pb ''get_name'' = Some get \<and>
    set [bytes_new py bs] dev = Some (Inr [cast_status pb SC_Ok], dev1) \<and>
    get [] dev1 = Some (Inr [cast_status pb SC_Ok, bytes_new py bs], dev2)"
proof -
  let ?st = "ret (cast_status pb)"
  let ?m1 = "add_command payload0 wire0 uart_write uart_read (plain log_call) app_registry SetNameCmd
      (load_cons (arg_name py) load_nil) (cast_cons ?st cast_nil)"
  let ?m2 = "add_command payload0 wire0 uart_write uart_read (plain log_call) app_registry GetNameCmd load_nil
      (cast_cons ?st (cast_cons (string_cast py) cast_nil))"
  note ok = reachable_session [OF assms(1-3)]
  have methods: "line_methods payload0 wire0 py pb ''set_name'' = Some ?m1" "line_methods payload0 wire0 py pb ''get_name'' = Some ?m2"
    by (simp_all add: example_protocol_def Let_def bind_command_def)
  obtain s where s: "arg_name py (bytes_new py bs) = Some (Some s)" "array_ok kMaxNameLen s" "elems s = bs"
    using string_load_bytes [of kMaxNameLen "InlineArray_init kMaxNameLen 0" py "bytes_new py bs"]
      python.new_bytes [OF assms(4)] assms(5) by (auto simp: arg_name_def)
  have load: "load_cons (arg_name py) load_nil [bytes_new py bs] = Some (Some (s, ()))" using s(1) by simp
  have v: "valid name_fields (s, ())" using s(2) by (simp add: codec_sel list_all_iff)
  obtain dev1 where d1: "?m1 [bytes_new py bs] dev = Some (Inr [cast_status pb SC_Ok], dev1)" "uart.session_ok dev1"
      "g_name (firmware (io dev1)) = array_of kMaxNameLen 0 bs"
    using uart.method_runs [where load = "load_cons (arg_name py) load_nil" and args = "[bytes_new py bs]",
        OF set_name.handler_contract_axioms table_entries(5) ok load v assms(2,3), of "cast_cons ?st cast_nil"] s(3)
    by (auto simp: codec_sel ret_def)
  have arr: "array_ok kMaxNameLen (array_of kMaxNameLen 0 bs)" "elems (array_of kMaxNameLen 0 bs) = bs"
    using array_of_ok [OF assms(5), of 0] by simp_all
  obtain dev2 where "?m2 [] dev1 = Some (Inr [cast_status pb SC_Ok, bytes_new py bs], dev2)"
    using uart.method_runs [where load = load_nil and args = "[]", OF get_name.handler_contract_axioms table_entries(6) d1(2) _ _ assms(2,3),
        of "()" "cast_cons ?st (cast_cons (string_cast py) cast_nil)"] d1(3) arr string_cast_elems [OF arr(1), of py]
    by (auto simp: codec_sel ret_def get_name_def tnil_spec_def)
  then show ?thesis using methods d1(1) by blast
qed

end
