(* ===== verification/Reentrant.thy ===== *)
theory Reentrant
  imports Session
begin

text \<open>
  Callbacks that use the device that calls them. \<open>Device\<close> of \<open>src/bindings/eup_pybind.hpp\<close> calls a
  stream callback from within \<open>poll\<close> and \<open>await_reply\<close>, with the reader, the bytes still pending
  and the callback table in whatever state they then are; the callback may call \<open>poll\<close>, \<open>on\<close> or a
  command of the same object. The locale \<open>reentrant\<close> is what such a callback must promise for the
  device to come through: to return, with the device in order and no more bytes ahead of it than
  before. It is interpreted on \<open>run_callback\<close>, callbacks that are arbitrary scripts of such calls,
  nested to any depth. Then what re-entering does to the order of streams and to replies.
\<close>

section \<open>The transport runs dry\<close>

text \<open>\<open>left\<close> is a bound of the bytes the transport object will ever return; writing adds none.\<close>

locale drained =
  fixes rd :: "'io py_read" and left :: "'io \<Rightarrow> nat"
  assumes read_left: "rd n t = (q, t') \<Longrightarrow> left t' + (case q of Inr (Some bs) \<Rightarrow> length bs | _ \<Rightarrow> 0) \<le> left t"

definition host_ok :: "('io, 'w, 'cb) PyDevice \<Rightarrow> bool" where
  "host_ok dev \<longleftrightarrow> reader_ok (reader dev) \<and> pending_pos dev \<le> length (pending dev)"

definition backlog :: "('io \<Rightarrow> nat) \<Rightarrow> ('io, 'w, 'cb) PyDevice \<Rightarrow> nat" where
  "backlog left dev = left (io dev) + (length (pending dev) - pending_pos dev)"

text \<open>From one state of the device to a later one.\<close>

definition settles :: "('io \<Rightarrow> nat) \<Rightarrow> ('io, 'w, 'cb) PyDevice \<Rightarrow> ('io, 'w, 'cb) PyDevice \<Rightarrow> bool" where
  "settles left dev dev' \<longleftrightarrow> host_ok dev' \<and> backlog left dev' \<le> backlog left dev"

lemma settles_refl: "host_ok dev \<Longrightarrow> settles left dev dev"
  by (simp add: settles_def)

lemma settles_trans [trans]: "\<lbrakk>settles left d1 d2; settles left d2 d3\<rbrakk> \<Longrightarrow> settles left d1 d3"
  by (simp add: settles_def)

lemma settles_reader: "\<lbrakk>host_ok dev; reader_ok r\<rbrakk> \<Longrightarrow> settles left dev (dev\<lparr>reader := r\<rparr>)"
  by (simp add: settles_def host_ok_def backlog_def)

lemma settles_ok: "settles left dev dev' \<Longrightarrow> host_ok dev'"
  by (simp add: settles_def)

lemma push_ready:
  assumes "reader_ok r"
  shows "\<exists>ev r'. push r b = Some (ev, r') \<and> reader_ok r' \<and> (ev = FrameReady \<longrightarrow> frame_wf (frame r'))"
proof (cases "b = kDelimiter")
  case True
  then show ?thesis using reader_close [OF assms] by (auto split: option.splits)
next
  case False
  then show ?thesis using reader_more [OF assms] by fastforce
qed

context drained
begin

lemma next_byte_settles:
  assumes "host_ok dev"
  shows "\<exists>q dev'. next_byte rd dev = Some (q, dev') \<and> settles left dev dev' \<and>
    (\<forall>b. q = Inr (Some b) \<longrightarrow> backlog left dev' < backlog left dev)"
proof (cases "length (pending dev) \<le> pending_pos dev")
  case False
  then show ?thesis using assms
    by (auto simp: next_byte_def take_byte_def mem_read_def settles_def host_ok_def backlog_def)
next
  case True
  obtain q t where q: "rd 256 (io dev) = (q, t)" by force
  show ?thesis
  proof (cases "\<exists>bs. q = Inr (Some bs) \<and> bs \<noteq> []")
    case False
    then show ?thesis using True q read_left [OF q] assms
      by (auto simp: next_byte_def read_chunk_def settles_def host_ok_def backlog_def Let_def
          split: sum.splits option.splits list.splits)
  next
    case cons: True
    then show ?thesis using True q read_left [OF q] assms
      by (auto simp: next_byte_def read_chunk_def take_byte_def mem_read_def settles_def host_ok_def backlog_def Let_def
          neq_Nil_conv)
  qed
qed

end

section \<open>What a callback must promise\<close>

locale reentrant = drained rd left + stream_registry reg rs
  for rd :: "'io py_read" and left and reg :: "'o registry" and rs +
  fixes cl :: "('io, 'w, 'cb, 'o) py_callback"
  assumes callback_settles: "host_ok dev \<Longrightarrow> \<exists>r dev'. cl cb args dev = Some (r, dev') \<and> settles left dev dev'"
begin

lemma dispatch_settles:
  assumes "frame_wf f" "host_ok dev"
  shows "\<exists>r dev'. dev_dispatch_stream cl reg f dev = Some (r, dev') \<and> settles left dev dev'"
proof (cases "recipient rs (callbacks dev) (frame_data f)")
  case (Some y)
  show ?thesis
  proof (cases y)
    case (Inr x)
    obtain cb args where x: "x = (cb, args)" by (cases x)
    obtain r dev' where "cl cb args dev = Some (r, dev')" "settles left dev dev'"
      using callback_settles [OF assms(2)] by blast
    then show ?thesis using Some Inr x by (simp add: dispatch_calls [OF assms(1)])
  qed (use Some assms(2) in \<open>simp add: dispatch_calls [OF assms(1)] settles_refl\<close>)
qed (use assms(2) in \<open>simp add: dispatch_calls [OF assms(1)] settles_refl\<close>)

lemma await_byte_settles:
  assumes "host_ok dev"
  shows "\<exists>q dev'. await_byte cl reg b dev = Some (q, dev') \<and> settles left dev dev'"
proof -
  obtain ev r where p: "push (reader dev) b = Some (ev, r)" "reader_ok r" "ev = FrameReady \<longrightarrow> frame_wf (frame r)"
    using push_ready assms unfolding host_ok_def by blast
  have d: "settles left dev (dev\<lparr>reader := r\<rparr>)" using settles_reader [OF assms p(2)] .
  show ?thesis
  proof (cases "ev = FrameReady \<and> ftype (frame r) = MT_Stream")
    case True
    then obtain q dev' where "dev_dispatch_stream cl reg (frame r) (dev\<lparr>reader := r\<rparr>) = Some (q, dev')"
        "settles left (dev\<lparr>reader := r\<rparr>) dev'"
      using dispatch_settles p(3) settles_ok [OF d] by blast
    then show ?thesis using True p(1) settles_trans [OF d] by (auto simp: await_byte_def message_types)
  next
    case False
    then show ?thesis using p(1) d by (auto simp: await_byte_def Let_def)
  qed
qed

lemma await_loop_settles:
  "host_ok dev \<Longrightarrow> \<exists>q dev'. await_loop rd cl reg dev = Some (q, dev') \<and> settles left dev dev'"
proof (induction "backlog left dev" arbitrary: dev rule: less_induct)
  case less
  obtain q d1 where n: "next_byte rd dev = Some (q, d1)" "settles left dev d1"
      "\<And>b. q = Inr (Some b) \<Longrightarrow> backlog left d1 < backlog left dev"
    using next_byte_settles [OF less.prems] by blast
  show ?case
  proof (cases "\<exists>b. q = Inr (Some b)")
    case False
    then show ?thesis using n(1,2) by (subst await_loop.simps) (auto split: sum.splits option.splits)
  next
    case True
    then obtain b where b: "q = Inr (Some b)" by blast
    obtain q2 d2 where a: "await_byte cl reg b d1 = Some (q2, d2)" "settles left d1 d2"
      using await_byte_settles [OF settles_ok [OF n(2)]] by blast
    have step: "await_loop rd cl reg dev = (case q2 of Inr None \<Rightarrow> await_loop rd cl reg d2 | _ \<Rightarrow> Some (q2, d2))"
      by (simp add: await_loop_byte [OF n(1) [unfolded b]] a(1))
    have "backlog left d2 < backlog left dev" using a(2) n(3) [OF b] by (simp add: settles_def)
    then obtain q3 d3 where "await_loop rd cl reg d2 = Some (q3, d3)" "settles left d2 d3"
      using less.hyps settles_ok [OF a(2)] by blast
    then show ?thesis
      using step settles_trans [OF n(2) a(2)] settles_trans [OF settles_trans [OF n(2) a(2)]]
      by (auto split: sum.splits option.splits)
  qed
qed

lemma poll_loop_settles:
  "host_ok dev \<Longrightarrow> \<exists>q dev'. poll_loop cl reg bs k dev = Some (q, dev') \<and> settles left dev dev'"
proof (induction bs arbitrary: k dev)
  case (Cons b s)
  obtain ev r where p: "push (reader dev) b = Some (ev, r)" "reader_ok r" "ev = FrameReady \<longrightarrow> frame_wf (frame r)"
    using push_ready Cons.prems unfolding host_ok_def by blast
  have d: "settles left dev (dev\<lparr>reader := r\<rparr>)" using settles_reader [OF Cons.prems p(2)] .
  show ?case
  proof (cases "ev = FrameReady \<and> ftype (frame r) = MT_Stream")
    case True
    then obtain q d2 where q: "dev_dispatch_stream cl reg (frame r) (dev\<lparr>reader := r\<rparr>) = Some (q, d2)"
        "settles left (dev\<lparr>reader := r\<rparr>) d2"
      using dispatch_settles p(3) settles_ok [OF d] by blast
    show ?thesis
    proof (cases q)
      case (Inr hit)
      obtain q2 d3 where "poll_loop cl reg s (if hit then k + 1 else k) d2 = Some (q2, d3)" "settles left d2 d3"
        using Cons.IH [OF settles_ok [OF q(2)]] by blast
      then show ?thesis using Inr True p(1) q settles_trans [OF settles_trans [OF d q(2)]] by auto
    qed (use True p(1) q settles_trans [OF d q(2)] in auto)
  next
    case False
    obtain q2 d3 where "poll_loop cl reg s k (dev\<lparr>reader := r\<rparr>) = Some (q2, d3)" "settles left (dev\<lparr>reader := r\<rparr>) d3"
      using Cons.IH [OF settles_ok [OF d]] by blast
    then show ?thesis using False p(1) settles_trans [OF d] by auto
  qed
qed (simp add: settles_refl)

lemma poll_settles:
  assumes "host_ok dev"
  shows "\<exists>q dev'. poll rd cl reg n dev = Some (q, dev') \<and> settles left dev dev'"
proof -
  obtain q t where q: "rd n (io dev) = (q, t)" by force
  let ?d = "dev\<lparr>io := t, pending := [], pending_pos := 0\<rparr>"
  have d: "settles left dev ?d" "host_ok ?d" "settles left dev (dev\<lparr>io := t\<rparr>)"
    using assms read_left [OF q] by (auto simp: settles_def host_ok_def backlog_def)
  have "\<exists>q' dev'. poll_loop cl reg c 0 ?d = Some (q', dev') \<and> settles left dev dev'" for c
    using poll_loop_settles [OF d(2), of c 0] settles_trans [OF d(1)] by blast
  then show ?thesis using assms q d(3)
    by (auto simp: poll_def read_chunk_def host_ok_def Let_def split: sum.splits option.splits)
qed

end

section \<open>Callbacks as scripts\<close>

text \<open>What a callback does, after it has noted its arguments: polls, registrations, a raise.\<close>

datatype 'cb act = Poll int | On string 'cb | Raise PyError

fun run_acts ::
  "'io py_read \<Rightarrow> ('io, 'w, 'cb, 'o) py_callback \<Rightarrow> 'o registry \<Rightarrow> 'cb act list \<Rightarrow> ('io, 'w, 'cb) PyDevice \<Rightarrow>
   ((PyError + unit) \<times> ('io, 'w, 'cb) PyDevice) option" where
  "run_acts rd cl reg [] dev = Some (Inr (), dev)"
| "run_acts rd cl reg (Poll n # as) dev =
     do {
       (r, dev) \<leftarrow> poll rd cl reg n dev;
       case r of Inl e \<Rightarrow> Some (Inl e, dev) | Inr _ \<Rightarrow> run_acts rd cl reg as dev
     }"
| "run_acts rd cl reg (On name cb # as) dev = run_acts rd cl reg as (on name cb dev)"
| "run_acts rd cl reg (Raise e # as) dev = Some (Inl e, dev)"

text \<open>The interpreter, up to a depth of nested callbacks at which it raises.\<close>

fun run_callback ::
  "'io py_read \<Rightarrow> 'o registry \<Rightarrow> ('cb \<Rightarrow> 'cb act list) \<Rightarrow> nat \<Rightarrow> ('io, 'o py_args list, 'cb, 'o) py_callback" where
  "run_callback rd reg prog 0 cb args dev = Some (Inl PyException, dev)"
| "run_callback rd reg prog (Suc k) cb args dev =
     run_acts rd (run_callback rd reg prog k) reg (prog cb) (dev\<lparr>world := world dev @ [args]\<rparr>)"

context reentrant
begin

lemma run_acts_settles:
  "host_ok dev \<Longrightarrow> \<exists>r dev'. run_acts rd cl reg as dev = Some (r, dev') \<and> settles left dev dev'"
proof (induction as arbitrary: dev)
  case (Cons a as)
  show ?case
  proof (cases a)
    case (Poll n)
    obtain q d1 where p: "poll rd cl reg n dev = Some (q, d1)" "settles left dev d1"
      using poll_settles [OF Cons.prems] by blast
    obtain r d2 where "run_acts rd cl reg as d1 = Some (r, d2)" "settles left d1 d2"
      using Cons.IH [OF settles_ok [OF p(2)]] by blast
    then show ?thesis using Poll p settles_trans [OF p(2)] by (cases q) auto
  next
    case (On name cb)
    have d: "host_ok (on name cb dev)" "settles left dev (on name cb dev)"
      using Cons.prems by (simp_all add: on_def host_ok_def settles_def backlog_def)
    then show ?thesis using On Cons.IH [OF d(1)] settles_trans [OF d(2)] by auto
  qed (use Cons.prems in \<open>simp add: settles_refl\<close>)
qed (simp add: settles_refl)

end

lemma run_callback_reentrant:
  assumes "drained rd left" "stream_registry reg rs"
  shows "reentrant rd left reg rs (run_callback rd reg prog k)"
proof (induction k)
  case 0
  show ?case using assms by (simp add: reentrant_def reentrant_axioms_def settles_refl)
next
  case (Suc k)
  have "\<exists>r dev'. run_acts rd (run_callback rd reg prog k) reg as (dev\<lparr>world := w\<rparr>) = Some (r, dev') \<and> settles left dev dev'"
    if "host_ok dev" for as dev w
  proof -
    have d: "host_ok (dev\<lparr>world := w\<rparr>)" "settles left dev (dev\<lparr>world := w\<rparr>)"
      using that by (simp_all add: host_ok_def settles_def backlog_def)
    then show ?thesis using reentrant.run_acts_settles [OF Suc d(1)] settles_trans [OF d(2)] by blast
  qed
  then show ?case using assms by (simp add: reentrant_def reentrant_axioms_def)
qed

text \<open>The line of the session: what is on it is all it will return.\<close>

interpretation uart_dry: drained uart_read "\<lambda>u. length (to_host u)"
proof
  fix n u q u' assume "uart_read n u = (q, u')"
  then show "length (to_host u') + (case q of Inr (Some bs) \<Rightarrow> length bs | _ \<Rightarrow> 0) \<le> length (to_host u)"
    by (auto simp: uart_read_def)
qed

interpretation uart_scripts: reentrant uart_read "\<lambda>u. length (to_host u)" app_registry app_decoders
  "run_callback uart_read app_registry prog k" for prog k
  by (rule run_callback_reentrant [OF uart_dry.drained_axioms app_reg.stream_registry_axioms])

section \<open>Frame by frame, whatever the callbacks do\<close>

lemma poll_loop_skip:
  "\<lbrakk>reader_ok (reader dev); reader_holds (reader dev) = Some h; 0 \<notin> set s; length h + length s \<le> 255\<rbrakk> \<Longrightarrow>
   \<exists>r. reader_ok r \<and> reader_holds r = Some (h @ s) \<and>
     poll_loop cl reg (s @ s') k dev = poll_loop cl reg s' k (dev\<lparr>reader := r\<rparr>)"
proof (induction s arbitrary: h dev)
  case Nil
  then show ?case by (intro exI [of _ "reader dev"]) simp
next
  case (Cons b s)
  have b: "b \<noteq> kDelimiter" "hold (Some h) b = Some (h @ [b])" using Cons.prems by (auto simp: kDelimiter_def hold_def)
  obtain r where r: "push (reader dev) b = Some (NeedMore, r)" "reader_ok r" "reader_holds r = Some (h @ [b])"
    using reader_more [OF Cons.prems(1) b(1)] Cons.prems(2) b(2) by auto
  then show ?case using Cons.IH [of "dev\<lparr>reader := r\<rparr>" "h @ [b]"] Cons.prems by auto
qed

lemma reader_takes_wire:
  assumes "reader_ok r" "reader_holds r = Some (cobs_encoding (frame_raw t ps))" "length ps \<le> 250"
  shows "\<exists>r'. push r kDelimiter = Some (FrameReady, r') \<and> reader_ok r' \<and> reader_holds r' = Some [] \<and>
    frame_wf (frame r') \<and> ftype (frame r') = t \<and> frame_data (frame r') = ps"
  using reader_close [OF assms(1)] assms(2) region_msg_wire [OF assms(3), of t]
  by (auto simp: frame_msg_def)

lemma wire_code:
  assumes "length ps \<le> 250"
  shows "0 \<notin> set (cobs_encoding (frame_raw t ps))" "length ([] :: byte list) + length (cobs_encoding (frame_raw t ps)) \<le> 255"
    "frame_wire t ps = cobs_encoding (frame_raw t ps) @ [kDelimiter]"
  using assms by (simp_all add: cobs_io.code_no_zero length_cobs_encoding_small frame_wire_def)

lemma poll_loop_stream:
  assumes "reader_ok (reader dev)" "reader_holds (reader dev) = Some []" "length x \<le> 250"
  shows "\<exists>r. reader_ok r \<and> reader_holds r = Some [] \<and> frame_wf (frame r) \<and> frame_data (frame r) = x \<and>
    poll_loop cl reg (frame_wire MT_Stream x @ s) k dev =
      dev_dispatch_stream cl reg (frame r) (dev\<lparr>reader := r\<rparr>) \<bind>
        (\<lambda>(q, dev). case q of Inl e \<Rightarrow> Some (Inl e, dev)
          | Inr hit \<Rightarrow> poll_loop cl reg s (if hit then k + 1 else k) dev)"
proof -
  note w = wire_code [OF assms(3), of MT_Stream]
  obtain r where r: "reader_ok r" "reader_holds r = Some (cobs_encoding (frame_raw MT_Stream x))"
      "poll_loop cl reg (frame_wire MT_Stream x @ s) k dev = poll_loop cl reg (kDelimiter # s) k (dev\<lparr>reader := r\<rparr>)"
    using poll_loop_skip [OF assms(1,2) w(1,2), of cl reg "kDelimiter # s" k] w(3) by auto
  then show ?thesis using reader_takes_wire [OF r(1,2) assms(3)] by auto
qed

lemma await_loop_skip:
  "\<lbrakk>reader_ok (reader dev); reader_holds (reader dev) = Some h; 0 \<notin> set s; length h + length s \<le> 255;
    supplies rd cs (io dev); unread dev cs = s @ s'\<rbrakk> \<Longrightarrow>
   \<exists>d cs'. reader_ok (reader d) \<and> reader_holds (reader d) = Some (h @ s) \<and> world d = world dev \<and>
     callbacks d = callbacks dev \<and> supplies rd cs' (io d) \<and> unread d cs' = s' \<and>
     await_loop rd cl reg dev = await_loop rd cl reg d"
proof (induction s arbitrary: h dev cs)
  case Nil
  then show ?case by (intro exI [of _ dev] exI [of _ cs]) simp
next
  case (Cons b s)
  have b: "b \<noteq> kDelimiter" "hold (Some h) b = Some (h @ [b])" using Cons.prems by (auto simp: kDelimiter_def hold_def)
  obtain r where r: "push (reader dev) b = Some (NeedMore, r)" "reader_ok r" "reader_holds r = Some (h @ [b])"
    using reader_more [OF Cons.prems(1) b(1)] Cons.prems(2) b(2) by auto
  obtain t p k cs1 where n: "next_byte rd dev = Some (Inr (Some b), dev\<lparr>io := t, pending := p, pending_pos := k\<rparr>)"
      "supplies rd cs1 t" "s @ s' = drop k p @ concat cs1"
    using next_byte_unread [OF Cons.prems(5)] Cons.prems(6) by auto
  let ?d = "dev\<lparr>io := t, pending := p, pending_pos := k, reader := r\<rparr>"
  have "await_loop rd cl reg dev = await_loop rd cl reg ?d"
    using r(1) by (simp add: await_loop_byte [OF n(1)] await_byte_def)
  then show ?case using Cons.IH [of ?d "h @ [b]" cs1] Cons.prems(3,4) r(2,3) n(2,3) by (auto simp: unread_def)
qed

lemma await_loop_frame:
  assumes "reader_ok (reader dev)" "reader_holds (reader dev) = Some []" "length ps \<le> 250"
    and "supplies rd cs (io dev)" "unread dev cs = frame_wire t ps @ s"
  shows "\<exists>d cs'. reader_ok (reader d) \<and> reader_holds (reader d) = Some [] \<and> world d = world dev \<and>
    callbacks d = callbacks dev \<and> supplies rd cs' (io d) \<and> unread d cs' = s \<and>
    frame_wf (frame (reader d)) \<and> frame_msg (frame (reader d)) = (t, ps) \<and>
    await_loop rd cl reg dev =
      (if t = MT_Reply then Some (Inr (Some (frame (reader d))), d)
       else if t = MT_Stream then dev_dispatch_stream cl reg (frame (reader d)) d \<bind>
         (\<lambda>(q, dev). case q of Inl e \<Rightarrow> Some (Inl e, dev) | Inr _ \<Rightarrow> await_loop rd cl reg dev)
       else await_loop rd cl reg d)"
proof -
  note w = wire_code [OF assms(3), of t]
  have "unread dev cs = cobs_encoding (frame_raw t ps) @ kDelimiter # s" using assms(5) w(3) by simp
  from await_loop_skip [OF assms(1,2) w(1,2) assms(4) this, of cl reg] obtain d1 cs1 where
    d1: "reader_ok (reader d1)" "reader_holds (reader d1) = Some (cobs_encoding (frame_raw t ps))" "world d1 = world dev"
      "callbacks d1 = callbacks dev" "supplies rd cs1 (io d1)" "unread d1 cs1 = kDelimiter # s"
      "await_loop rd cl reg dev = await_loop rd cl reg d1" by auto
  obtain r where r: "push (reader d1) kDelimiter = Some (FrameReady, r)" "reader_ok r" "reader_holds r = Some []"
      "frame_wf (frame r)" "ftype (frame r) = t" "frame_data (frame r) = ps"
    using reader_takes_wire [OF d1(1,2) assms(3)] by blast
  obtain t' p k cs2 where n: "next_byte rd d1 = Some (Inr (Some kDelimiter), d1\<lparr>io := t', pending := p, pending_pos := k\<rparr>)"
      "supplies rd cs2 t'" "s = drop k p @ concat cs2"
    using next_byte_unread [OF d1(5)] d1(6) by auto
  let ?d = "d1\<lparr>io := t', pending := p, pending_pos := k, reader := r\<rparr>"
  have "await_loop rd cl reg d1 =
      (if t = MT_Reply then Some (Inr (Some (frame r)), ?d)
       else if t = MT_Stream then dev_dispatch_stream cl reg (frame r) ?d \<bind>
         (\<lambda>(q, dev). case q of Inl e \<Rightarrow> Some (Inl e, dev) | Inr _ \<Rightarrow> await_loop rd cl reg dev)
       else await_loop rd cl reg ?d)"
    using r(1,5) by (subst await_loop.simps) (simp add: n(1) Let_def)
  then show ?thesis using d1(3,4,7) r n(2,3)
    by (intro exI [of _ ?d] exI [of _ cs2]) (simp add: frame_msg_def unread_def)
qed

section \<open>Polling from within a poll\<close>

definition silent :: "'io \<Rightarrow> ('io, 'w, 'cb) PyDevice \<Rightarrow> bool" where
  "silent t dev \<longleftrightarrow> io dev = t \<and> pending dev = [] \<and> pending_pos dev = 0"

lemma poll_silent:
  assumes "rd n t = (Inr (Some []), t)" "silent t dev"
  shows "poll rd cl reg n dev = Some (Inr 0, dev)"
  using assms by (simp add: poll_def read_chunk_def silent_def)

context stream_registry
begin

text \<open>Streams that arrive while callbacks only take notes.\<close>

lemma poll_loop_notes:
  assumes "\<And>cb args d. silent t d \<Longrightarrow> cl cb args d = Some (Inr (), d\<lparr>world := world d @ [args]\<rparr>)"
  shows "\<lbrakk>reader_ok (reader dev); reader_holds (reader dev) = Some []; silent t dev;
    \<And>x. x \<in> set xs \<Longrightarrow> length x \<le> 250 \<and> recipient rs (callbacks dev) x = Some (Inr (to x, arg x))\<rbrakk> \<Longrightarrow>
   \<exists>dev'. poll_loop cl reg (streams xs) k dev = Some (Inr (k + length xs), dev') \<and> reader_ok (reader dev') \<and>
     reader_holds (reader dev') = Some [] \<and> silent t dev' \<and> callbacks dev' = callbacks dev \<and>
     world dev' = world dev @ map arg xs"
proof (induction xs arbitrary: dev k)
  case (Cons x xs)
  have x: "length x \<le> 250" "recipient rs (callbacks dev) x = Some (Inr (to x, arg x))" using Cons.prems(4) by simp_all
  obtain r where r: "reader_ok r" "reader_holds r = Some []" "frame_wf (frame r)" "frame_data (frame r) = x"
      "poll_loop cl reg (frame_wire MT_Stream x @ streams xs) k dev =
        dev_dispatch_stream cl reg (frame r) (dev\<lparr>reader := r\<rparr>) \<bind>
          (\<lambda>(q, dev). case q of Inl e \<Rightarrow> Some (Inl e, dev)
            | Inr hit \<Rightarrow> poll_loop cl reg (streams xs) (if hit then k + 1 else k) dev)"
    using poll_loop_stream [OF Cons.prems(1,2) x(1)] by blast
  let ?d = "dev\<lparr>reader := r, world := world dev @ [arg x]\<rparr>"
  have "cl (to x) (arg x) (dev\<lparr>reader := r\<rparr>) = Some (Inr (), ?d)"
    using assms [of "dev\<lparr>reader := r\<rparr>"] Cons.prems(3) by (simp add: silent_def)
  then have "poll_loop cl reg (streams (x # xs)) k dev = poll_loop cl reg (streams xs) (k + 1) ?d"
    using r(5) x(2) by (simp add: dispatch_calls [OF r(3)] r(4))
  then show ?case using Cons.IH [of ?d "k + 1"] Cons.prems(3,4) r(1,2) by (auto simp: silent_def)
qed (intro exI, simp)

lemma nested_poll_reorders:
  assumes "reader_ok (reader dev)" "reader_holds (reader dev) = Some []" "pending_pos dev = length (pending dev)"
    and reads: "rd n (io dev) = (Inr (Some (streams (x # ys))), t1)" "rd n t1 = (Inr (Some (streams zs)), t2)"
      "rd n t2 = (Inr (Some []), t2)"
    and prog: "\<And>cb. prog cb = [Poll n]"
    and xs: "\<And>v. v \<in> set (x # ys @ zs) \<Longrightarrow> length v \<le> kMaxPayload \<and> recipient rs (callbacks dev) v = Some (Inr (to v, arg v))"
  shows "\<exists>dev'. poll rd (run_callback rd reg prog (Suc (Suc k))) reg n dev = Some (Inr (Suc (length ys)), dev') \<and>
    world dev' = world dev @ map arg (x # zs @ ys)"
proof -
  have quiet: "run_callback rd reg prog (Suc j) cb args d = Some (Inr (), d\<lparr>world := world d @ [args]\<rparr>)"
    if "silent t2 d" for j cb args d
    using that poll_silent [where rd = rd and n = n and t = t2 and cl = "run_callback rd reg prog j" and reg = reg and dev = "d\<lparr>world := world d @ [args]\<rparr>", OF reads(3)]
    by (simp add: prog silent_def)
  let ?cl = "run_callback rd reg prog" and ?d0 = "dev\<lparr>io := t1, pending := [], pending_pos := 0\<rparr>"
  have x: "length x \<le> 250" "recipient rs (callbacks dev) x = Some (Inr (to x, arg x))"
    using xs [of x] by (simp_all add: kMaxPayload_def)
  obtain r where r: "reader_ok r" "reader_holds r = Some []" "frame_wf (frame r)" "frame_data (frame r) = x"
      "poll_loop (?cl (Suc (Suc k))) reg (frame_wire MT_Stream x @ streams ys) 0 ?d0 =
        dev_dispatch_stream (?cl (Suc (Suc k))) reg (frame r) (?d0\<lparr>reader := r\<rparr>) \<bind>
          (\<lambda>(q, dev). case q of Inl e \<Rightarrow> Some (Inl e, dev)
            | Inr hit \<Rightarrow> poll_loop (?cl (Suc (Suc k))) reg (streams ys) (if hit then 0 + 1 else 0) dev)"
    using poll_loop_stream [of ?d0 x] assms(1,2) x(1) by fastforce
  let ?d1 = "dev\<lparr>reader := r, world := world dev @ [arg x], io := t2, pending := [], pending_pos := 0\<rparr>"
  obtain d2 where d2: "poll_loop (?cl (Suc k)) reg (streams zs) 0 ?d1 = Some (Inr (length zs), d2)" "reader_ok (reader d2)"
      "reader_holds (reader d2) = Some []" "silent t2 d2" "callbacks d2 = callbacks dev" "world d2 = world dev @ [arg x] @ map arg zs"
    using poll_loop_notes [where t = t2 and cl = "?cl (Suc k)" and dev = ?d1 and xs = zs and to = to and arg = arg and k = 0, OF quiet] r(1,2) xs by (auto simp: silent_def kMaxPayload_def)
  have "?cl (Suc (Suc k)) (to x) (arg x) (?d0\<lparr>reader := r\<rparr>) = Some (Inr (), d2)"
    using reads(2) d2(1) by (simp add: prog poll_def read_chunk_def)
  moreover obtain d3 where "poll_loop (?cl (Suc (Suc k))) reg (streams ys) 1 d2 = Some (Inr (1 + length ys), d3)"
      "world d3 = world d2 @ map arg ys"
    using poll_loop_notes [where t = t2 and cl = "?cl (Suc (Suc k))" and dev = d2 and xs = ys and to = to and arg = arg and k = 1, OF quiet d2(2,3,4)] d2(5) xs by (auto simp: kMaxPayload_def)
  ultimately show ?thesis using r(5) reads(1) assms(3) d2(6) x(2)
    by (simp add: poll_def read_chunk_def dispatch_calls [OF r(3)] r(4))
qed

end

section \<open>Calling from within a call\<close>

text \<open>A callback that calls a command of the device and notes what it returned.\<close>

fun calling ::
  "buf \<Rightarrow> buf \<Rightarrow> 'io py_write \<Rightarrow> 'io py_read \<Rightarrow> 'o registry \<Rightarrow> ('a, 'r) CommandDef \<Rightarrow> 'a \<Rightarrow> nat \<Rightarrow>
   ('io, (StatusCode \<times> 'r) list, 'cb, 'o) py_callback" where
  "calling payload0 wire0 wr rd reg d a 0 cb args dev = Some (Inl PyException, dev)"
| "calling payload0 wire0 wr rd reg d a (Suc k) cb args dev =
     do {
       (out, dev) \<leftarrow> call payload0 wire0 (py_sender wr) (py_awaiter rd (calling payload0 wire0 wr rd reg d a k) reg) d a dev;
       Some (Inr (), dev\<lparr>world := world dev @ [out]\<rparr>)
     }"

lemma py_sender_writes:
  assumes "wr w (io dev) = (Inr (), t)"
  shows "py_sender wr (blit 0 w buffer) (length w) dev = Some (True, dev\<lparr>io := t\<rparr>)"
  using assms by (simp add: py_sender_def dev_send_command_def blit_def)

text \<open>A call that finds a reply at the head of the line takes it.\<close>

lemma call_takes_head:
  assumes "contract d sa sr" "valid sa a" "length payload0 = kMaxPayload" "length wire0 = kMaxPacket"
    and "reader_ok (reader dev)" "reader_holds (reader dev) = Some []"
    and "wr (frame_wire MT_Command (request d sa a)) (io dev) = (Inr (), t)" "supplies rd cs t"
    and "unread dev cs = frame_wire MT_Reply ps @ s" "1 \<le> length ps" "length ps \<le> kMaxPayload"
  shows "\<exists>dev' cs'. call payload0 wire0 (py_sender wr) (py_awaiter rd cl reg) d a dev = Some (result_of d sr ps, dev') \<and>
    reader_ok (reader dev') \<and> reader_holds (reader dev') = Some [] \<and> world dev' = world dev \<and>
    callbacks dev' = callbacks dev \<and> supplies rd cs' (io dev') \<and> unread dev' cs' = s"
proof -
  have line: "unread (dev\<lparr>io := t\<rparr>) cs = frame_wire MT_Reply ps @ s" "length ps \<le> 250"
    using assms(9,11) by (simp_all add: unread_def kMaxPayload_def)
  obtain d2 cs' where d2: "reader_ok (reader d2)" "reader_holds (reader d2) = Some []" "world d2 = world dev"
      "callbacks d2 = callbacks dev" "supplies rd cs' (io d2)" "unread d2 cs' = s" "frame_wf (frame (reader d2))"
      "frame_msg (frame (reader d2)) = (MT_Reply, ps)"
      "await_loop rd cl reg (dev\<lparr>io := t\<rparr>) = Some (Inr (Some (frame (reader d2))), d2)"
    using await_loop_frame [of "dev\<lparr>io := t\<rparr>" ps rd cs MT_Reply s cl reg] assms(5,6,8) line by auto
  have "py_awaiter rd cl reg Frame_init (dev\<lparr>io := t\<rparr>) = Some (True, frame (reader d2), d2)"
    using d2(9) by (simp add: py_awaiter_def dev_await_reply_def)
  from py_call_takes [OF assms(1-4) py_sender_writes [where wr = wr and dev = dev, OF assms(7)] this d2(7,8) assms(10)]
  show ?thesis using d2 by blast
qed

context stream_registry
begin

text \<open>A call that finds a stream there first runs its callback, then goes on.\<close>

lemma await_stream_first:
  assumes "reader_ok (reader dev)" "reader_holds (reader dev) = Some []"
    and "supplies rd cs (io dev)" "unread dev cs = frame_wire MT_Stream x @ s" "length x \<le> kMaxPayload"
    and "recipient rs (callbacks dev) x = Some (Inr (cb, args))"
  shows "\<exists>d cs'. reader_ok (reader d) \<and> reader_holds (reader d) = Some [] \<and> world d = world dev \<and>
    callbacks d = callbacks dev \<and> supplies rd cs' (io d) \<and> unread d cs' = s \<and>
    await_loop rd cl reg dev =
      cl cb args d \<bind> (\<lambda>(q, d). case q of Inl e \<Rightarrow> Some (Inl e, d) | Inr _ \<Rightarrow> await_loop rd cl reg d)"
proof -
  have x: "length x \<le> 250" using assms(5) by (simp add: kMaxPayload_def)
  obtain d cs' where d: "reader_ok (reader d)" "reader_holds (reader d) = Some []" "world d = world dev"
      "callbacks d = callbacks dev" "supplies rd cs' (io d)" "unread d cs' = s" "frame_wf (frame (reader d))"
      "frame_msg (frame (reader d)) = (MT_Stream, x)"
      "await_loop rd cl reg dev = dev_dispatch_stream cl reg (frame (reader d)) d \<bind>
        (\<lambda>(q, dev). case q of Inl e \<Rightarrow> Some (Inl e, dev) | Inr _ \<Rightarrow> await_loop rd cl reg dev)"
    using await_loop_frame [OF assms(1,2) x assms(3,4), of cl reg] by (auto simp: message_types)
  have "await_loop rd cl reg dev =
      cl cb args d \<bind> (\<lambda>(q, d). case q of Inl e \<Rightarrow> Some (Inl e, d) | Inr _ \<Rightarrow> await_loop rd cl reg d)"
    using d(4,8,9) assms(6)
    by (cases "cl cb args d") (auto simp: dispatch_calls [OF d(7)] frame_msg_def split: sum.splits)
  then show ?thesis using d by blast
qed

end

section \<open>Properties\<close>

lemma recipient_telemetry:
  "recipient app_decoders the_callbacks (telemetry_payload c) = Some (Inr ((), telemetry_args c))"
proof -
  have "stream_parse telemetry_fields (stream_body telemetry_fields c (512, temp_c10 c, ())) = Some (c, 512, temp_c10 c, ())"
    using telemetry.parse_body [OF telemetry_valid(1)] telemetry_valid(2) by simp
  then show ?thesis
    by (simp add: recipient_def telemetry_payload_def stream_payload_def telemetry_decodes the_callbacks_def telemetry_args_def)
qed

text \<open>C15: callbacks may use the device: whatever scripts of polls, registrations and raises the
  callbacks are, nested however deep, on a transport that runs dry \<open>poll\<close> and \<open>await_reply\<close>
  return, never leave an array, and leave a device in order with no more bytes ahead of it.\<close>

theorem reentrant_callbacks_safe:
  assumes "drained rd left" "stream_registry reg rs" "host_ok dev"
  shows "\<exists>r dev1 q f dev2.
    poll rd (run_callback rd reg prog k) reg n dev = Some (r, dev1) \<and>
    host_ok dev1 \<and> backlog left dev1 \<le> backlog left dev \<and>
    dev_await_reply rd (run_callback rd reg prog k) reg out dev = Some (q, f, dev2) \<and>
    host_ok dev2 \<and> backlog left dev2 \<le> backlog left dev"
proof -
  note re = run_callback_reentrant [OF assms(1,2), of prog k]
  obtain r dev1 where "poll rd (run_callback rd reg prog k) reg n dev = Some (r, dev1)" "settles left dev dev1"
    using reentrant.poll_settles [OF re assms(3)] by blast
  moreover obtain q dev2 where "await_loop rd (run_callback rd reg prog k) reg dev = Some (q, dev2)" "settles left dev dev2"
    using reentrant.await_loop_settles [OF re assms(3)] by blast
  ultimately show ?thesis by (auto simp: dev_await_reply_def settles_def split: sum.splits option.splits)
qed

theorem reentrant_callbacks_safe_witness:
  "\<exists>r dev1 q f dev2.
    poll uart_read (run_callback uart_read app_registry (\<lambda>_. [Poll 3, On ''telemetry'' (), Poll 3]) 9) app_registry 3 host_start = Some (r, dev1) \<and>
    host_ok dev1 \<and> backlog (\<lambda>u. length (to_host u)) dev1 \<le> backlog (\<lambda>u. length (to_host u)) host_start \<and>
    dev_await_reply uart_read (run_callback uart_read app_registry (\<lambda>_. [Poll 3, On ''telemetry'' (), Poll 3]) 9) app_registry Frame_init host_start = Some (q, f, dev2) \<and>
    host_ok dev2 \<and> backlog (\<lambda>u. length (to_host u)) dev2 \<le> backlog (\<lambda>u. length (to_host u)) host_start"
  by (rule reentrant_callbacks_safe [OF uart_dry.drained_axioms app_reg.stream_registry_axioms])
     (simp add: host_ok_def host_start_def on_def PyDevice_init_def)

text \<open>A callback that polls changes the order of delivery: the streams that the nested poll
  reads are delivered before the rest of the chunk that the outer poll is working on, although
  they were sent after it; and the outer poll counts only its own.\<close>

lemma poll_in_callback_reorders:
  assumes "stream_registry reg rs" "reader_ok (reader dev)" "reader_holds (reader dev) = Some []"
    and "pending_pos dev = length (pending dev)"
    and "rd n (io dev) = (Inr (Some (streams (x # ys))), t1)" "rd n t1 = (Inr (Some (streams zs)), t2)"
    and "rd n t2 = (Inr (Some []), t2)" "\<And>cb. prog cb = [Poll n]"
    and "\<And>v. v \<in> set (x # ys @ zs) \<Longrightarrow> length v \<le> kMaxPayload \<and> recipient rs (callbacks dev) v = Some (Inr (to v, arg v))"
  shows "\<exists>dev'. poll rd (run_callback rd reg prog (Suc (Suc k))) reg n dev = Some (Inr (Suc (length ys)), dev') \<and>
    world dev' = world dev @ map arg (x # zs @ ys)"
  by (rule stream_registry.nested_poll_reorders [where rd = rd and n = n and prog = prog and to = to and arg = arg, OF assms])

text \<open>C18: a callback that calls a command while a call is waiting takes that call's reply: the
  nested call returns what the first command's reply decodes to under the second command's
  contract, and the first call returns the reply to the second command, although the device answered
  each of them once and in order.\<close>

theorem nested_call_swaps_replies:
  assumes "stream_registry reg rs" "contract d1 sa1 sr1" "valid sa1 a1" "contract d2 sa2 sr2" "valid sa2 a2"
    and "length payload0 = kMaxPayload" "length wire0 = kMaxPacket"
    and "reader_ok (reader dev)" "reader_holds (reader dev) = Some []"
    and "wr (frame_wire MT_Command (request d1 sa1 a1)) (io dev) = (Inr (), t)" "supplies rd cs t"
    and "unread dev cs = frame_wire MT_Stream x @ frame_wire MT_Reply r1"
    and "\<And>u cs. supplies rd cs u \<Longrightarrow> \<exists>u' cs'. wr (frame_wire MT_Command (request d2 sa2 a2)) u = (Inr (), u') \<and>
      supplies rd cs' u' \<and> concat cs' = concat cs @ frame_wire MT_Reply r2"
    and "recipient rs (callbacks dev) x = Some (Inr (cb, args))"
    and "length x \<le> kMaxPayload" "1 \<le> length r1" "length r1 \<le> kMaxPayload" "1 \<le> length r2" "length r2 \<le> kMaxPayload"
  shows "\<exists>dev'. call payload0 wire0 (py_sender wr)
      (py_awaiter rd (calling payload0 wire0 wr rd reg d2 a2 (Suc k)) reg) d1 a1 dev = Some (result_of d1 sr1 r2, dev') \<and>
    world dev' = world dev @ [result_of d2 sr2 r1]"
proof -
  let ?cl = "calling payload0 wire0 wr rd reg d2 a2"
  have line: "unread (dev\<lparr>io := t\<rparr>) cs = frame_wire MT_Stream x @ frame_wire MT_Reply r1" using assms(12) by (simp add: unread_def)
  from stream_registry.await_stream_first [OF assms(1) _ _ _ line assms(15), of rd cb args "?cl (Suc k)"] obtain d cs1 where
    d: "reader_ok (reader d)" "reader_holds (reader d) = Some []" "world d = world dev" "supplies rd cs1 (io d)"
      "unread d cs1 = frame_wire MT_Reply r1"
      "await_loop rd (?cl (Suc k)) reg (dev\<lparr>io := t\<rparr>) = ?cl (Suc k) cb args d \<bind>
        (\<lambda>(q, d). case q of Inl e \<Rightarrow> Some (Inl e, d) | Inr _ \<Rightarrow> await_loop rd (?cl (Suc k)) reg d)"
    using assms(8,9,11,14) by auto
  obtain u' cs2 where w2: "wr (frame_wire MT_Command (request d2 sa2 a2)) (io d) = (Inr (), u')" "supplies rd cs2 u'"
      "concat cs2 = concat cs1 @ frame_wire MT_Reply r2" using assms(13) [OF d(4)] by blast
  have "unread d cs2 = frame_wire MT_Reply r1 @ frame_wire MT_Reply r2" using d(5) w2(3) by (simp add: unread_def)
  from call_takes_head [where rd = rd and cl = "?cl k" and reg = reg and wr = wr,
      OF assms(4,5,6,7) d(1,2) w2(1,2) this assms(16,17)] obtain e cs3 where
    e: "call payload0 wire0 (py_sender wr) (py_awaiter rd (?cl k) reg) d2 a2 d = Some (result_of d2 sr2 r1, e)"
      "reader_ok (reader e)" "reader_holds (reader e) = Some []" "world e = world d" "supplies rd cs3 (io e)"
      "unread e cs3 = frame_wire MT_Reply r2" by blast
  let ?e = "e\<lparr>world := world e @ [result_of d2 sr2 r1]\<rparr>"
  have r2: "length r2 \<le> 250" "unread ?e cs3 = frame_wire MT_Reply r2 @ []" using assms(19) e(6) by (simp_all add: kMaxPayload_def unread_def)
  obtain g where g: "world g = world ?e" "frame_wf (frame (reader g))" "frame_msg (frame (reader g)) = (MT_Reply, r2)"
      "await_loop rd (?cl (Suc k)) reg ?e = Some (Inr (Some (frame (reader g))), g)"
    using await_loop_frame [OF _ _ r2(1) _ r2(2), of rd "?cl (Suc k)" reg] e(2,3,5) by auto
  have "py_awaiter rd (?cl (Suc k)) reg Frame_init (dev\<lparr>io := t\<rparr>) = Some (True, frame (reader g), g)"
    using d(6) e(1) g(4) by (simp add: py_awaiter_def dev_await_reply_def)
  from py_call_takes [OF assms(2,3,6,7) py_sender_writes [where wr = wr and dev = dev, OF assms(10)] this g(2,3) assms(18)]
  show ?thesis using g(1) e(4) d(3) by simp
qed

text \<open>A transport object on which a write is answered at once, by its length.\<close>

definition mail_read :: "byte list py_read" where
  "mail_read n t = (Inr (Some t), [])"

definition mail_write :: "byte list py_write" where
  "mail_write bs t = (Inr (), t @ frame_wire MT_Reply (if length bs = 8 then [SC_Ok, 0, 2] else [SC_Ok, 5, 0, 0, 0]))"

definition mail_host :: "32 word \<Rightarrow> (byte list, 'w list, unit) PyDevice" where
  "mail_host c = on ''telemetry'' () (PyDevice_init (frame_wire MT_Stream (telemetry_payload c)) [])"

lemma mail_host_sel:
  "reader (mail_host c) = FrameReader_init" "io (mail_host c) = frame_wire MT_Stream (telemetry_payload c)"
  "pending (mail_host c) = []" "pending_pos (mail_host c) = 0" "callbacks (mail_host c) = the_callbacks" "world (mail_host c) = []"
  by (simp_all add: mail_host_def on_def PyDevice_init_def the_callbacks_def)

lemma supplies_mail: "supplies mail_read (if t = [] then [] else [t]) t"
  by (auto intro!: supplies_chunk supplies_empty simp: mail_read_def)

lemma mail_supplies: "supplies mail_read cs t \<Longrightarrow> concat cs = t"
  by (induction rule: supplies.induct) (auto simp: mail_read_def)

theorem nested_call_swaps_replies_witness:
  "\<exists>dev'. call zero_payload zero_wire (py_sender mail_write)
      (py_awaiter mail_read (calling zero_payload zero_wire mail_write mail_read app_registry GetUptimeCmd () (Suc 0)) app_registry)
      ReadAdcCmd (2, ()) (mail_host 7) = Some (result_of ReadAdcCmd u16_fields [SC_Ok, 5, 0, 0, 0], dev') \<and>
    world dev' = world (mail_host 7 :: (_, (StatusCode \<times> 32 word \<times> unit) list, _) PyDevice) @
      [result_of GetUptimeCmd u32_fields [SC_Ok, 0, 2]]"
proof (rule nested_call_swaps_replies [OF app_reg.stream_registry_axioms
      handler_contract.axioms(1) [OF read_adc.handler_contract_axioms] _
      handler_contract.axioms(1) [OF get_uptime.handler_contract_axioms]])
  let ?t = "frame_wire MT_Stream (telemetry_payload 7) @ frame_wire MT_Reply [SC_Ok, 0, 2]"
  have adc: "length (frame_wire MT_Command (request ReadAdcCmd u8_fields (2, ()))) = 8"
    and up: "length (frame_wire MT_Command (request GetUptimeCmd tnil_spec ())) = 7"
    by (simp_all add: length_frame_wire request_def codec_sel tnil_spec_def tcons_spec_def)
  show "mail_write (frame_wire MT_Command (request ReadAdcCmd u8_fields (2, ()))) (io (mail_host 7)) = (Inr (), ?t)"
    by (simp only: mail_write_def adc mail_host_sel) simp
  show "supplies mail_read (if ?t = [] then [] else [?t]) ?t" by (rule supplies_mail)
  show "unread (mail_host 7) (if ?t = [] then [] else [?t]) = ?t"
    by (simp add: unread_def mail_host_sel frame_wire_def)
  show "\<exists>u' cs'. mail_write (frame_wire MT_Command (request GetUptimeCmd tnil_spec ())) u = (Inr (), u') \<and>
      supplies mail_read cs' u' \<and> concat cs' = concat cs @ frame_wire MT_Reply [SC_Ok, 5, 0, 0, 0]"
    if "supplies mail_read cs u" for u cs
    using mail_supplies [OF that] mail_supplies [OF supplies_mail] supplies_mail up
    by (intro exI [of _ "u @ frame_wire MT_Reply [SC_Ok, 5, 0, 0, 0]"] exI conjI) (auto simp: mail_write_def)
qed (use telemetry_payload_bound in \<open>simp_all add: mail_host_sel recipient_telemetry kMaxPayload_def codec_sel tnil_spec_def tcons_spec_def zero_payload_def zero_wire_def kMaxPacket_def\<close>)

text \<open>C25: an exception in a stream callback, or a stream body that does not decode, ends the program
  when it happens while a command waits for its reply: \<open>call\<close> is \<open>noexcept\<close>. The same stream met by
  \<open>poll\<close> raises an ordinary Python exception.\<close>

theorem raising_callback_ends_call:
  assumes "stream_registry reg rs" "contract d sa sr" "valid sa a" "length payload0 = kMaxPayload" "length wire0 = kMaxPacket"
    and "reader_ok (reader dev)" "reader_holds (reader dev) = Some []" "pending dev = []" "pending_pos dev = 0"
    and "length x \<le> kMaxPayload" "recipient rs (callbacks dev) x = Some q"
    and "\<And>cb args d. q = Inr (cb, args) \<Longrightarrow> \<exists>e d'. cl cb args d = Some (Inl e, d')"
    and "wr (frame_wire MT_Command (request d sa a)) (io dev) = (Inr (), t)" "supplies rd cs t" "concat cs = frame_wire MT_Stream x @ s"
    and "rd n (io dev) = (Inr (Some (frame_wire MT_Stream x @ s')), t')"
  shows "call payload0 wire0 (py_sender wr) (py_awaiter rd cl reg) d a dev = None \<and>
    (\<exists>e dev'. poll rd cl reg n dev = Some (Inl e, dev'))"
proof (rule conjI)
  have x: "length x \<le> 250" using assms(10) by (simp add: kMaxPayload_def)
  have raises: "\<exists>e d'. dev_dispatch_stream cl reg f v = Some (Inl e, d')"
    if "frame_wf f" "frame_data f = x" "callbacks v = callbacks dev" for f v
  proof (cases q)
    case (Inr p)
    then obtain cb args e d' where "q = Inr (cb, args)" "cl cb args v = Some (Inl e, d')"
      using assms(12) [of "fst p" "snd p" v] by (metis prod.collapse)
    then show ?thesis using that assms(11) by (simp add: stream_registry.dispatch_calls [OF assms(1) that(1)])
  qed (use that assms(11) in \<open>simp add: stream_registry.dispatch_calls [OF assms(1) that(1)]\<close>)
  let ?d = "dev\<lparr>io := t\<rparr>"
  have "unread ?d cs = frame_wire MT_Stream x @ s" using assms(8,9,15) by (simp add: unread_def)
  then obtain v where v: "callbacks v = callbacks dev" "frame_wf (frame (reader v))" "frame_data (frame (reader v)) = x"
      "await_loop rd cl reg ?d = dev_dispatch_stream cl reg (frame (reader v)) v \<bind>
        (\<lambda>(q, dev). case q of Inl e \<Rightarrow> Some (Inl e, dev) | Inr _ \<Rightarrow> await_loop rd cl reg dev)"
    using await_loop_frame [of ?d x rd cs MT_Stream s cl reg] assms(6,7,14) x by (auto simp: message_types frame_msg_def)
  then have "py_awaiter rd cl reg Frame_init ?d = None"
    using raises [OF v(2,3,1)] by (auto simp: py_awaiter_def dev_await_reply_def)
  then show "call payload0 wire0 (py_sender wr) (py_awaiter rd cl reg) d a dev = None"
    using contract.call_request_wire [OF assms(2-5)] py_sender_writes [where wr = wr and dev = dev, OF assms(13)]
    by (simp add: call_def)
  let ?p = "dev\<lparr>io := t', pending := [], pending_pos := 0\<rparr>"
  obtain r where "frame_wf (frame r)" "frame_data (frame r) = x"
      "poll_loop cl reg (frame_wire MT_Stream x @ s') 0 ?p =
        dev_dispatch_stream cl reg (frame r) (?p\<lparr>reader := r\<rparr>) \<bind>
        (\<lambda>(q, dev). case q of Inl e \<Rightarrow> Some (Inl e, dev) | Inr hit \<Rightarrow> poll_loop cl reg s' (if hit then 0 + 1 else 0) dev)"
    using poll_loop_stream [of ?p x] assms(6,7) x by fastforce
  then show "\<exists>e dev'. poll rd cl reg n dev = Some (Inl e, dev')"
    using raises [of "frame r" "?p\<lparr>reader := r\<rparr>"] assms(8,9,16) by (auto simp: poll_def read_chunk_def)
qed

text \<open>A callback that raises, met by \<open>get_uptime_ms\<close> and by \<open>poll\<close>.\<close>

theorem raising_callback_ends_call_witness:
  "call zero_payload zero_wire (py_sender mail_write)
      (py_awaiter mail_read (run_callback mail_read app_registry (\<lambda>_. [Raise ValueError]) 1) app_registry)
      GetUptimeCmd () (mail_host 7) = None \<and>
    (\<exists>e dev'. poll mail_read (run_callback mail_read app_registry (\<lambda>_. [Raise ValueError]) 1) app_registry 64 (mail_host 7) = Some (Inl e, dev'))"
proof (rule raising_callback_ends_call [OF app_reg.stream_registry_axioms
      handler_contract.axioms(1) [OF get_uptime.handler_contract_axioms]])
  let ?w = "frame_wire MT_Command (request GetUptimeCmd tnil_spec ())"
  let ?s = "frame_wire MT_Reply (if length ?w = 8 then [SC_Ok, 0, 2] else [SC_Ok, 5, 0, 0, 0])"
  let ?t = "frame_wire MT_Stream (telemetry_payload 7) @ ?s"
  show "mail_write ?w (io (mail_host 7)) = (Inr (), ?t)" by (simp add: mail_write_def mail_host_sel)
  show "supplies mail_read (if ?t = [] then [] else [?t]) ?t" by (rule supplies_mail)
  show "concat (if ?t = [] then [] else [?t]) = ?t" by simp
  show "mail_read 64 (io (mail_host 7)) = (Inr (Some (frame_wire MT_Stream (telemetry_payload 7) @ [])), [])"
    by (simp add: mail_read_def mail_host_sel)
qed (use telemetry_payload_bound in \<open>auto simp: mail_host_sel recipient_telemetry kMaxPayload_def tnil_spec_def zero_payload_def zero_wire_def kMaxPacket_def\<close>)

end
