(* ===== verification/PyRegister.thy ===== *)
theory PyRegister
  imports PyModule
begin

text \<open>
  What the two Python modules register beside the class \<open>Device\<close>: the functions and constants of
  \<open>src/bindings/eup_core_pybind.hpp\<close> that are not in \<open>PyCore\<close>, and \<open>register_core\<close> of
  \<open>src/bindings/eup_pybind.hpp\<close>, which binds the framing functions a second time. An enumeration
  is registered as the list of its names with their values.
\<close>

section \<open>The core module\<close>

definition py_crc16_ccitt :: "byte list \<Rightarrow> 16 word option" where
  "py_crc16_ccitt s = crc16_ccitt s (length s)"

text \<open>Here the argument is any \<open>size_t\<close>, not the size of an object: the sum may wrap around.\<close>

definition py_cobs_max_encoded_size :: "64 word \<Rightarrow> 64 word" where
  "py_cobs_max_encoded_size n = n + n div 254 + 1"

lemma py_max_size:
  "cobs_max_encoded_size n < 2 ^ 64 \<Longrightarrow> py_cobs_max_encoded_size (of_nat n) = of_nat (cobs_max_encoded_size n)"
  "py_cobs_max_encoded_size (- 1) < 2 ^ 57"
proof -
  assume "cobs_max_encoded_size n < 2 ^ 64"
  then have n: "n < 2 ^ 64" by (simp add: cobs_max_encoded_size_def)
  have "unat (of_nat n :: 64 word) = n" using n by (simp add: unat_of_nat)
  then have "(of_nat n :: 64 word) div 254 = of_nat (n div 254)" by (simp add: word_arith_nat_div)
  then show "py_cobs_max_encoded_size (of_nat n) = of_nat (cobs_max_encoded_size n)"
    by (simp add: py_cobs_max_encoded_size_def cobs_max_encoded_size_def)
qed (simp add: py_cobs_max_encoded_size_def)

definition core_constants :: "(string \<times> nat) list" where
  "core_constants = [(''MAX_PAYLOAD'', kMaxPayload), (''MAX_PACKET'', kMaxPacket), (''DELIMITER'', unat kDelimiter)]"

definition core_MessageType :: "(string \<times> MessageType) list" where
  "core_MessageType = [(''INVALID'', MT_Invalid), (''COMMAND'', MT_Command), (''REPLY'', MT_Reply), (''STREAM'', MT_Stream)]"

definition core_FrameStatus :: "(string \<times> FrameStatus) list" where
  "core_FrameStatus = [(''Ok'', Frame_Ok), (''PayloadTooLarge'', PayloadTooLarge), (''BufferTooSmall'', BufferTooSmall),
     (''Truncated'', Truncated), (''LengthMismatch'', LengthMismatch), (''CrcMismatch'', CrcMismatch), (''CobsError'', CobsError)]"

section \<open>The application module\<close>

definition app_MessageType :: "(string \<times> MessageType) list" where
  "app_MessageType = [(''INVALID'', MT_Invalid), (''COMMAND'', MT_Command), (''REPLY'', MT_Reply), (''STREAM'', MT_Stream)]"

definition app_StatusCode :: "(string \<times> StatusCode) list" where
  "app_StatusCode = [(''Ok'', SC_Ok), (''UnknownCommand'', SC_UnknownCommand), (''BadArguments'', SC_BadArguments),
     (''ReplyTooLarge'', SC_ReplyTooLarge), (''Busy'', SC_Busy), (''TransportError'', SC_TransportError)]"

definition app_frame_payload :: "Frame \<Rightarrow> byte list" where
  "app_frame_payload f = take (unat (flength f)) (payload f)"

definition app_encode_frame :: "buf \<Rightarrow> MessageType \<Rightarrow> byte list \<Rightarrow> (PyError + byte list) option" where
  "app_encode_frame wire0 type p =
     do {
       ((st, len), wire) \<leftarrow> encode_frame type (Some p) (of_nat (length p)) wire0 kMaxPacket;
       Some (if st \<noteq> Frame_Ok then Inl ValueError else Inr (take len wire))
     }"

definition app_decode_region :: "byte list \<Rightarrow> (PyError + Frame) option" where
  "app_decode_region r =
     do {
       ((st, crc), f) \<leftarrow> decode_region r (length r) Frame_init;
       Some (if st \<noteq> Frame_Ok then Inl ValueError else Inr f)
     }"

text \<open>\<open>poll\<close> with its default argument.\<close>

definition poll_default ::
  "'io py_read \<Rightarrow> ('io, 'w, 'cb, 'o) py_callback \<Rightarrow> 'o registry \<Rightarrow> ('io, 'w, 'cb) PyDevice \<Rightarrow>
   ((PyError + nat) \<times> ('io, 'w, 'cb) PyDevice) option" where
  "poll_default rd cl reg dev = poll rd cl reg 256 dev"

section \<open>The two modules agree\<close>

lemma app_core_same:
  "app_encode_frame = py_encode_frame" "app_decode_region = py_decode_region"
  "app_frame_payload = py_frame_payload" "app_MessageType = core_MessageType"
  by (auto simp: fun_eq_iff app_encode_frame_def py_encode_frame_def app_decode_region_def py_decode_region_def
      app_frame_payload_def py_frame_payload_def app_MessageType_def core_MessageType_def)

text \<open>No two names, and no two values, of an enumeration coincide; every frame status is named.\<close>

lemma enums_distinct:
  "distinct (map fst core_FrameStatus)" "distinct (map snd core_FrameStatus)" "st \<in> set (map snd core_FrameStatus)"
  "distinct (map fst app_StatusCode)" "distinct (map snd app_StatusCode)"
  "distinct (map fst app_MessageType)" "distinct (map snd app_MessageType)"
  by (simp_all add: core_FrameStatus_def app_StatusCode_def app_MessageType_def status_codes message_types) (cases st; simp)

text \<open>The framing functions of the two Python modules are inverse, also across the modules: a
  packet that one encodes, without its delimiter, decodes with the other to the same type and
  payload, for any payload up to the maximum.\<close>

lemma python_frames_roundtrip:
  assumes "length wire0 = kMaxPacket" "length p \<le> kMaxPayload"
  shows "\<exists>w f. app_encode_frame wire0 type p = Some (Inr w) \<and> length w = length p + 6 \<and>
    py_decode_region (butlast w) = Some (Inr f) \<and> ftype f = type \<and> py_frame_payload f = p"
proof -
  have n: "length p \<le> 250" "length p mod 256 = length p" using assms(2) by (simp_all add: kMaxPayload_def)
  have len: "unat (of_nat (length p) :: byte) = length p" using n(1) by (intro unat_of_nat_byte) simp
  have valid: "payload_valid (Some p) (of_nat (length p))" "payload_bytes (Some p) (of_nat (length p)) = p"
    using len by (simp_all add: payload_valid_def payload_bytes_def)
  have "encode_frame type (Some p) (of_nat (length p)) wire0 kMaxPacket =
      Some ((Frame_Ok, length p + 6), blit 0 (frame_wire type p) wire0)"
    using encode_frame_Ok [OF _ valid(1), of kMaxPacket wire0 type] n len valid(2) assms(1) by (simp add: kMaxPacket_def)
  then have enc: "app_encode_frame wire0 type p = Some (Inr (frame_wire type p))"
    using length_frame_wire [OF n(1), of type] by (simp add: app_encode_frame_def) (simp add: blit_def)
  have "decode_region (cobs_encoding (frame_raw type p)) (length (cobs_encoding (frame_raw type p))) Frame_init =
      Some ((Frame_Ok, frame_crc type p), frame_store (frame_raw type p) Frame_init)"
    using n(1) frame_wf_init by (simp add: decode_region_verdict region_verdict_wire)
  then have dec: "py_decode_region (butlast (frame_wire type p)) = Some (Inr (frame_store (frame_raw type p) Frame_init))"
    by (simp add: py_decode_region_def frame_wire_def)
  have wf: "length (payload Frame_init) = kMaxPayload" using frame_wf_init by (simp add: frame_wf_def)
  have data: "py_frame_payload f = frame_data f" for f by (simp add: py_frame_payload_def frame_data_def)
  show ?thesis
    using enc dec frame_store_data [OF n(1) wf, of type] length_frame_wire [OF n(1), of type]
    by (simp add: data)
qed

end
