(* ===== verification/PyEup.thy ===== *)
theory PyEup
  imports PyRegister
begin

text \<open>
  The Python module \<open>eup\<close>: \<open>register_crc16\<close>, \<open>register_cobs\<close>, \<open>register_framing\<close> and \<open>register_all\<close> of
  \<open>src/bindings/eup_core_pybind.hpp\<close>, called by \<open>src/bindings/eup_core_module.cpp\<close>. The module is the
  map of its names to functions of argument lists, the class \<open>FrameReader\<close> the map of its methods;
  arguments that do not convert, or the wrong number of them, are a \<open>TypeError\<close>. pybind11's
  converters are the record \<open>CoreTypes\<close> of functions on a type \<open>'o\<close> of objects, its laws the
  locale \<open>core_types\<close>. \<open>None\<close> is, as everywhere, a memory fault.
\<close>

section \<open>The code\<close>

record 'o CoreTypes =
  load_bytes :: "'o \<Rightarrow> byte list option"
  load_u16 :: "'o \<Rightarrow> 16 word option"
  load_size :: "'o \<Rightarrow> 64 word option"
  load_type :: "'o \<Rightarrow> MessageType option"
  put_bytes :: "byte list \<Rightarrow> 'o"
  put_u16 :: "16 word \<Rightarrow> 'o"
  put_size :: "64 word \<Rightarrow> 'o"
  put_frame :: "Frame \<Rightarrow> 'o"
  put_frames :: "Frame list \<Rightarrow> 'o"
  put_none :: 'o

type_synonym 'o py_fun = "'o list \<Rightarrow> (PyError + 'o) option"

fun def0 :: "(PyError + 'o) option \<Rightarrow> 'o py_fun" where
  "def0 f [] = f"
| "def0 f args = Some (Inl TypeError)"

fun def1 :: "('o \<Rightarrow> 'a option) \<Rightarrow> ('a \<Rightarrow> (PyError + 'o) option) \<Rightarrow> 'o py_fun" where
  "def1 load f [x] = (case load x of None \<Rightarrow> Some (Inl TypeError) | Some a \<Rightarrow> f a)"
| "def1 load f args = Some (Inl TypeError)"

fun def2 :: "('o \<Rightarrow> 'a option) \<Rightarrow> ('o \<Rightarrow> 'b option) \<Rightarrow> ('a \<Rightarrow> 'b \<Rightarrow> (PyError + 'o) option) \<Rightarrow> 'o py_fun" where
  "def2 load1 load2 f [x, y] =
     (case (load1 x, load2 y) of (Some a, Some b) \<Rightarrow> f a b | _ \<Rightarrow> Some (Inl TypeError))"
| "def2 load1 load2 f args = Some (Inl TypeError)"

text \<open>The conversion of a result.\<close>

definition returning :: "('a \<Rightarrow> 'o) \<Rightarrow> (PyError + 'a) option \<Rightarrow> (PyError + 'o) option" where
  "returning put = map_option (map_sum id put)"

definition register_crc16 :: "'o CoreTypes \<Rightarrow> (string \<rightharpoonup> 'o py_fun) \<Rightarrow> (string \<rightharpoonup> 'o py_fun)" where
  "register_crc16 ct m = m(
     ''crc16_ccitt'' \<mapsto> def1 (load_bytes ct) (\<lambda>s. returning (put_u16 ct) (map_option Inr (py_crc16_ccitt s))),
     ''crc16_ccitt_init'' \<mapsto> def0 (Some (Inr (put_u16 ct crc16_ccitt_init))),
     ''crc16_ccitt_update'' \<mapsto> def2 (load_u16 ct) (load_bytes ct)
       (\<lambda>crc s. returning (put_u16 ct) (map_option Inr (py_crc16_ccitt_update crc s))))"

definition register_cobs :: "'o CoreTypes \<Rightarrow> (string \<rightharpoonup> 'o py_fun) \<Rightarrow> (string \<rightharpoonup> 'o py_fun)" where
  "register_cobs ct m = m(
     ''cobs_encode'' \<mapsto> def1 (load_bytes ct) (\<lambda>s. returning (put_bytes ct) (py_cobs_encode s)),
     ''cobs_decode'' \<mapsto> def1 (load_bytes ct) (\<lambda>s. returning (put_bytes ct) (py_cobs_decode s)),
     ''cobs_max_encoded_size'' \<mapsto> def1 (load_size ct) (\<lambda>n. Some (Inr (put_size ct (py_cobs_max_encoded_size n)))))"

text \<open>\<open>wire0\<close> is the uninitialised array of \<open>encode_frame\<close>'s lambda.\<close>

definition register_framing :: "buf \<Rightarrow> 'o CoreTypes \<Rightarrow> (string \<rightharpoonup> 'o py_fun) \<Rightarrow> (string \<rightharpoonup> 'o py_fun)" where
  "register_framing wire0 ct m = m(
     ''encode_frame'' \<mapsto> def2 (load_type ct) (load_bytes ct) (\<lambda>type p. returning (put_bytes ct) (py_encode_frame wire0 type p)),
     ''decode_region'' \<mapsto> def1 (load_bytes ct) (\<lambda>r. returning (put_frame ct) (py_decode_region r)))"

definition register_all :: "buf \<Rightarrow> 'o CoreTypes \<Rightarrow> (string \<rightharpoonup> 'o py_fun) \<Rightarrow> (string \<rightharpoonup> 'o py_fun)" where
  "register_all wire0 ct m = register_framing wire0 ct (register_cobs ct (register_crc16 ct m))"

definition eup :: "buf \<Rightarrow> 'o CoreTypes \<Rightarrow> (string \<rightharpoonup> 'o py_fun)" where
  "eup wire0 ct = register_all wire0 ct Map.empty"

text \<open>The methods of \<open>FrameReader\<close>, on the object's state.\<close>

type_synonym 'o reader_method = "'o list \<Rightarrow> FrameReader \<Rightarrow> ((PyError + 'o) \<times> FrameReader) option"

definition reader_methods :: "'o CoreTypes \<Rightarrow> (string \<rightharpoonup> 'o reader_method)" where
  "reader_methods ct =
     [''reset'' \<mapsto> (\<lambda>args r. Some (if args = [] then (Inr (put_none ct), reset r) else (Inl TypeError, r))),
      ''feed'' \<mapsto> (\<lambda>args r. case args of
          [x] \<Rightarrow> (case load_bytes ct x of
              None \<Rightarrow> Some (Inl TypeError, r)
            | Some s \<Rightarrow> do { (frames, r) \<leftarrow> feed r s; Some (Inr (put_frames ct frames), r) })
        | _ \<Rightarrow> Some (Inl TypeError, r))]"

section \<open>What the conversions promise\<close>

locale core_types =
  fixes ct :: "'o CoreTypes"
  assumes bytes_back: "load_bytes ct (put_bytes ct bs) = Some bs"
    and u16_back: "load_u16 ct (put_u16 ct w) = Some w"
    and size_back: "load_size ct (put_size ct n) = Some n"
begin

lemma cobs_functions:
  "\<exists>e. eup wire0 ct ''cobs_encode'' = Some e \<and> (\<exists>d enc. eup wire0 ct ''cobs_decode'' = Some d \<and>
     e [put_bytes ct s] = Some (Inr (put_bytes ct enc)) \<and> 0 \<notin> set enc \<and>
     d [put_bytes ct enc] = Some (Inr (put_bytes ct s)))"
  using py_cobs_roundtrip [of s]
  by (auto simp: eup_def register_all_def register_framing_def register_cobs_def returning_def bytes_back)

lemma crc_functions:
  "\<exists>c i u x y. eup wire0 ct ''crc16_ccitt'' = Some c \<and> eup wire0 ct ''crc16_ccitt_init'' = Some i \<and>
     eup wire0 ct ''crc16_ccitt_update'' = Some u \<and> i [] = Some (Inr x) \<and>
     u [x, put_bytes ct s] = Some (Inr y) \<and> c [put_bytes ct (s @ t)] = u [y, put_bytes ct t]"
  by (simp add: eup_def register_all_def register_framing_def register_cobs_def register_crc16_def returning_def
      bytes_back u16_back py_crc16_ccitt_def py_crc16_ccitt_update_def crc16_update_fold crc16_ccitt_fold)

end

datatype CoreObj = CoreInt int | CoreBytes "byte list" | CoreType MessageType | CoreFrame Frame | CoreFrames "Frame list" | CoreNone

fun core_word :: "CoreObj \<Rightarrow> 'a::len word option" where
  "core_word (CoreInt i) = (if 0 \<le> i \<and> i < 2 ^ LENGTH('a) then Some (word_of_int i) else None)"
| "core_word x = None"

definition core_objects :: "CoreObj CoreTypes" where
  "core_objects = \<lparr>load_bytes = (\<lambda>x. case x of CoreBytes b \<Rightarrow> Some b | _ \<Rightarrow> None), load_u16 = core_word, load_size = core_word,
     load_type = (\<lambda>x. case x of CoreType t \<Rightarrow> Some t | _ \<Rightarrow> None), put_bytes = CoreBytes,
     put_u16 = (\<lambda>w. CoreInt (uint w)), put_size = (\<lambda>w. CoreInt (uint w)), put_frame = CoreFrame,
     put_frames = CoreFrames, put_none = CoreNone\<rparr>"

interpretation core_obj: core_types core_objects
  using uint_lt2p [where 'a = 16] uint_lt2p [where 'a = 64] by unfold_locales (simp_all add: core_objects_def)

section \<open>No argument breaks the module\<close>

named_theorems py_total \<open>the bound functions return or raise\<close>

lemma py_cobs_total [py_total]: "\<exists>q. py_cobs_encode s = Some q" "\<exists>q. py_cobs_decode s = Some q"
  using py_cobs_roundtrip [of s]
    cobs_io.dec_safe [of "length s" s "length s + 1" "replicate (length s + 1) 0"]
  by (auto simp: py_cobs_decode_def Let_def)

lemma py_crc_total [py_total]: "\<exists>q. py_crc16_ccitt s = Some q" "\<exists>q. py_crc16_ccitt_update c s = Some q"
  by (simp_all add: py_crc16_ccitt_def py_crc16_ccitt_update_def crc16_ccitt_fold crc16_update_fold)

lemma py_decode_total [py_total]: "\<exists>q. py_decode_region r = Some q"
  using frame_wf_init by (auto simp: py_decode_region_def decode_region_verdict split: prod.split)

lemma py_encode_total:
  assumes "length wire0 = kMaxPacket"
  shows "\<exists>q. py_encode_frame wire0 type p = Some q"
proof -
  let ?len = "of_nat (length p) :: byte"
  have "unat ?len \<le> length p" by (simp add: unat_of_nat)
  then have "payload_valid (Some p) ?len" by (simp add: payload_valid_def)
  then have "\<exists>y. encode_frame type (Some p) ?len wire0 256 = Some y"
    using encode_frame_result [of ?len "Some p" 256 wire0 type] assms by (auto simp: kMaxPacket_def)
  then show ?thesis by (auto simp: py_encode_frame_def kMaxPacket_def split: prod.split)
qed

lemma returning_total: "\<exists>q. f = Some q \<Longrightarrow> \<exists>q. returning put f = Some q"
  by (auto simp: returning_def)

lemma def0_total: "\<exists>q. f = Some q \<Longrightarrow> \<exists>q. def0 f args = Some q"
  by (cases args) simp_all

lemma def1_total: "(\<And>a. \<exists>q. f a = Some q) \<Longrightarrow> \<exists>q. def1 load f args = Some q"
  by (cases "(load, f, args)" rule: def1.cases) (auto split: option.splits)

lemma def2_total: "(\<And>a b. \<exists>q. f a b = Some q) \<Longrightarrow> \<exists>q. def2 load1 load2 f args = Some q"
  by (cases "(load1, load2, f, args)" rule: def2.cases) (auto split: option.splits)

lemmas def_total = def0_total def1_total def2_total

definition core_functions :: "string list" where
  "core_functions = [''crc16_ccitt'', ''crc16_ccitt_init'', ''crc16_ccitt_update'', ''cobs_encode'', ''cobs_decode'',
     ''cobs_max_encoded_size'', ''encode_frame'', ''decode_region'']"

lemma eup_names: "dom (eup wire0 ct) = set core_functions"
  by (auto simp: core_functions_def eup_def register_all_def register_framing_def register_cobs_def register_crc16_def)

lemma map_Inr_total: "\<exists>q. f = Some q \<Longrightarrow> \<exists>q. map_option Inr f = Some q"
  by auto

lemma eup_total:
  assumes "length wire0 = kMaxPacket" "eup wire0 ct name = Some f"
  shows "\<exists>q. f args = Some q"
  using assms(2) unfolding eup_def register_all_def register_framing_def register_cobs_def register_crc16_def
  by (auto split: if_splits intro!: def_total returning_total map_Inr_total py_total py_encode_total [OF assms(1)])

lemma reader_ok_reset: "reader_ok r \<Longrightarrow> reader_ok (reset r)"
  by (simp add: reader_ok_def reset_def)

lemma reader_methods_total:
  assumes "reader_ok r" "reader_methods ct name = Some m"
  shows "\<exists>q r'. m args r = Some (q, r') \<and> reader_ok r'"
proof -
  have feed: "\<exists>fs r'. feed r s = Some (fs, r') \<and> reader_ok r'" for s
    using rdr.feed_msgs [OF assms(1), of s] by (auto simp: feed_def)
  have "name = ''reset'' \<or> name = ''feed''" using assms(2) by (auto simp: reader_methods_def split: if_splits)
  then show ?thesis
  proof
    assume "name = ''reset''"
    then have "m = (\<lambda>args r. Some (if args = [] then (Inr (put_none ct), reset r) else (Inl TypeError, r)))"
      using assms(2) by (simp add: reader_methods_def)
    then show ?thesis using assms(1) reader_ok_reset by simp
  next
    assume "name = ''feed''"
    then have m: "m args r = (case args of
        [x] \<Rightarrow> (case load_bytes ct x of
            None \<Rightarrow> Some (Inl TypeError, r)
          | Some s \<Rightarrow> do { (frames, r) \<leftarrow> feed r s; Some (Inr (put_frames ct frames), r) })
      | _ \<Rightarrow> Some (Inl TypeError, r))"
      using assms(2) by (auto simp: reader_methods_def)
    show ?thesis
    proof (cases "\<exists>x s. args = [x] \<and> load_bytes ct x = Some s")
      case True
      then obtain x s fs r' where "args = [x]" "load_bytes ct x = Some s" "feed r s = Some (fs, r')" "reader_ok r'"
        using feed by blast
      then show ?thesis using m by simp
    next
      case False
      then have "m args r = Some (Inl TypeError, r)"
        unfolding m by (auto split: list.splits option.splits)
      then show ?thesis using assms(1) by simp
    qed
  qed
qed

text \<open>A Python program's calls of the module and of one \<open>FrameReader\<close>; a name that is not there
  raises.\<close>

datatype 'o core_call = Fun string "'o list" | Method string "'o list"

fun core_step :: "buf \<Rightarrow> 'o CoreTypes \<Rightarrow> 'o core_call \<Rightarrow> FrameReader \<Rightarrow> ((PyError + 'o) \<times> FrameReader) option" where
  "core_step wire0 ct (Fun name args) r =
     (case eup wire0 ct name of None \<Rightarrow> Some (Inl PyException, r) | Some f \<Rightarrow> do { q \<leftarrow> f args; Some (q, r) })"
| "core_step wire0 ct (Method name args) r =
     (case reader_methods ct name of None \<Rightarrow> Some (Inl PyException, r) | Some m \<Rightarrow> m args r)"

fun core_run :: "buf \<Rightarrow> 'o CoreTypes \<Rightarrow> 'o core_call list \<Rightarrow> FrameReader \<Rightarrow> ((PyError + 'o) list \<times> FrameReader) option" where
  "core_run wire0 ct [] r = Some ([], r)"
| "core_run wire0 ct (c # cs) r =
     do { (q, r) \<leftarrow> core_step wire0 ct c r; (qs, r) \<leftarrow> core_run wire0 ct cs r; Some (q # qs, r) }"

lemma core_step_total:
  assumes "length wire0 = kMaxPacket" "reader_ok r"
  shows "\<exists>q r'. core_step wire0 ct c r = Some (q, r') \<and> reader_ok r'"
proof (cases c)
  case (Fun name args)
  show ?thesis
  proof (cases "eup wire0 ct name")
    case (Some f)
    then obtain q where "f args = Some q" using eup_total [OF assms(1)] by blast
    then show ?thesis using Fun Some assms(2) by simp
  qed (use Fun assms(2) in simp)
next
  case (Method name args)
  show ?thesis
  proof (cases "reader_methods ct name")
    case (Some m)
    then show ?thesis using Method reader_methods_total [OF assms(2) Some, of args] by simp
  qed (use Method assms(2) in simp)
qed

lemma core_run_total:
  assumes "length wire0 = kMaxPacket"
  shows "reader_ok r \<Longrightarrow> \<exists>qs r'. core_run wire0 ct cs r = Some (qs, r') \<and> length qs = length cs \<and> reader_ok r'"
proof (induction cs arbitrary: r)
  case (Cons c cs)
  obtain q r1 where "core_step wire0 ct c r = Some (q, r1)" "reader_ok r1"
    using core_step_total [OF assms Cons.prems, of ct c] by blast
  then show ?case using Cons.IH [of r1] by auto
qed simp

section \<open>Properties\<close>

text \<open>C35: no Python program can break the module \<open>eup\<close>: any sequence of calls of its functions and of
  the methods of a \<open>FrameReader\<close>, with any objects as arguments, returns or raises at every call,
  never leaves a buffer, and keeps the reader valid, whatever the uninitialised array holds.\<close>

theorem core_module_safe:
  assumes "length wire0 = kMaxPacket"
  shows "\<exists>qs r'. core_run wire0 ct calls FrameReader_init = Some (qs, r') \<and> length qs = length calls \<and> reader_ok r'"
  by (rule core_run_total [OF assms reader_ok_init(1)])

theorem core_module_safe_witness:
  "\<exists>qs r'. core_run (replicate 256 0xA5) core_objects
      [Fun ''encode_frame'' [CoreType MT_Reply, CoreBytes [0, 7]], Method ''feed'' [CoreBytes [3, 0]], Fun ''cobs_decode'' [CoreInt 5]]
      FrameReader_init = Some (qs, r') \<and>
    length qs = length [Fun ''encode_frame'' [CoreType MT_Reply, CoreBytes [0, 7]], Method ''feed'' [CoreBytes [3, 0]],
      Fun ''cobs_decode'' [CoreInt 5]] \<and> reader_ok r'"
  by (rule core_module_safe) (simp add: kMaxPacket_def)

end
