(* ===== verification/TestPython.thy ===== *)
theory TestPython
  imports TestStream Reentrant PyEup
begin

text \<open>
  The tests of the Python modules: \<open>src/bindings/test_eup.py\<close> and
  \<open>src/examples/rgb_led_adc/test_python.py\<close>. Objects are those of \<open>PyValues\<close> and \<open>PyEup\<close>; a check that
  fails makes the test \<open>Some False\<close>, an exception that is not expected \<open>None\<close>.
\<close>

section \<open>\<open>test_eup.py\<close>\<close>

text \<open>A call of a module function that must not raise.\<close>

definition must :: "(PyError + 'a) option \<Rightarrow> 'a option" where
  "must r = do { q \<leftarrow> r; case q of Inl e \<Rightarrow> None | Inr x \<Rightarrow> Some x }"

definition eup_crc_test :: "bool option" where
  "eup_crc_test = do {
     crc \<leftarrow> py_crc16_ccitt [0x31, 0x32, 0x33, 0x34, 0x35, 0x36, 0x37, 0x38, 0x39];
     let data = [0xDE, 0xAD, 0xBE, 0xEF, 0x00, 0x42];
     inc \<leftarrow> py_crc16_ccitt_update crc16_ccitt_init (take 3 data);
     inc \<leftarrow> py_crc16_ccitt_update inc (drop 3 data);
     one \<leftarrow> py_crc16_ccitt data;
     Some (crc = 0x29B1 \<and> inc = one)
   }"

definition eup_cobs_checks :: "byte list \<Rightarrow> bool option" where
  "eup_cobs_checks data = do {
     enc \<leftarrow> must (py_cobs_encode data);
     dec \<leftarrow> must (py_cobs_decode enc);
     Some (0 \<notin> set enc \<and> dec = data)
   }"

definition eup_cobs_test :: "bool option" where
  "eup_cobs_test = all_pass (map eup_cobs_checks
       [[], [0], [1, 2, 3], [0, 0, 0], [0x11, 0, 0, 0x22, 0x33], map of_nat [0..<254]]
     @ [Some (255 \<le> py_cobs_max_encoded_size 254)])"

definition eup_frame_test :: "(nat \<Rightarrow> byte) \<Rightarrow> bool option" where
  "eup_frame_test junk = do {
     wire \<leftarrow> must (py_encode_frame (stack_array junk kMaxPacket) MT_Command [0x11, 0x05]);
     f \<leftarrow> must (py_decode_region (butlast wire));
     Some (last wire = kDelimiter \<and> ftype f = MT_Command \<and> py_frame_payload f = [0x11, 0x05])
   }"

definition eup_reader_test :: "(nat \<Rightarrow> byte) \<Rightarrow> bool option" where
  "eup_reader_test junk = do {
     a \<leftarrow> must (py_encode_frame (stack_array junk kMaxPacket) MT_Command [0xAA]);
     b \<leftarrow> must (py_encode_frame (stack_array junk kMaxPacket) MT_Stream [0x00, 0x01, 0x02]);
     (frames, r) \<leftarrow> feed FrameReader_init (a @ b);
     Some (map ftype frames = [MT_Command, MT_Stream] \<and> map py_frame_payload (drop 1 frames) = [[0x00, 0x01, 0x02]])
   }"

definition eup_constants_test :: "bool option" where
  "eup_constants_test = Some (map_of core_constants ''MAX_PAYLOAD'' = Some 250 \<and> map_of core_constants ''MAX_PACKET'' = Some 256)"

definition eup_tests :: "(nat \<Rightarrow> byte) \<Rightarrow> (string \<times> bool option) list" where
  "eup_tests junk = [(''crc'', eup_crc_test), (''cobs'', eup_cobs_test), (''framing'', eup_frame_test junk),
     (''reader'', eup_reader_test junk), (''constants'', eup_constants_test)]"

lemma eup_cobs_passes: "eup_cobs_checks data = Some True"
  using py_cobs_roundtrip [of data] by (auto simp: eup_cobs_checks_def must_def)

lemma eup_tests_pass: "list_all (\<lambda>(name, t). t = Some True) (eup_tests junk)"
proof -
  have evaluated: "eup_crc_test = Some True" "eup_frame_test junk = Some True" "eup_reader_test junk = Some True"
    "eup_constants_test = Some True" "255 \<le> py_cobs_max_encoded_size 254" by code_simp+
  have "eup_cobs_test = Some True"
    unfolding eup_cobs_test_def all_pass_iff by (simp add: eup_cobs_passes list.pred_map o_def evaluated(5))
  then show ?thesis by (simp add: eup_tests_def evaluated(1-4))
qed

section \<open>\<open>test_python.py\<close>\<close>

record FakeTransport =
  tx :: "byte list"
  rx :: "byte list"

definition fake_write :: "FakeTransport py_write" where
  "fake_write data t = (Inr (), t\<lparr>tx := tx t @ data\<rparr>)"

text \<open>\<open>rx[:n]\<close>, which counts from the end when \<open>n\<close> is negative.\<close>

definition fake_read :: "FakeTransport py_read" where
  "fake_read n t =
     (let k = (if 0 \<le> n then nat n else length (rx t) - nat (- n))
      in (Inr (Some (take k (rx t))), t\<lparr>rx := drop k (rx t)\<rparr>))"

type_synonym FakeDevice = "(FakeTransport, PyObj py_args list, unit) PyDevice"

definition queue_frame :: "(nat \<Rightarrow> byte) \<Rightarrow> MessageType \<Rightarrow> byte list \<Rightarrow> FakeDevice \<Rightarrow> FakeDevice option" where
  "queue_frame junk type ps dev = do {
     bytes \<leftarrow> must (app_encode_frame (stack_array junk kMaxPacket) type ps);
     Some (dev\<lparr>io := (io dev)\<lparr>rx := rx (io dev) @ bytes\<rparr>\<rparr>)
   }"

fun split_zero :: "byte list \<Rightarrow> byte list \<Rightarrow> byte list list" where
  "split_zero acc [] = [acc]"
| "split_zero acc (b # bs) = (if b = 0 then acc # split_zero [] bs else split_zero (acc @ [b]) bs)"

definition last_command :: "FakeDevice \<Rightarrow> (Frame \<times> FakeDevice) option" where
  "last_command dev = do {
     let regions = filter (\<lambda>r. r \<noteq> []) (split_zero [] (tx (io dev)));
     let dev = dev\<lparr>io := (io dev)\<lparr>tx := []\<rparr>\<rparr>;
     f \<leftarrow> if regions = [] then None else must (app_decode_region (last regions));
     Some (f, dev)
   }"

definition dev_method :: "(nat \<Rightarrow> byte) \<Rightarrow> string \<Rightarrow> (FakeTransport, PyObj py_args list, unit, PyObj) py_method" where
  "dev_method junk name args dev = do {
     m \<leftarrow> example_protocol (stack_array junk kMaxPayload) (stack_array junk kMaxPacket) fake_write fake_read (plain log_call)
       app_registry cpython int_casters name;
     m args dev
   }"

definition status_ok :: PyObj where "status_ok = cast_status int_casters SC_Ok"

text \<open>One call: the canned reply, the arguments, the expected result and the expected command.\<close>

definition method_checks ::
  "(nat \<Rightarrow> byte) \<Rightarrow> string \<Rightarrow> byte list \<Rightarrow> PyObj list \<Rightarrow> PyObj list \<Rightarrow> byte list \<Rightarrow> FakeDevice \<Rightarrow> (bool \<times> FakeDevice) option" where
  "method_checks junk name reply args results sent dev = do {
     dev \<leftarrow> queue_frame junk MT_Reply reply dev;
     (r, dev) \<leftarrow> dev_method junk name args dev;
     (f, dev) \<leftarrow> last_command dev;
     Some (r = Inr results \<and> ftype f = MT_Command \<and> app_frame_payload f = sent, dev)
   }"

definition fake_device :: FakeDevice where
  "fake_device = PyDevice_init \<lparr>tx = [], rx = []\<rparr> []"

definition ready :: "FakeDevice \<Rightarrow> bool" where
  "ready dev \<longleftrightarrow> reader_ok (reader dev) \<and> reader_holds (reader dev) = Some [] \<and>
     pending_pos dev = length (pending dev) \<and> tx (io dev) = [] \<and> rx (io dev) = []"

lemma app_encode_wire:
  assumes "length ps \<le> 250"
  shows "app_encode_frame (stack_array junk kMaxPacket) t ps = Some (Inr (frame_wire t ps))"
proof -
  have un: "unat (of_nat (length ps) :: byte) = length ps" using assms by (intro unat_of_nat_byte) simp
  then have "payload_valid (Some ps) (of_nat (length ps))" "payload_bytes (Some ps) (of_nat (length ps)) = ps"
    by (simp_all add: payload_valid_def payload_bytes_def)
  then obtain wire where "encode_frame t (Some ps) (of_nat (length ps)) (stack_array junk kMaxPacket) kMaxPacket
      = Some ((Frame_Ok, length ps + 6), wire)" "prefix_of wire (length ps + 6) = Some (frame_wire t ps)"
    using encode_packet [of "Some ps" "of_nat (length ps)" ps t junk] un assms by auto
  then show ?thesis by (auto simp: app_encode_frame_def prefix_of_def split: if_splits)
qed

lemma queue_wire:
  assumes "ready dev" "length ps \<le> 250"
  shows "queue_frame junk t ps dev = Some (dev\<lparr>io := \<lparr>tx = [], rx = frame_wire t ps\<rparr>\<rparr>)"
  using assms by (simp add: queue_frame_def must_def app_encode_wire ready_def)

lemma split_zero_code: "0 \<notin> set s \<Longrightarrow> split_zero acc (s @ [0]) = [acc @ s, []]"
  by (induction s arbitrary: acc) auto

lemma last_command_wire:
  assumes "tx (io dev) = frame_wire t ps" "length ps \<le> 250"
  shows "last_command dev = Some (frame_of t ps, dev\<lparr>io := (io dev)\<lparr>tx := []\<rparr>\<rparr>)"
proof -
  let ?code = "cobs_encoding (frame_raw t ps)"
  note w = wire_code [OF assms(2), of t]
  have "?code \<noteq> []" using assms(2) length_cobs_encoding_small [of "frame_raw t ps"] by auto
  moreover have "app_decode_region ?code = Some (Inr (frame_of t ps))"
    using decode_region_verdict [of "length ?code" ?code Frame_init, OF _ frame_wf_init]
      region_verdict_wire [OF assms(2), of t Frame_init] frame_store_raw [OF assms(2), of t Frame_init]
    by (simp add: app_decode_region_def frame_of_def Frame_init_def)
  moreover have "split_zero [] (tx (io dev)) = [?code, []]"
    using split_zero_code [OF w(1), of "[]"] w(3) assms(1) by (simp add: kDelimiter_def)
  ultimately show ?thesis by (simp add: last_command_def must_def)
qed

lemma supplies_fake: "length (rx t) \<le> 256 \<Longrightarrow> supplies fake_read (if rx t = [] then [] else [rx t]) t"
  by (auto intro!: supplies_chunk supplies_empty simp: fake_read_def)

lemma fake_supplies: "supplies fake_read cs t \<Longrightarrow> concat cs = rx t"
proof (induction rule: supplies.induct)
  case (supplies_empty t t')
  then show ?case by (auto simp: fake_read_def)
next
  case (supplies_chunk t c t' cs)
  then show ?case by (auto simp: fake_read_def)
qed (simp add: fake_read_def)

lemma fake_call:
  assumes "ready dev" "contract d sa sr" "valid sa a" "length payload0 = kMaxPayload" "length wire0 = kMaxPacket"
    and "1 \<le> length ps" "length ps \<le> kMaxPayload"
    and cl: "\<And>cb args dev r dev'. cl cb args dev = Some (r, dev') \<Longrightarrow> io dev' = io dev \<and> pending dev' = pending dev \<and> pending_pos dev' = pending_pos dev"
  shows "\<exists>dev'. call payload0 wire0 (py_sender fake_write) (py_awaiter fake_read cl reg) d a
      (dev\<lparr>io := \<lparr>tx = [], rx = frame_wire MT_Reply ps\<rparr>\<rparr>) = Some (result_of d sr ps, dev') \<and>
    ready (dev'\<lparr>io := (io dev')\<lparr>tx := []\<rparr>\<rparr>) \<and> tx (io dev') = frame_wire MT_Command (request d sa a) \<and>
    world dev' = world dev \<and> callbacks dev' = callbacks dev"
proof -
  let ?w = "frame_wire MT_Command (request d sa a)" and ?d = "dev\<lparr>io := \<lparr>tx = [], rx = frame_wire MT_Reply ps\<rparr>\<rparr>"
  let ?t = "\<lparr>tx = ?w, rx = frame_wire MT_Reply ps\<rparr>"
  have ps: "length ps \<le> 250" using assms(7) by (simp add: kMaxPayload_def)
  have line: "supplies fake_read [frame_wire MT_Reply ps] ?t"
  proof -
    have "frame_wire MT_Reply ps \<noteq> []" "length (frame_wire MT_Reply ps) \<le> 256"
      using ps by (simp_all add: length_frame_wire) (simp add: frame_wire_def)
    then show ?thesis using supplies_fake [of ?t] by simp
  qed
  have "unread (?d\<lparr>io := ?t\<rparr>) [frame_wire MT_Reply ps] = frame_wire MT_Reply ps @ []"
    using assms(1) by (simp add: unread_def ready_def)
  from await_loop_frame [OF _ _ ps _ this, of fake_read cl reg] obtain d2 cs' where
    d2: "reader_ok (reader d2)" "reader_holds (reader d2) = Some []" "world d2 = world dev" "callbacks d2 = callbacks dev"
      "supplies fake_read cs' (io d2)" "unread d2 cs' = []" "frame_wf (frame (reader d2))" "frame_msg (frame (reader d2)) = (MT_Reply, ps)"
      "await_loop fake_read cl reg (?d\<lparr>io := ?t\<rparr>) = Some (Inr (Some (frame (reader d2))), d2)"
    using assms(1) line by (auto simp: ready_def)
  let ?I = "\<lambda>v. tx (io v) = ?w \<and> pending_pos v \<le> length (pending v)"
  have "?I (snd (Inr (Some (frame (reader d2))) :: PyError + Frame option, d2))"
  proof (rule await_loop_keeps [OF d2(9), of ?I])
    show "?I v'" if "?I v" "next_byte fake_read v = Some (r, v')" for v r v'
      using next_byte_keeps [OF that(2), of "\<lambda>t. tx t = ?w"] that(1) by (simp add: fake_read_def Let_def)
    show "?I v'" if "?I v" "cl cb args v = Some (r, v')" for cb args v r v'
      using cl [OF that(2)] that(1) by simp
  qed (use assms(1) in \<open>auto simp: ready_def\<close>)
  then have I: "tx (io d2) = ?w" "pending_pos d2 \<le> length (pending d2)" by simp_all
  have "rx (io d2) = []" "pending_pos d2 = length (pending d2)"
    using fake_supplies [OF d2(5)] d2(6) I(2) by (auto simp: unread_def)
  moreover have "fake_write ?w (io ?d) = (Inr (), ?t)" by (simp add: fake_write_def)
  from py_sender_writes [where wr = fake_write and dev = ?d, OF this, of wire0]
  have "py_sender fake_write (blit 0 ?w wire0) (length ?w) ?d = Some (True, ?d\<lparr>io := ?t\<rparr>)" .
  moreover have "py_awaiter fake_read cl reg Frame_init (?d\<lparr>io := ?t\<rparr>) = Some (True, frame (reader d2), d2)"
    using d2(9) by (simp add: py_awaiter_def dev_await_reply_def)
  ultimately show ?thesis
    using py_call_takes [where wr = fake_write and dev = ?d and ?d1.0 = "?d\<lparr>io := ?t\<rparr>" and rd = fake_read and cl = cl and reg = reg,
        OF assms(2-5) _ _ d2(7,8) assms(6)] d2(1-4) I(1)
    by (auto simp: ready_def)
qed

lemma method_passes:
  assumes "ready dev" "contract d sa sr" "valid sa a" "1 \<le> length ps" "length ps \<le> kMaxPayload"
    and "example_protocol (stack_array junk kMaxPayload) (stack_array junk kMaxPacket) fake_write fake_read (plain log_call)
      app_registry cpython int_casters name = Some (add_command (stack_array junk kMaxPayload) (stack_array junk kMaxPacket)
        fake_write fake_read (plain log_call) app_registry d load cast)"
    and "load args = Some (Some a)" "cast (result_of d sr ps) = Some objs" "sent = request d sa a"
  shows "\<exists>dev'. method_checks junk name ps args objs sent dev = Some (True, dev') \<and> ready dev' \<and>
    world dev' = world dev \<and> callbacks dev' = callbacks dev"
proof -
  have keeps: "plain log_call cb args d = Some (r, d') \<Longrightarrow> io d' = io d \<and> pending d' = pending d \<and> pending_pos d' = pending_pos d"
    for cb args and d :: FakeDevice and r d'
    by (auto simp: plain_def split: prod.splits)
  obtain dev' where c: "call (stack_array junk kMaxPayload) (stack_array junk kMaxPacket) (py_sender fake_write)
      (py_awaiter fake_read (plain log_call) app_registry) d a (dev\<lparr>io := \<lparr>tx = [], rx = frame_wire MT_Reply ps\<rparr>\<rparr>)
        = Some (result_of d sr ps, dev')"
      "ready (dev'\<lparr>io := (io dev')\<lparr>tx := []\<rparr>\<rparr>)" "tx (io dev') = frame_wire MT_Command (request d sa a)"
      "world dev' = world dev" "callbacks dev' = callbacks dev"
    using fake_call [OF assms(1-3) _ _ assms(4,5), of "stack_array junk kMaxPayload" "stack_array junk kMaxPacket" "plain log_call" app_registry]
      keeps by auto
  have req: "length (request d sa a) \<le> 250" using contract.request_bound [OF assms(2,3)] by (simp add: kMaxPayload_def)
  have ps: "length ps \<le> 250" using assms(5) by (simp add: kMaxPayload_def)
  have "app_frame_payload (frame_of MT_Command (request d sa a)) = request d sa a"
    using req unat_of_nat_byte [of "length (request d sa a)"]
    by (simp add: app_frame_payload_def frame_of_def) (simp add: blit_def)
  then show ?thesis
    using c assms(6-9) queue_wire [OF assms(1) ps] last_command_wire [OF c(3) req]
    by (simp add: method_checks_def dev_method_def add_command_def frame_of_def)
qed

text \<open>The script. \<open>read_block\<close> and \<open>get_name\<close> reply with spans; a \<open>str\<close> is refused where \<open>bytes\<close> are
  expected; the stream's fields are the counter 7, 512 and \<open>- 40\<close>.\<close>

definition telemetry_bytes :: "byte list" where
  "telemetry_bytes = [0x20, 7, 0, 0, 0, 0, 2, 0xD8, 0xFF]"

definition python_test :: "(nat \<Rightarrow> byte) \<Rightarrow> bool option" where
  "python_test junk = do {
     let dev = fake_device;
     let name = [0x73, 0x65, 0x6E, 0x73, 0x6F, 0x72, 0x2D, 0x41];
     (c1, dev) \<leftarrow> method_checks junk ''read_adc'' [SC_Ok, 42, 0] [PyInt 2] [status_ok, PyInt 42] [0x11, 2] dev;
     (c2, dev) \<leftarrow> method_checks junk ''set_rgb'' [SC_Ok] [PyInt 255, PyInt 128, PyInt 0] [status_ok] [0x10, 255, 128, 0] dev;
     (c3, dev) \<leftarrow> method_checks junk ''get_name'' ([SC_Ok, of_nat (length name)] @ name) [] [status_ok, PyBytes name] [0x15] dev;
     (c4, dev) \<leftarrow> method_checks junk ''set_name'' [SC_Ok] [PyBytes [0x68, 0x69]] [status_ok] [0x14, 2, 0x68, 0x69] dev;
     (r, dev) \<leftarrow> dev_method junk ''set_name'' [PyStr ''hi''] dev;
     (c5, dev) \<leftarrow> method_checks junk ''read_block'' [SC_Ok, 4, 0, 2, 64, 2, 128, 2, 192, 2] [PyInt 0]
       [status_ok, PyList [PyInt 512, PyInt 576, PyInt 640, PyInt 704]] [0x16, 0] dev;
     let dev = on ''telemetry'' () dev;
     dev \<leftarrow> queue_frame junk MT_Stream telemetry_bytes dev;
     (delivered, dev) \<leftarrow> poll_default fake_read (plain log_call) app_registry dev;
     wire \<leftarrow> must (app_encode_frame (stack_array junk kMaxPacket) MT_Command [0x11, 0x05]);
     f \<leftarrow> must (app_decode_region (butlast wire));
     Some (c1 \<and> c2 \<and> c3 \<and> c4 \<and> r = Inl TypeError \<and> c5 \<and> delivered = Inr 1 \<and> world dev = [(7, [PyInt 512, PyInt (- 40)])] \<and>
       ftype f = MT_Command \<and> app_frame_payload f = [0x11, 0x05])
   }"

lemmas method_defs = example_protocol_def Let_def bind_command_def

lemma ready_fake [simp]: "ready fake_device" "world fake_device = []" "callbacks fake_device = Map.empty"
  by (simp_all add: ready_def fake_device_def PyDevice_init_def)

lemmas test_methods =
  method_passes [OF _ handler_contract.axioms(1) [OF read_adc.handler_contract_axioms], where name = "''read_adc''" and a = "(2, ())"]
  method_passes [OF _ handler_contract.axioms(1) [OF set_rgb.handler_contract_axioms], where name = "''set_rgb''" and a = "(255, 128, 0, ())"]
  method_passes [OF _ handler_contract.axioms(1) [OF get_name.handler_contract_axioms], where name = "''get_name''" and a = "()"]
  method_passes [OF _ handler_contract.axioms(1) [OF set_name.handler_contract_axioms], where name = "''set_name''"
    and a = "(array_of kMaxNameLen 0 [0x68, 0x69], ())"]
  method_passes [OF _ handler_contract.axioms(1) [OF read_block.handler_contract_axioms], where name = "''read_block''" and a = "(0, ())"]

lemma method_bound:
  "example_protocol p0 w0 fake_write fake_read cl reg cpython int_casters ''read_adc'' = Some (add_command p0 w0 fake_write fake_read cl reg
    ReadAdcCmd (load_cons (arg_u8 int_casters) load_nil)
    (cast_cons (ret (cast_status int_casters)) (cast_cons (ret (cast_u16 int_casters)) cast_nil)))"
  "example_protocol p0 w0 fake_write fake_read cl reg cpython int_casters ''set_rgb'' = Some (add_command p0 w0 fake_write fake_read cl reg
    SetRgbCmd (load_cons (arg_u8 int_casters) (load_cons (arg_u8 int_casters) (load_cons (arg_u8 int_casters) load_nil)))
    (cast_cons (ret (cast_status int_casters)) cast_nil))"
  "example_protocol p0 w0 fake_write fake_read cl reg cpython int_casters ''get_name'' = Some (add_command p0 w0 fake_write fake_read cl reg
    GetNameCmd load_nil
    (cast_cons (ret (cast_status int_casters)) (cast_cons (string_cast cpython) cast_nil)))"
  "example_protocol p0 w0 fake_write fake_read cl reg cpython int_casters ''set_name'' = Some (add_command p0 w0 fake_write fake_read cl reg
    SetNameCmd (load_cons (arg_name cpython) load_nil)
    (cast_cons (ret (cast_status int_casters)) cast_nil))"
  "example_protocol p0 w0 fake_write fake_read cl reg cpython int_casters ''read_block'' = Some (add_command p0 w0 fake_write fake_read cl reg
    ReadBlockCmd (load_cons (arg_u8 int_casters) load_nil)
    (cast_cons (ret (cast_status int_casters)) (cast_cons (array_cast cpython (cast_u16 int_casters)) cast_nil)))"
  by (simp_all add: method_defs)

lemma calls_pass:
  assumes "ready dev"
  shows
  "\<exists>dev'. method_checks junk ''read_adc'' [SC_Ok, 42, 0] [PyInt 2] [status_ok, PyInt 42] [0x11, 2] dev = Some (True, dev') \<and>
    ready dev' \<and> world dev' = world dev \<and> callbacks dev' = callbacks dev"
  "\<exists>dev'. method_checks junk ''set_rgb'' [SC_Ok] [PyInt 255, PyInt 128, PyInt 0] [status_ok] [0x10, 255, 128, 0] dev = Some (True, dev') \<and>
    ready dev' \<and> world dev' = world dev \<and> callbacks dev' = callbacks dev"
  "\<exists>dev'. method_checks junk ''get_name'' [SC_Ok, 8, 0x73, 0x65, 0x6E, 0x73, 0x6F, 0x72, 0x2D, 0x41] []
      [status_ok, PyBytes [0x73, 0x65, 0x6E, 0x73, 0x6F, 0x72, 0x2D, 0x41]] [0x15] dev = Some (True, dev') \<and>
    ready dev' \<and> world dev' = world dev \<and> callbacks dev' = callbacks dev"
  "\<exists>dev'. method_checks junk ''set_name'' [SC_Ok] [PyBytes [0x68, 0x69]] [status_ok] [0x14, 2, 0x68, 0x69] dev = Some (True, dev') \<and>
    ready dev' \<and> world dev' = world dev \<and> callbacks dev' = callbacks dev"
  "\<exists>dev'. method_checks junk ''read_block'' [SC_Ok, 4, 0, 2, 64, 2, 128, 2, 192, 2] [PyInt 0]
      [status_ok, PyList [PyInt 512, PyInt 576, PyInt 640, PyInt 704]] [0x16, 0] dev = Some (True, dev') \<and>
    ready dev' \<and> world dev' = world dev \<and> callbacks dev' = callbacks dev"
  subgoal by (rule test_methods(1) [OF assms _ _ _ method_bound(1)])
    (code_simp | simp add: codec_sel kMaxPayload_def kMaxNameLen_def)+
  subgoal by (rule test_methods(2) [OF assms _ _ _ method_bound(2)])
    (code_simp | simp add: codec_sel kMaxPayload_def kMaxNameLen_def)+
  subgoal by (rule test_methods(3) [OF assms _ _ _ method_bound(3)])
    (code_simp | simp add: codec_sel kMaxPayload_def kMaxNameLen_def)+
  subgoal by (rule test_methods(4) [OF assms _ _ _ method_bound(4)])
    (code_simp | simp add: codec_sel kMaxPayload_def kMaxNameLen_def)+
  subgoal by (rule test_methods(5) [OF assms _ _ _ method_bound(5)])
    (code_simp | simp add: codec_sel kMaxPayload_def kMaxNameLen_def)+
  done

lemma str_refused: "dev_method junk ''set_name'' [PyStr ''hi''] dev = Some (Inl TypeError, dev)"
proof -
  have "load_cons (arg_name cpython) load_nil [PyStr ''hi''] = Some None" by code_simp
  then show ?thesis by (simp add: dev_method_def method_bound add_command_def)
qed

lemma telemetry_delivered:
  "deliver log_call app_decoders [''telemetry'' \<mapsto> ()] telemetry_bytes [] = (Inr True, [(7, [PyInt 512, PyInt (- 40)])])"
  by code_simp

lemma poll_delivers_telemetry:
  assumes "ready dev" "callbacks dev = [''telemetry'' \<mapsto> ()]" "world dev = []"
  shows "\<exists>dev'. poll_default fake_read (plain log_call) app_registry (dev\<lparr>io := \<lparr>tx = [], rx = frame_wire MT_Stream telemetry_bytes\<rparr>\<rparr>)
    = Some (Inr 1, dev') \<and> world dev' = [(7, [PyInt 512, PyInt (- 40)])]"
proof -
  let ?w = "frame_wire MT_Stream telemetry_bytes"
  let ?d = "dev\<lparr>io := \<lparr>tx = [], rx = []\<rparr>, pending := [], pending_pos := 0\<rparr>"
  have n: "length telemetry_bytes = 9" by (simp add: telemetry_bytes_def)
  have read: "fake_read 256 \<lparr>tx = [], rx = ?w\<rparr> = (Inr (Some ?w), \<lparr>tx = [], rx = []\<rparr>)"
    using n by (simp add: fake_read_def length_frame_wire)
  have "host_rx False log_call app_decoders [''telemetry'' \<mapsto> ()] (Some []) ?w 0 [] =
      (Inr (None, 1), [(7, [PyInt 512, PyInt (- 40)])], Some [], [])"
    using host_rx_wire [of telemetry_bytes False log_call app_decoders "[''telemetry'' \<mapsto> ()]" MT_Stream "[]" 0 "[]"] n telemetry_delivered
    by simp
  then obtain dev' where "poll_loop (plain log_call) app_registry ?w 0 ?d = Some (Inr 1, dev')" "world dev' = [(7, [PyInt 512, PyInt (- 40)])]"
    using app_reg.poll_loop_refines [of ?d log_call ?w 0] assms by (auto simp: ready_def)
  then show ?thesis using assms(1) read
    by (simp add: poll_default_def poll_def read_chunk_def ready_def)
qed

lemma module_frame_round_trip:
  "\<exists>f. app_encode_frame (stack_array junk kMaxPacket) MT_Command [0x11, 0x05] = Some (Inr (frame_wire MT_Command [0x11, 0x05])) \<and>
    app_decode_region (butlast (frame_wire MT_Command [0x11, 0x05])) = Some (Inr f) \<and> ftype f = MT_Command \<and>
    app_frame_payload f = [0x11, 0x05]"
proof -
  have "map_option (map_sum id (\<lambda>f. (ftype f, app_frame_payload f))) (app_decode_region (butlast (frame_wire MT_Command [0x11, 0x05])))
    = Some (Inr (MT_Command, [0x11, 0x05]))" by code_simp
  then show ?thesis using app_encode_wire [of "[0x11, 0x05]" junk MT_Command]
    by (cases "app_decode_region (butlast (frame_wire MT_Command [0x11, 0x05]))"; cases "the (app_decode_region (butlast (frame_wire MT_Command [0x11, 0x05])))") auto
qed

lemma python_test_passes: "python_test junk = Some True"
proof -
  obtain d1 where d1: "method_checks junk ''read_adc'' [SC_Ok, 42, 0] [PyInt 2] [status_ok, PyInt 42] [0x11, 2] fake_device = Some (True, d1)"
      "ready d1" "world d1 = []" "callbacks d1 = Map.empty"
    using calls_pass(1) [OF ready_fake(1)] by auto
  obtain d2 where d2: "method_checks junk ''set_rgb'' [SC_Ok] [PyInt 255, PyInt 128, PyInt 0] [status_ok] [0x10, 255, 128, 0] d1 = Some (True, d2)"
      "ready d2" "world d2 = []" "callbacks d2 = Map.empty"
    using calls_pass(2) [OF d1(2)] d1(3,4) by auto
  obtain d3 where d3: "method_checks junk ''get_name'' [SC_Ok, 8, 0x73, 0x65, 0x6E, 0x73, 0x6F, 0x72, 0x2D, 0x41] []
      [status_ok, PyBytes [0x73, 0x65, 0x6E, 0x73, 0x6F, 0x72, 0x2D, 0x41]] [0x15] d2 = Some (True, d3)"
      "ready d3" "world d3 = []" "callbacks d3 = Map.empty"
    using calls_pass(3) [OF d2(2)] d2(3,4) by auto
  obtain d4 where d4: "method_checks junk ''set_name'' [SC_Ok] [PyBytes [0x68, 0x69]] [status_ok] [0x14, 2, 0x68, 0x69] d3 = Some (True, d4)"
      "ready d4" "world d4 = []" "callbacks d4 = Map.empty"
    using calls_pass(4) [OF d3(2)] d3(3,4) by auto
  obtain d5 where d5: "method_checks junk ''read_block'' [SC_Ok, 4, 0, 2, 64, 2, 128, 2, 192, 2] [PyInt 0]
      [status_ok, PyList [PyInt 512, PyInt 576, PyInt 640, PyInt 704]] [0x16, 0] d4 = Some (True, d5)"
      "ready d5" "world d5 = []" "callbacks d5 = Map.empty"
    using calls_pass(5) [OF d4(2)] d4(3,4) by auto
  let ?d = "on ''telemetry'' () d5"
  have on: "ready ?d" "callbacks ?d = [''telemetry'' \<mapsto> ()]" "world ?d = []"
    using d5(2-4) by (simp_all add: on_def ready_def)
  obtain d6 where d6: "poll_default fake_read (plain log_call) app_registry (?d\<lparr>io := \<lparr>tx = [], rx = frame_wire MT_Stream telemetry_bytes\<rparr>\<rparr>)
      = Some (Inr 1, d6)" "world d6 = [(7, [PyInt 512, PyInt (- 40)])]"
    using poll_delivers_telemetry [OF on] by blast
  have queue: "queue_frame junk MT_Stream telemetry_bytes ?d = Some (?d\<lparr>io := \<lparr>tx = [], rx = frame_wire MT_Stream telemetry_bytes\<rparr>\<rparr>)"
    by (rule queue_wire [OF on(1)]) (simp add: telemetry_bytes_def)
  obtain f where "app_encode_frame (stack_array junk kMaxPacket) MT_Command [0x11, 0x05] = Some (Inr (frame_wire MT_Command [0x11, 0x05]))"
      "app_decode_region (butlast (frame_wire MT_Command [0x11, 0x05])) = Some (Inr f)" "ftype f = MT_Command"
      "app_frame_payload f = [0x11, 0x05]" using module_frame_round_trip by blast
  then show ?thesis
    by (simp add: python_test_def d1(1) d2(1) d3(1) d4(1) d5(1) str_refused queue d6 must_def)
qed

text \<open>The test cases of the repository pass, whatever the local arrays hold that the tests leave
  uninitialised: the framing, command, host and stream tests in C++ and both Python scripts, all but
  the one case that is checked by the compiler alone (call: return type mirrors the handler).\<close>

lemma test_suites_pass:
  "list_all (\<lambda>(name, t). t = Some True)
     (protocol_tests junk @ command_tests junk @ host_tests junk @ stream_tests junk @ eup_tests junk @
      [(''test_python'', python_test junk)])"
  by (simp add: protocol_tests_pass command_tests_pass host_tests_pass stream_tests_pass eup_tests_pass python_test_passes)

end
