(* ===== verification/ArrayOps.thy ===== *)
theory ArrayOps
  imports Span
begin

text \<open>
  The accessors of \<open>InlineArray\<close> and the class as a whole (\<open>src/include/eup/codec.hpp\<close>): any sequence
  of its operations is the same sequence on a list of at most \<open>N\<close> elements. \<open>operator[]\<close> does not
  check its index: an index of \<open>N\<close> or more leaves the array (\<open>None\<close>), one between the size and \<open>N\<close>
  reaches a slot that is not in use.
\<close>

section \<open>The code\<close>

definition array_size :: "'a InlineArray \<Rightarrow> nat" where "array_size a = isize a"
definition array_empty :: "'a InlineArray \<Rightarrow> bool" where "array_empty a \<longleftrightarrow> isize a = 0"
definition array_max_size :: "nat \<Rightarrow> nat" where "array_max_size N = N"

definition array_at :: "'a InlineArray \<Rightarrow> nat \<Rightarrow> 'a option" where
  "array_at a i = mem_read (idata a) i"

definition array_set :: "'a InlineArray \<Rightarrow> nat \<Rightarrow> 'a \<Rightarrow> 'a InlineArray option" where
  "array_set a i v = do { d \<leftarrow> mem_write (idata a) i v; Some (a\<lparr>idata := d\<rparr>) }"

text \<open>The elements from \<open>begin()\<close> to \<open>end()\<close>.\<close>

definition array_range :: "'a InlineArray \<Rightarrow> 'a list option" where
  "array_range a = (if isize a \<le> length (idata a) then Some (take (isize a) (idata a)) else None)"

section \<open>Sequences of operations\<close>

datatype 'a array_op = Clear | PushBack 'a | Assign nat 'a

fun array_run :: "nat \<Rightarrow> 'a array_op list \<Rightarrow> 'a InlineArray \<Rightarrow> 'a InlineArray option" where
  "array_run N [] a = Some a"
| "array_run N (Clear # ops) a = array_run N ops (clear a)"
| "array_run N (PushBack v # ops) a = do { (_, a) \<leftarrow> push_back N a v; array_run N ops a }"
| "array_run N (Assign i v # ops) a = do { a \<leftarrow> array_set a i v; array_run N ops a }"

text \<open>The specification, on lists.\<close>

fun list_op :: "nat \<Rightarrow> 'a array_op \<Rightarrow> 'a list \<Rightarrow> 'a list" where
  "list_op N Clear xs = []"
| "list_op N (PushBack v) xs = (if length xs < N then xs @ [v] else xs)"
| "list_op N (Assign i v) xs = xs[i := v]"

fun in_bounds :: "nat \<Rightarrow> 'a array_op \<Rightarrow> bool" where
  "in_bounds N (Assign i v) \<longleftrightarrow> i < N"
| "in_bounds N op \<longleftrightarrow> True"

lemma array_set_elems:
  "\<lbrakk>array_ok N a; i < N\<rbrakk> \<Longrightarrow> \<exists>a'. array_set a i v = Some a' \<and> array_ok N a' \<and> elems a' = (elems a)[i := v]"
  by (auto simp: array_set_def array_ok_def elems_def take_update_swap)

lemma array_views:
  assumes "array_ok N a"
  shows "array_size a = length (elems a)" "array_empty a \<longleftrightarrow> elems a = []" "array_range a = Some (elems a)"
    "i < length (elems a) \<Longrightarrow> array_at a i = Some (elems a ! i)" "length (elems a) \<le> array_max_size N"
  using assms length_elems [OF assms]
  by (auto simp: array_size_def array_empty_def array_range_def array_at_def array_max_size_def array_ok_def elems_def)

lemma array_run_refines:
  "\<lbrakk>array_ok N a; list_all (in_bounds N) ops\<rbrakk> \<Longrightarrow>
   \<exists>a'. array_run N ops a = Some a' \<and> array_ok N a' \<and> elems a' = fold (list_op N) ops (elems a)"
proof (induction ops arbitrary: a)
  case (Cons op ops)
  note IH = Cons.IH [of "a1" for a1]
  have rest: "list_all (in_bounds N) ops" using Cons.prems(2) by simp
  show ?case
  proof (cases op)
    case Clear
    then show ?thesis using Cons.IH [of "clear a"] rest array_ok_clear [OF Cons.prems(1)] by simp
  next
    case (PushBack v)
    obtain a1 where a1: "push_back N a v = Some (isize a < N, a1)" "array_ok N a1"
        "elems a1 = (if isize a < N then elems a @ [v] else elems a)"
      using push_back_elems [OF Cons.prems(1)] by blast
    then have "elems a1 = list_op N op (elems a)" using PushBack length_elems [OF Cons.prems(1)] by simp
    then show ?thesis using PushBack a1(1) Cons.IH [OF a1(2) rest] by simp
  next
    case (Assign i v)
    then have "i < N" using Cons.prems(2) by simp
    then obtain a1 where a1: "array_set a i v = Some a1" "array_ok N a1" "elems a1 = (elems a)[i := v]"
      using array_set_elems [OF Cons.prems(1)] by blast
    then show ?thesis using Assign Cons.IH [OF a1(2) rest] by simp
  qed
qed simp

section \<open>Properties\<close>

text \<open>\<open>InlineArray\<close> is a bounded list: any sequence of \<open>clear\<close>, \<open>push_back\<close> and assignments
  through \<open>operator[]\<close> within the capacity, on an array whose unused slots hold anything, never
  leaves the array, and its size, emptiness, elements by index and range from \<open>begin\<close> to \<open>end\<close>
  are those of the list to which the same operations were applied.\<close>

lemma array_refines_bounded_list:
  assumes "array_ok N a" "list_all (in_bounds N) ops"
  shows "\<exists>a'. array_run N ops a = Some a' \<and> array_ok N a' \<and>
    (let xs = fold (list_op N) ops (elems a) in
      array_size a' = length xs \<and> (array_empty a' \<longleftrightarrow> xs = []) \<and> array_range a' = Some xs \<and>
      length xs \<le> array_max_size N \<and> list_all (\<lambda>i. array_at a' i = Some (xs ! i)) [0..<length xs])"
proof -
  obtain a' where a': "array_run N ops a = Some a'" "array_ok N a'" "elems a' = fold (list_op N) ops (elems a)"
    using array_run_refines [OF assms] by blast
  show ?thesis using a'(1,2) array_views [OF a'(2)] by (auto simp: Let_def a'(3) [symmetric] list_all_iff)
qed

end
