(* ===== verification/WireTypes.thy ===== *)
theory WireTypes
  imports Tuples
begin

text \<open>
  The C++ types that have a \<open>Codec\<close>, as data: \<open>wtype\<close> names them, \<open>wval\<close> holds their values, and
  \<open>wire_codec\<close> is the choice of a specialisation of \<open>Codec<T>\<close> that the compiler makes
  (\<open>src/include/eup/codec.hpp\<close>). \<open>wtype_ok\<close> are the static assertions of the spans. The codecs are
  those of \<open>Codec\<close> and \<open>Span\<close>, carried over to \<open>wval\<close> by \<open>lift_codec\<close>; so are the tuples, which
  are lists here. With this a statement can range over all signatures of commands.
\<close>

section \<open>Types and values\<close>

datatype wtype =
    UInt8 | UInt16 | UInt32 | UInt64 | Int8 | Int16 | Int32 | Int64 | FloatT | DoubleT | BoolT
  | EnumT string wtype | ArrayT wtype nat | StringT nat

datatype wval =
    VU8 (u8_of: byte) | VU16 (u16_of: "16 word") | VU32 (u32_of: "32 word") | VU64 (u64_of: "64 word")
  | VInt (int_of: int) | VFloat (float_of: "32 word fp") | VDouble (double_of: "64 word fp") | VBool (bool_of: bool)
  | VEnum (enum_name: string) (enum_of: wval)
  | VArray (slots: "wval list") (array_len: nat) | VString (chars: "byte list") (string_len: nat)

fun has_type :: "wtype \<Rightarrow> wval \<Rightarrow> bool" where
  "has_type UInt8 v \<longleftrightarrow> is_VU8 v"
| "has_type UInt16 v \<longleftrightarrow> is_VU16 v"
| "has_type UInt32 v \<longleftrightarrow> is_VU32 v"
| "has_type UInt64 v \<longleftrightarrow> is_VU64 v"
| "has_type Int8 v \<longleftrightarrow> is_VInt v \<and> int_ok TYPE(8) (int_of v)"
| "has_type Int16 v \<longleftrightarrow> is_VInt v \<and> int_ok TYPE(16) (int_of v)"
| "has_type Int32 v \<longleftrightarrow> is_VInt v \<and> int_ok TYPE(32) (int_of v)"
| "has_type Int64 v \<longleftrightarrow> is_VInt v \<and> int_ok TYPE(64) (int_of v)"
| "has_type FloatT v \<longleftrightarrow> is_VFloat v"
| "has_type DoubleT v \<longleftrightarrow> is_VDouble v"
| "has_type BoolT v \<longleftrightarrow> is_VBool v"
| "has_type (EnumT n t) v \<longleftrightarrow> is_VEnum v \<and> enum_name v = n \<and> has_type t (enum_of v)"
| "has_type (ArrayT t N) v \<longleftrightarrow> is_VArray v \<and> length (slots v) = N \<and> array_len v \<le> N \<and> list_all (has_type t) (slots v)"
| "has_type (StringT N) v \<longleftrightarrow> is_VString v \<and> length (chars v) = N \<and> string_len v \<le> N"

section \<open>The choice of a codec\<close>

definition lift_codec :: "('a \<Rightarrow> 'b) \<Rightarrow> ('b \<Rightarrow> 'a) \<Rightarrow> 'a Codec \<Rightarrow> 'b Codec" where
  "lift_codec up down c = \<lparr>kMaxSize = kMaxSize c, kFixed = kFixed c,
     encode = (\<lambda>v. encode c (down v)),
     decode = (\<lambda>b p avail v. map_option (\<lambda>(k, x). (k, up x)) (decode c b p avail (down v))),
     initial = up (initial c)\<rparr>"

primrec wire_codec :: "wtype \<Rightarrow> wval Codec" where
  "wire_codec UInt8 = lift_codec VU8 u8_of u8_codec"
| "wire_codec UInt16 = lift_codec VU16 u16_of u16_codec"
| "wire_codec UInt32 = lift_codec VU32 u32_of u32_codec"
| "wire_codec UInt64 = lift_codec VU64 u64_of u64_codec"
| "wire_codec Int8 = lift_codec VInt int_of i8_codec"
| "wire_codec Int16 = lift_codec VInt int_of i16_codec"
| "wire_codec Int32 = lift_codec VInt int_of i32_codec"
| "wire_codec Int64 = lift_codec VInt int_of i64_codec"
| "wire_codec FloatT = lift_codec VFloat float_of float_codec"
| "wire_codec DoubleT = lift_codec VDouble double_of double_codec"
| "wire_codec BoolT = lift_codec VBool bool_of BoolCodec"
| "wire_codec (EnumT n t) = EnumCodec enum_of (VEnum n) (wire_codec t)"
| "wire_codec (ArrayT t N) = lift_codec (\<lambda>a. VArray (idata a) (isize a)) (\<lambda>v. \<lparr>idata = slots v, isize = array_len v\<rparr>)
     (SpanCodec N (wire_codec t))"
| "wire_codec (StringT N) = lift_codec (\<lambda>a. VString (idata a) (isize a)) (\<lambda>v. \<lparr>idata = chars v, isize = string_len v\<rparr>)
     (StringCodec N)"

definition integral :: "wtype \<Rightarrow> bool" where
  "integral t \<longleftrightarrow> t \<in> {UInt8, UInt16, UInt32, UInt64, Int8, Int16, Int32, Int64}"

primrec wtype_ok :: "wtype \<Rightarrow> bool" where
  "wtype_ok UInt8 \<longleftrightarrow> True" | "wtype_ok UInt16 \<longleftrightarrow> True" | "wtype_ok UInt32 \<longleftrightarrow> True" | "wtype_ok UInt64 \<longleftrightarrow> True"
| "wtype_ok Int8 \<longleftrightarrow> True" | "wtype_ok Int16 \<longleftrightarrow> True" | "wtype_ok Int32 \<longleftrightarrow> True" | "wtype_ok Int64 \<longleftrightarrow> True"
| "wtype_ok FloatT \<longleftrightarrow> True" | "wtype_ok DoubleT \<longleftrightarrow> True" | "wtype_ok BoolT \<longleftrightarrow> True"
| "wtype_ok (EnumT n t) \<longleftrightarrow> integral t"
| "wtype_ok (ArrayT t N) \<longleftrightarrow> N \<le> 255 \<and> kFixed (wire_codec t) \<and> wtype_ok t"
| "wtype_ok (StringT N) \<longleftrightarrow> N \<le> 255"

section \<open>Tuples of any types\<close>

definition lift_pack :: "('a \<Rightarrow> 'b) \<Rightarrow> ('b \<Rightarrow> 'a) \<Rightarrow> 'a Pack \<Rightarrow> 'b Pack" where
  "lift_pack up down p = \<lparr>maxSize = maxSize p, enc_pack = (\<lambda>t. enc_pack p (down t)),
     dec_pack = (\<lambda>b base len t ok off. map_option (\<lambda>(ok, off, t). (ok, off, up t)) (dec_pack p b base len (down t) ok off)),
     tuple_init = up (tuple_init p)\<rparr>"

abbreviation cons_up :: "'a \<times> 'a list \<Rightarrow> 'a list" where "cons_up t \<equiv> fst t # snd t"
abbreviation cons_down :: "'a list \<Rightarrow> 'a \<times> 'a list" where "cons_down t \<equiv> (hd t, tl t)"

primrec tuple_pack :: "wtype list \<Rightarrow> wval list Pack" where
  "tuple_pack [] = lift_pack (\<lambda>_. []) (\<lambda>_. ()) tnil"
| "tuple_pack (t # ts) = lift_pack cons_up cons_down (tcons (wire_codec t) (tuple_pack ts))"

definition TupleMaxSize :: "wtype list \<Rightarrow> nat" where
  "TupleMaxSize ts = foldl (\<lambda>n t. n + kMaxSize (wire_codec t)) 0 ts"

section \<open>What they promise\<close>

definition lift_spec :: "('a \<Rightarrow> 'b) \<Rightarrow> ('b \<Rightarrow> 'a) \<Rightarrow> 'a Spec \<Rightarrow> 'b Spec" where
  "lift_spec up down s = \<lparr>valid = (\<lambda>v. up (down v) = v \<and> valid s (down v)), canon = (\<lambda>v. up (canon s (down v))),
     ser = (\<lambda>v. ser s (down v)), par = (\<lambda>bs. map_option (\<lambda>(v, n). (up v, n)) (par s bs))\<rparr>"

lemma lift_flag [simp]: "kFixed (lift_codec up down c) = kFixed c"
  by (simp add: lift_codec_def)

lemma lift_codec_codec:
  assumes c: "codec c s" and inv: "\<And>x. down (up x) = x"
  shows "codec (lift_codec up down c) (lift_spec up down s)"
proof
  show "\<exists>x. decode (lift_codec up down c) b p avail (initial (lift_codec up down c)) = Some (None, x)"
    if "p + avail \<le> length b" "par (lift_spec up down s) (take avail (drop p b)) = None" for p avail b
    using codec.dec_none [OF c that(1)] that(2) by (auto simp: lift_codec_def lift_spec_def inv)
  show "decode (lift_codec up down c) b p avail (initial (lift_codec up down c)) = Some (Some n, v)"
    if "p + avail \<le> length b" "par (lift_spec up down s) (take avail (drop p b)) = Some (v, n)" for p avail b v n
    using codec.dec_some [OF c that(1)] that(2) by (auto simp: lift_codec_def lift_spec_def inv)
qed (auto simp: lift_codec_def lift_spec_def inv codec.enc_fits [OF c] codec.enc_full [OF c] codec.par_ser [OF c]
    codec.ser_canon [OF c] codec.initial_valid [OF c] codec.ser_bound [OF c]
    dest: codec.par_bound [OF c] codec.par_valid [OF c])

lemma lift_codec_fixed:
  assumes c: "fixed_codec c s" and inv: "\<And>x. down (up x) = x"
  shows "fixed_codec (lift_codec up down c) (lift_spec up down s)"
  by (intro fixed_codec.intro lift_codec_codec fixed_codec.axioms(1) [OF c] inv, unfold_locales)
     (auto simp: lift_codec_def lift_spec_def fixed_codec.ser_fixed [OF c] fixed_codec.par_fixed [OF c] fixed_codec.fixed_flag [OF c])

lemma lift_pack_pack:
  assumes p: "pack p s" and inv: "\<And>x. down (up x) = x"
  shows "pack (lift_pack up down p) (lift_spec up down s)"
proof
  show "\<exists>k x. dec_pack (lift_pack up down p) b base len (tuple_init (lift_pack up down p)) True off = Some (False, k, x)"
    if "base + len \<le> length b" "off \<le> len" "par (lift_spec up down s) (drop off (take len (drop base b))) = None"
    for b base len off
    using pack.dec_none [OF p that(1,2)] that(3) by (auto simp: lift_pack_def lift_spec_def inv)
  show "dec_pack (lift_pack up down p) b base len (tuple_init (lift_pack up down p)) True off = Some (True, off + n, t)"
    if "base + len \<le> length b" "off \<le> len" "par (lift_spec up down s) (drop off (take len (drop base b))) = Some (t, n)"
    for b base len off t n
    using pack.dec_some [OF p that(1,2)] that(3) by (auto simp: lift_pack_def lift_spec_def inv)
  show "\<exists>x. dec_pack (lift_pack up down p) b base len t False off = Some (False, off, x)" for b base len t off
    using pack.dec_skip [OF p, of b base len "down t" off] by (auto simp: lift_pack_def)
qed (auto simp: lift_pack_def lift_spec_def inv pack.enc_fits [OF p] pack.enc_full [OF p] pack.enc_skip [OF p]
    pack.par_ser [OF p] pack.ser_canon [OF p] pack.initial_valid [OF p] pack.ser_bound [OF p]
    dest: pack.par_bound [OF p] pack.par_valid [OF p])

lemma lift_codec_strict:
  assumes c: "strict_codec c s" and inv: "\<And>x. down (up x) = x"
  shows "strict_codec (lift_codec up down c) (lift_spec up down s)"
  by (intro strict_codec.intro lift_codec_codec strict_codec.axioms(1) [OF c] inv, unfold_locales)
     (auto simp: lift_spec_def inv dest: strict_codec.par_strict [OF c])

primrec wire_spec :: "wtype \<Rightarrow> wval Spec" where
  "wire_spec UInt8 = lift_spec VU8 u8_of uint_spec"
| "wire_spec UInt16 = lift_spec VU16 u16_of uint_spec"
| "wire_spec UInt32 = lift_spec VU32 u32_of uint_spec"
| "wire_spec UInt64 = lift_spec VU64 u64_of uint_spec"
| "wire_spec Int8 = lift_spec VInt int_of (int_spec TYPE(8))"
| "wire_spec Int16 = lift_spec VInt int_of (int_spec TYPE(16))"
| "wire_spec Int32 = lift_spec VInt int_of (int_spec TYPE(32))"
| "wire_spec Int64 = lift_spec VInt int_of (int_spec TYPE(64))"
| "wire_spec FloatT = lift_spec VFloat float_of float_spec"
| "wire_spec DoubleT = lift_spec VDouble double_of float_spec"
| "wire_spec BoolT = lift_spec VBool bool_of bool_spec"
| "wire_spec (EnumT n t) = enum_spec (\<lambda>v. v = VEnum n (enum_of v) \<and> valid (wire_spec t) (enum_of v)) enum_of (VEnum n) (wire_spec t)"
| "wire_spec (ArrayT t N) = lift_spec (\<lambda>a. VArray (idata a) (isize a)) (\<lambda>v. \<lparr>idata = slots v, isize = array_len v\<rparr>)
     (span_spec N (initial (wire_codec t)) (wire_spec t))"
| "wire_spec (StringT N) = lift_spec (\<lambda>a. VString (idata a) (isize a)) (\<lambda>v. \<lparr>idata = chars v, isize = string_len v\<rparr>)
     (span_spec N (initial u8_codec) uint_spec)"

lemma integral_laws:
  assumes "integral t"
  shows "fixed_codec (wire_codec t) (wire_spec t)" "strict_codec (wire_codec t) (wire_spec t)"
    "valid (wire_spec t) v \<Longrightarrow> canon (wire_spec t) v = v"
proof -
  note u = lift_codec_fixed [OF uint_codec_laws(1)] and i = lift_codec_fixed [OF int_codec_laws(1)]
  show "fixed_codec (wire_codec t) (wire_spec t)"
    using assms by (auto simp: integral_def intro!: u i)
  show "strict_codec (wire_codec t) (wire_spec t)"
    using assms by (auto simp: integral_def intro!: lift_codec_strict [OF uint_codec_laws(2)] lift_codec_strict [OF int_codec_laws(2)])
  show "valid (wire_spec t) v \<Longrightarrow> canon (wire_spec t) v = v"
    using assms by (auto simp: integral_def lift_spec_def uint_spec_def int_spec_def enum_spec_def)
qed

text \<open>Every type that compiles has a codec that keeps its promise; those flagged \<open>kFixed\<close> have one size.\<close>

lemma wire_laws:
  "wtype_ok t \<Longrightarrow> codec (wire_codec t) (wire_spec t) \<and> (kFixed (wire_codec t) \<longrightarrow> fixed_codec (wire_codec t) (wire_spec t))"
proof (induction t)
  case (EnumT n t)
  then have t: "integral t" by simp
  note laws = integral_laws [OF t]
  have "fixed_codec (EnumCodec enum_of (VEnum n) (wire_codec t)) (wire_spec (EnumT n t))"
    unfolding wire_spec.simps using laws(1,2)
  proof (rule enum_codec_laws)
    show "codec (wire_codec t) (wire_spec t)" using laws(1) by (rule fixed_codec.axioms)
  qed (use laws(3) in auto)
  then show ?case by (simp add: fixed_codec.axioms)
next
  case (ArrayT t N)
  have "span_elem (wire_codec t) (wire_spec t) N"
    using ArrayT by (intro span_elem.intro span_elem_axioms.intro) simp_all
  then have "codec (SpanCodec N (wire_codec t)) (span_spec N (initial (wire_codec t)) (wire_spec t))"
    by (rule span_elem.span_codec)
  then show ?case by (auto simp: SpanCodec_def intro: lift_codec_codec)
next
  case (StringT N)
  have "span_elem u8_codec uint_spec N"
    using StringT by (intro span_elem.intro span_elem_axioms.intro u8.fixed_codec_axioms) simp
  then have "codec (StringCodec N) (span_spec N (initial u8_codec) uint_spec)"
    unfolding StringCodec_def by (rule span_elem.span_codec)
  then show ?case by (auto simp: StringCodec_def SpanCodec_def intro: lift_codec_codec)
qed (auto intro!: lift_codec_fixed lift_codec_codec uint_codec_laws int_codec_laws float_codec_laws bl.fixed_codec_axioms
    fixed_codec.axioms(1) [OF uint_codec_laws(1)] fixed_codec.axioms(1) [OF int_codec_laws(1)]
    fixed_codec.axioms(1) [OF float_codec_laws(1)] bl.codec_axioms)

lemma typed_valid: "has_type t v \<Longrightarrow> valid (wire_spec t) v"
proof (induction t arbitrary: v)
  case (EnumT n t)
  then show ?case by (cases v) (auto simp: enum_spec_def)
next
  case (ArrayT t N)
  then show ?case
    by (cases v) (auto simp: lift_spec_def span_spec_def array_ok_def elems_def list_all_iff dest: in_set_takeD)
next
  case (StringT N)
  then show ?case by (cases v) (auto simp: lift_spec_def span_spec_def array_ok_def list_all_iff uint_spec_def)
qed (auto simp: lift_spec_def uint_spec_def int_spec_def float_spec_def enum_spec_def bool_spec_def)

lemma integral_ok: "integral t \<Longrightarrow> wtype_ok t"
  by (auto simp: integral_def)

lemma init_typed: "wtype_ok t \<Longrightarrow> has_type t (initial (wire_codec t))"
proof (induction t)
  case (EnumT n t)
  then show ?case by (simp add: EnumCodec_def integral_ok)
next
  case (ArrayT t N)
  then show ?case by (simp add: lift_codec_def SpanCodec_def InlineArray_init_def list_all_iff)
qed (simp_all add: lift_codec_def int_ok_def codec_sel StringCodec_def SpanCodec_def InlineArray_init_def)

lemma par_elems_all:
  assumes "\<And>bs v n. par s bs = Some (v, n) \<Longrightarrow> P v"
  shows "par_elems s k bs = Some (vs, m) \<Longrightarrow> list_all P vs \<and> length vs = k"
proof (induction k arbitrary: bs vs m)
  case (Suc k)
  then show ?case using assms by (fastforce split: option.splits)
qed simp

lemma span_par:
  assumes "par (span_spec N x s) bs = Some (a, n)"
  obtains vs k r j where "a = array_of N x vs" "par_elems s k r = Some (vs, j)" "k \<le> N"
  using assms by (auto simp: span_spec_def split: list.splits if_splits option.splits)

lemma par_typed: "\<lbrakk>wtype_ok t; par (wire_spec t) bs = Some (v, n)\<rbrakk> \<Longrightarrow> has_type t v"
proof (induction t arbitrary: bs v n)
  case (EnumT m t)
  then show ?case by (auto simp: enum_spec_def integral_ok)
next
  case (ArrayT t N)
  obtain a where a: "par (span_spec N (initial (wire_codec t)) (wire_spec t)) bs = Some (a, n)" "v = VArray (idata a) (isize a)"
    using ArrayT.prems(2) by (auto simp: lift_spec_def)
  obtain vs k r j where vs: "a = array_of N (initial (wire_codec t)) vs" "par_elems (wire_spec t) k r = Some (vs, j)" "k \<le> N"
    by (rule span_par [OF a(1)])
  have "list_all (has_type t) vs \<and> length vs = k"
    using ArrayT.IH ArrayT.prems(1) by (intro par_elems_all [OF _ vs(2)]) auto
  then show ?case using init_typed [of t] ArrayT.prems(1) a(2) vs
    by (auto simp: array_of_def list_all_iff set_replicate_conv_if)
next
  case (StringT N)
  obtain a where a: "par (span_spec N (initial u8_codec) uint_spec) bs = Some (a, n)" "v = VString (idata a) (isize a)"
    using StringT.prems(2) by (auto simp: lift_spec_def)
  obtain vs k r j where vs: "a = array_of N (initial u8_codec) vs" "par_elems uint_spec k r = Some (vs, j)" "k \<le> N"
    by (rule span_par [OF a(1)])
  have "length vs = k" using par_elems_all [OF _ vs(2), of "\<lambda>_. True"] by simp
  then show ?case using a(2) vs by (simp add: array_of_def)
qed (auto simp: lift_spec_def int_spec_def enum_spec_def int_ok_sint)

section \<open>Tuples\<close>

primrec tuple_spec :: "wtype list \<Rightarrow> wval list Spec" where
  "tuple_spec [] = lift_spec (\<lambda>_. []) (\<lambda>_. ()) tnil_spec"
| "tuple_spec (t # ts) = lift_spec cons_up cons_down (tcons_spec (wire_spec t) (tuple_spec ts))"

abbreviation typed :: "wtype list \<Rightarrow> wval list \<Rightarrow> bool" where
  "typed ts vs \<equiv> list_all2 has_type ts vs"

lemma tuple_laws: "list_all wtype_ok ts \<Longrightarrow> pack (tuple_pack ts) (tuple_spec ts)"
proof (induction ts)
  case Nil
  show ?case using lift_pack_pack [OF nil_pack.pack_axioms, of "\<lambda>_. ()" "\<lambda>_. []"] by simp
next
  case (Cons t ts)
  then have "pack (tcons (wire_codec t) (tuple_pack ts)) (tcons_spec (wire_spec t) (tuple_spec ts))"
    using wire_laws [of t] by (intro tcons_packI) simp_all
  then show ?case by (auto intro: lift_pack_pack)
qed

lemma tuple_max: "maxSize (tuple_pack ts) = TupleMaxSize ts"
proof -
  have "foldl (\<lambda>n t. n + kMaxSize (wire_codec t)) k ts = k + maxSize (tuple_pack ts)" for k
    by (induction ts arbitrary: k) (simp_all add: lift_pack_def tnil_def tcons_def)
  then show ?thesis by (simp add: TupleMaxSize_def)
qed

lemma tuple_valid: "typed ts vs \<Longrightarrow> valid (tuple_spec ts) vs"
  by (induction rule: list_all2_induct) (simp_all add: lift_spec_def tnil_spec_def tcons_spec_def typed_valid)

lemma tuple_init_typed: "list_all wtype_ok ts \<Longrightarrow> typed ts (tuple_init (tuple_pack ts))"
  by (induction ts) (simp_all add: lift_pack_def tnil_def tcons_def init_typed)

lemma tuple_par_typed: "\<lbrakk>list_all wtype_ok ts; par (tuple_spec ts) bs = Some (vs, n)\<rbrakk> \<Longrightarrow> typed ts vs"
proof (induction ts arbitrary: bs vs n)
  case (Cons t ts)
  then show ?case by (fastforce simp: lift_spec_def tcons_spec_def dest: par_typed split: option.splits)
qed (auto simp: lift_spec_def tnil_spec_def)

lemma tuple_parse_typed: "\<lbrakk>list_all wtype_ok ts; parse (tuple_spec ts) bs = Some vs\<rbrakk> \<Longrightarrow> typed ts vs"
  by (auto simp: parse_def dest: tuple_par_typed split: option.splits if_splits)

lemma tuple_canon_typed: "\<lbrakk>list_all wtype_ok ts; typed ts vs\<rbrakk> \<Longrightarrow> typed ts (canon (tuple_spec ts) vs)"
  using pack.par_ser [OF tuple_laws tuple_valid, of ts vs "[]"] tuple_par_typed by blast

text \<open>The promise of a tuple with typing for its notion of a valid value.\<close>

definition typed_spec :: "wtype list \<Rightarrow> wval list Spec" where
  "typed_spec ts = (tuple_spec ts)\<lparr>valid := typed ts\<rparr>"

lemma typed_spec_sel [simp]:
  "valid (typed_spec ts) = typed ts" "canon (typed_spec ts) = canon (tuple_spec ts)"
  "ser (typed_spec ts) = ser (tuple_spec ts)" "par (typed_spec ts) = par (tuple_spec ts)"
  by (simp_all add: typed_spec_def)

lemma typed_pack:
  assumes "list_all wtype_ok ts"
  shows "pack (tuple_pack ts) (typed_spec ts)"
proof -
  note p = tuple_laws [OF assms]
  show ?thesis
    by unfold_locales
       (auto simp: pack.enc_fits [OF p tuple_valid] pack.enc_full [OF p tuple_valid] pack.enc_skip [OF p]
          pack.dec_some [OF p] pack.dec_none [OF p] pack.dec_skip [OF p] pack.par_ser [OF p tuple_valid]
          pack.ser_canon [OF p tuple_valid] pack.ser_bound [OF p tuple_valid] tuple_init_typed [OF assms]
          dest: pack.par_bound [OF p] pack.par_valid [OF p] tuple_par_typed [OF assms])
qed

end
