(* ===== verification/Signature.thy ===== *)
theory Signature
  imports DeviceApp WireTypes
begin

text \<open>
  Contracts and the checks on them that the compiler makes: \<open>CommandTraits\<close>, \<open>CommandDef\<close> and the
  static assertions of \<open>command()\<close> (\<open>src/include/eup/command.hpp\<close>), \<open>WithStatus\<close> and those of
  \<open>call()\<close> (\<open>src/include/eup/host.hpp\<close>), as executable functions on the signatures of handlers. What
  compiles keeps the locale \<open>handler_contract\<close>, so that all that is proved of contracts holds for
  every signature the compiler accepts.
\<close>

section \<open>Signatures\<close>

text \<open>A parameter is a value, a reference (\<open>True\<close>: to a constant) or an rvalue reference. \<open>OtherT\<close> is
  any return type that is no tuple. A function declared \<open>noexcept\<close> has another type.\<close>

datatype param = ByValue wtype | LvalueRef bool wtype | RvalueRef wtype

datatype ret_type = TupleOf "wtype list" | OtherT

record signature =
  returns :: ret_type
  params :: "param list"
  is_noexcept :: bool

definition StatusCode_t :: wtype where "StatusCode_t = EnumT ''StatusCode'' UInt8"

fun decay :: "param \<Rightarrow> wtype" where
  "decay (ByValue t) = t"
| "decay (LvalueRef c t) = t"
| "decay (RvalueRef t) = t"

text \<open>The argument and result tuples, or \<open>None\<close> where the template is left undefined.\<close>

definition CommandTraits :: "signature \<Rightarrow> (wtype list \<times> wtype list) option" where
  "CommandTraits f =
     (if is_noexcept f then None
      else case returns f of
        TupleOf (t # rets) \<Rightarrow> if t = StatusCode_t then Some (map decay (params f), rets) else None
      | _ \<Rightarrow> None)"

definition CommandDef_types :: "signature \<Rightarrow> (wtype list \<times> wtype list) option" where
  "CommandDef_types sig =
     (if is_noexcept sig then None
      else case returns sig of
        TupleOf (t # rets) \<Rightarrow> if t = StatusCode_t then Some (map decay (params sig), rets) else None
      | _ \<Rightarrow> None)"

definition CommandDef_of :: "byte \<Rightarrow> wtype list \<Rightarrow> wtype list \<Rightarrow> (wval list, wval list) CommandDef" where
  "CommandDef_of op args rets = \<lparr>def_opcode = op, ArgsTuple = tuple_pack args, RetsTuple = tuple_pack rets\<rparr>"

definition WithStatus :: "wtype list \<Rightarrow> wtype list" where
  "WithStatus rets = StatusCode_t # rets"

section \<open>What compiles\<close>

text \<open>\<open>std::apply\<close> passes the elements of a tuple variable, which an rvalue reference does not bind to.\<close>

fun binds_lvalue :: "param \<Rightarrow> bool" where
  "binds_lvalue (ByValue t) \<longleftrightarrow> True"
| "binds_lvalue (LvalueRef c t) \<longleftrightarrow> True"
| "binds_lvalue (RvalueRef t) \<longleftrightarrow> False"

text \<open>\<open>command<Op, Fn>\<close>, with the thunk it makes.\<close>

definition command_op_compiles :: "signature \<Rightarrow> bool" where
  "command_op_compiles fn =
     (case CommandTraits fn of
        None \<Rightarrow> False
      | Some (args, rets) \<Rightarrow>
          TupleMaxSize args \<le> kMaxPayload - 1 \<and> TupleMaxSize rets \<le> kMaxPayload - 1 \<and>
          list_all wtype_ok (args @ rets) \<and> list_all binds_lvalue (params fn))"

text \<open>\<open>command<Def, Fn>\<close>.\<close>

definition command_compiles :: "signature \<Rightarrow> signature \<Rightarrow> bool" where
  "command_compiles sig fn =
     (case (CommandTraits fn, CommandDef_types sig) of
        (Some (args, rets), Some (def_args, def_rets)) \<Rightarrow> args = def_args \<and> rets = def_rets \<and> command_op_compiles fn
      | _ \<Rightarrow> False)"

text \<open>The fields of a stream, for a writer and for a reader.\<close>

definition stream_fields_compile :: "wtype list \<Rightarrow> bool" where
  "stream_fields_compile ts \<longleftrightarrow> list_all wtype_ok ts \<and> kStreamHeaderSize + TupleMaxSize ts \<le> kMaxPayload"

definition StreamDef_of :: "byte \<Rightarrow> wtype list \<Rightarrow> wval list StreamDef" where
  "StreamDef_of op ts = \<lparr>stream_opcode = op, stream_fields = tuple_pack ts\<rparr>"

section \<open>What compiles is a contract\<close>

definition typed_handler :: "wtype list \<Rightarrow> wtype list \<Rightarrow> ('st \<Rightarrow> bool) \<Rightarrow> ('st, wval list, wval list) Handler \<Rightarrow> bool" where
  "typed_handler args rets sinv fn \<longleftrightarrow>
     (\<forall>st vs. sinv st \<longrightarrow> typed args vs \<longrightarrow> (\<exists>c rs st'. fn vs st = Some ((c, rs), st') \<and> typed rets rs \<and> sinv st'))"

lemma compiles_traits:
  assumes "command_compiles sig fn_sig"
  obtains args rets where "CommandDef_types sig = Some (args, rets)" "CommandTraits fn_sig = Some (args, rets)"
    "TupleMaxSize args \<le> kMaxPayload - 1" "TupleMaxSize rets \<le> kMaxPayload - 1"
    "list_all wtype_ok args" "list_all wtype_ok rets"
  using assms by (auto simp: command_compiles_def command_op_compiles_def split: option.splits prod.splits)

lemma compiled_contract:
  assumes "command_compiles sig fn_sig" "CommandDef_types sig = Some (args, rets)"
  shows "contract (CommandDef_of op args rets) (typed_spec args) (typed_spec rets)"
proof -
  have ok: "TupleMaxSize args \<le> kMaxPayload - 1" "TupleMaxSize rets \<le> kMaxPayload - 1"
      "list_all wtype_ok args" "list_all wtype_ok rets"
    using compiles_traits [OF assms(1)] assms(2) by auto
  show ?thesis
    by (intro contract.intro contract_axioms.intro)
       (use ok in \<open>simp_all add: CommandDef_of_def typed_pack tuple_max kMaxPayload_def\<close>)
qed

lemma compiled_handler:
  assumes "command_compiles sig fn_sig" "CommandDef_types sig = Some (args, rets)" "typed_handler args rets sinv fn"
  shows "handler_contract (CommandDef_of op args rets) (typed_spec args) (typed_spec rets) fn sinv"
  using assms(3)
  by (intro handler_contract.intro handler_contract_axioms.intro compiled_contract [OF assms(1,2)])
     (simp add: typed_handler_def)

text \<open>Two signatures that compile together make the same tuples, and a host that names the contract
  gets the return type of the handler.\<close>

lemma with_status_mirror:
  assumes "command_compiles sig fn_sig" "CommandDef_types sig = Some (args, rets)"
  shows "returns fn_sig = TupleOf (WithStatus rets) \<and> map decay (params fn_sig) = args"
  using assms
  by (auto simp: command_compiles_def CommandTraits_def WithStatus_def split: option.splits prod.splits if_splits
      ret_type.splits list.splits)

lemma compiled_stream:
  assumes "stream_fields_compile ts"
  shows "stream_contract (StreamDef_of op ts) (typed_spec ts)"
  using assms
  by (intro stream_contract.intro stream_contract_axioms.intro)
     (simp_all add: StreamDef_of_def stream_fields_compile_def typed_pack tuple_max)

section \<open>The example\<close>

definition example_signatures :: "(byte \<times> signature) list" where
  "example_signatures =
     [(0x10, \<lparr>returns = TupleOf [StatusCode_t], params = [ByValue UInt8, ByValue UInt8, ByValue UInt8], is_noexcept = False\<rparr>),
      (0x11, \<lparr>returns = TupleOf [StatusCode_t, UInt16], params = [ByValue UInt8], is_noexcept = False\<rparr>),
      (0x12, \<lparr>returns = TupleOf [StatusCode_t, UInt8, UInt8, UInt8], params = [], is_noexcept = False\<rparr>),
      (0x13, \<lparr>returns = TupleOf [StatusCode_t, UInt32], params = [], is_noexcept = False\<rparr>),
      (0x14, \<lparr>returns = TupleOf [StatusCode_t], params = [ByValue (StringT kMaxNameLen)], is_noexcept = False\<rparr>),
      (0x15, \<lparr>returns = TupleOf [StatusCode_t, StringT kMaxNameLen], params = [], is_noexcept = False\<rparr>),
      (0x16, \<lparr>returns = TupleOf [StatusCode_t, ArrayT UInt16 kBlockLen], params = [ByValue UInt8], is_noexcept = False\<rparr>)]"

lemmas compile_simps = command_compiles_def command_op_compiles_def CommandTraits_def CommandDef_types_def
  StatusCode_t_def TupleMaxSize_def lift_codec_def EnumCodec_def StringCodec_def SpanCodec_def codec_sel
  u16.fixed_flag kMaxPayload_def integral_def

text \<open>Every contract of the example compiles with its handler, and so does its stream; their budgets
  are those of \<open>DeviceApp\<close>'s definitions.\<close>

lemma example_compiles:
  "list_all (\<lambda>(op, sig). command_compiles sig sig) example_signatures"
  "stream_fields_compile [UInt16, Int16]"
  by (simp_all add: example_signatures_def compile_simps app_consts stream_fields_compile_def
      kStreamHeaderSize_def kStreamCounterSize_def)

lemma example_budgets:
  "map (\<lambda>(op, sig). (op, map_option (\<lambda>(a, r). (TupleMaxSize a, TupleMaxSize r)) (CommandDef_types sig))) example_signatures =
    [(def_opcode SetRgbCmd, Some (maxSize (ArgsTuple SetRgbCmd), maxSize (RetsTuple SetRgbCmd))),
     (def_opcode ReadAdcCmd, Some (maxSize (ArgsTuple ReadAdcCmd), maxSize (RetsTuple ReadAdcCmd))),
     (def_opcode GetRgbCmd, Some (maxSize (ArgsTuple GetRgbCmd), maxSize (RetsTuple GetRgbCmd))),
     (def_opcode GetUptimeCmd, Some (maxSize (ArgsTuple GetUptimeCmd), maxSize (RetsTuple GetUptimeCmd))),
     (def_opcode SetNameCmd, Some (maxSize (ArgsTuple SetNameCmd), maxSize (RetsTuple SetNameCmd))),
     (def_opcode GetNameCmd, Some (maxSize (ArgsTuple GetNameCmd), maxSize (RetsTuple GetNameCmd))),
     (def_opcode ReadBlockCmd, Some (maxSize (ArgsTuple ReadBlockCmd), maxSize (RetsTuple ReadBlockCmd)))]"
  by (simp add: example_signatures_def compile_simps contract_defs tnil_def tcons_def app_consts)

text \<open>What does not compile: a return type that does not lead with the status, \<open>noexcept\<close>, an rvalue
  reference, a span of spans, and arguments one byte too long.\<close>

lemma rejected_signatures:
  "\<not> command_compiles sig \<lparr>returns = TupleOf [UInt8], params = [], is_noexcept = False\<rparr>"
  "\<not> command_compiles sig \<lparr>returns = TupleOf [StatusCode_t], params = [], is_noexcept = True\<rparr>"
  "\<not> command_compiles sig \<lparr>returns = TupleOf [StatusCode_t], params = [RvalueRef UInt8], is_noexcept = False\<rparr>"
  "\<not> command_compiles sig \<lparr>returns = TupleOf [StatusCode_t, ArrayT (StringT 3) 2], params = [], is_noexcept = False\<rparr>"
  "\<not> command_compiles sig \<lparr>returns = TupleOf [StatusCode_t], params = [ByValue (StringT 249)], is_noexcept = False\<rparr>"
  by (auto simp: compile_simps split: option.splits)

section \<open>Properties\<close>

definition mode_signature :: signature where
  "mode_signature = \<lparr>returns = TupleOf [StatusCode_t, BoolT, EnumT ''Mode'' Int8],
     params = [ByValue BoolT, LvalueRef True (EnumT ''Mode'' Int8)], is_noexcept = False\<rparr>"

definition mode_handler :: "(nat, wval list, wval list) Handler" where
  "mode_handler vs n = Some ((SC_Ok, vs), n + 1)"

lemma mode_facts:
  "command_compiles mode_signature mode_signature"
  "CommandDef_types mode_signature = Some ([BoolT, EnumT ''Mode'' Int8], [BoolT, EnumT ''Mode'' Int8])"
  "typed_handler [BoolT, EnumT ''Mode'' Int8] [BoolT, EnumT ''Mode'' Int8] (\<lambda>_. True) mode_handler"
  by (simp_all add: compile_simps mode_signature_def typed_handler_def mode_handler_def)

text \<open>C16: the dispatcher is type safe for every signature the compiler accepts: whatever bytes come in
  as arguments, the handler is only ever run on values of its parameters' types, values of its
  result types always fit the reply and decode to values of the result types on the other side,
  and bytes that are no such arguments are \<open>BadArguments\<close> and change nothing.\<close>

theorem compiled_command_type_safe:
  assumes "command_compiles sig fn_sig" "CommandDef_types sig = Some (args, rets)" "typed_handler args rets sinv fn"
    and "sinv st" "base + len \<le> length b" "kMaxPayload - 1 \<le> cap" "rbase + cap \<le> length reply"
  shows "\<exists>c n d st'. dispatch_fn (command (CommandDef_of op args rets) fn) b base len reply rbase cap st = Some ((c, n), d, st') \<and>
    sinv st' \<and>
    ((c, n, d, st') = (SC_BadArguments, 0, reply, st) \<or>
     (\<exists>vs rs rs'. typed args vs \<and> fn vs st = Some ((c, rs), st') \<and> typed rets rs \<and> n \<le> TupleMaxSize rets \<and>
        decode_tuple (tuple_pack rets) d rbase n (tuple_init (tuple_pack rets)) = Some (True, rs') \<and> typed rets rs'))"
proof -
  let ?d = "CommandDef_of op args rets"
  have h: "handler_contract ?d (typed_spec args) (typed_spec rets) fn sinv" by (rule compiled_handler [OF assms(1-3)])
  have ok: "list_all wtype_ok args" "list_all wtype_ok rets" "TupleMaxSize rets \<le> kMaxPayload - 1"
    using compiles_traits [OF assms(1)] assms(2) by auto
  note pa = typed_pack [OF ok(1)] and pr = typed_pack [OF ok(2)]
  note dec = pack.decode_tuple_parse [OF pa assms(5)]
  show ?thesis
  proof (cases "parse (typed_spec args) (take len (drop base b))")
    case None
    then show ?thesis using dec assms(4) by (auto simp: command_def CommandDef_of_def dispatch_thunk_def)
  next
    case (Some vs)
    have vs: "typed args vs" using Some tuple_parse_typed [OF ok(1), of _ vs] by (simp add: parse_def)
    obtain c rs st' where fn: "fn vs st = Some ((c, rs), st')" "typed rets rs" "sinv st'"
      using assms(3,4) vs unfolding typed_handler_def by blast
    let ?s = "ser (tuple_spec rets) rs" and ?d' = "blit rbase (ser (tuple_spec rets) rs) reply"
    have n: "length ?s \<le> TupleMaxSize rets" using pack.ser_bound [OF pr, of rs] fn(2) by (simp add: tuple_max)
    then have cap: "length ?s \<le> cap" using ok(3) assms(6) by linarith
    have enc: "enc_pack (tuple_pack rets) rs reply rbase cap True 0 = Some (True, length ?s, ?d')"
      using pack.enc_fits [OF pr _ assms(7), of rs 0] fn(2) cap by simp
    have fit: "rbase + length ?s \<le> length ?d'" "take (length ?s) (drop rbase ?d') = ?s"
      using cap assms(7) by (simp_all add: length_blit slice_blit)
    have "parse (typed_spec rets) ?s = Some (canon (tuple_spec rets) rs)"
      using pack.parse_ser [OF pr, of rs] fn(2) by simp
    then have "decode_tuple (tuple_pack rets) ?d' rbase (length ?s) (tuple_init (tuple_pack rets)) = Some (True, canon (tuple_spec rets) rs)"
      using pack.decode_tuple_parse [OF pr fit(1)] unfolding fit(2) by simp
    moreover have "dispatch_fn (command ?d fn) b base len reply rbase cap st = Some ((c, length ?s), ?d', st')"
      using dec Some fn(1) enc by (simp add: command_def CommandDef_of_def dispatch_thunk_def encode_results_def)
    ultimately show ?thesis using vs fn n tuple_canon_typed [OF ok(2) fn(2)] by blast
  qed
qed

theorem compiled_command_type_safe_witness:
  "\<exists>c n d st'. dispatch_fn (command (CommandDef_of 9 [BoolT, EnumT ''Mode'' Int8] [BoolT, EnumT ''Mode'' Int8]) mode_handler)
      [2, 0xFF] 0 2 (replicate 250 0) 1 249 0 = Some ((c, n), d, st') \<and> True \<and>
    ((c, n, d, st') = (SC_BadArguments, 0, replicate 250 0, 0) \<or>
     (\<exists>vs rs rs'. typed [BoolT, EnumT ''Mode'' Int8] vs \<and> mode_handler vs 0 = Some ((c, rs), st') \<and>
        typed [BoolT, EnumT ''Mode'' Int8] rs \<and> n \<le> TupleMaxSize [BoolT, EnumT ''Mode'' Int8] \<and>
        decode_tuple (tuple_pack [BoolT, EnumT ''Mode'' Int8]) d 1 n (tuple_init (tuple_pack [BoolT, EnumT ''Mode'' Int8])) = Some (True, rs') \<and>
        typed [BoolT, EnumT ''Mode'' Int8] rs'))"
  by (rule compiled_command_type_safe [OF mode_facts]) (simp_all add: kMaxPayload_def)

text \<open>\<open>call\<close> is type safe for every contract that compiles: whatever the transport does and whatever
  frame it hands back, \<open>call\<close> on arguments of the contract's types returns, and its results have the
  result types of the contract: the mirror of the handler's return type.\<close>

lemma call_result_type_safe:
  assumes "command_compiles sig fn_sig" "CommandDef_types sig = Some (args, rets)" "typed args vs"
    and "length payload0 = kMaxPayload" "length wire0 = kMaxPacket"
    and send: "\<And>w n t. \<exists>ok t'. send w n t = Some (ok, t')"
    and await: "\<And>f t. frame_wf f \<Longrightarrow> \<exists>got g t'. await f t = Some (got, g, t') \<and> frame_wf g"
  shows "\<exists>c rs t'. call payload0 wire0 send await (CommandDef_of op args rets) vs t = Some ((c, rs), t') \<and>
    returns fn_sig = TupleOf (WithStatus rets) \<and> typed rets rs"
proof -
  let ?d = "CommandDef_of op args rets"
  have ok: "list_all wtype_ok rets" using compiles_traits [OF assms(1)] assms(2) by auto
  have init: "typed rets (tuple_init (RetsTuple ?d))" using tuple_init_typed [OF ok] by (simp add: CommandDef_of_def)
  have res: "typed rets (snd (result_of ?d (typed_spec rets) bs))" for bs
    using init tuple_parse_typed [OF ok] by (auto simp: result_of_def parse_def split: list.splits option.splits)
  have v: "valid (typed_spec args) vs" using assms(3) by simp
  obtain sent t1 c rs t' where run: "call payload0 wire0 send await ?d vs t = Some ((c, rs), t')"
      "c \<noteq> SC_Ok \<longrightarrow> rs = tuple_init (RetsTuple ?d)"
      "if \<not> sent then c = SC_TransportError \<and> t' = t1
       else \<exists>got reply. await Frame_init t1 = Some (got, reply, t') \<and>
         (c, rs) = (if \<not> got \<or> ftype reply \<noteq> MT_Reply then (SC_TransportError, tuple_init (RetsTuple ?d))
                   else result_of ?d (typed_spec rets) (frame_data reply))"
    using contract.call_cases [where send = send and await = await and t = t,
        OF compiled_contract [OF assms(1,2)] v assms(4,5) send await, of op] by blast
  have "typed rets rs"
  proof (cases sent)
    case True
    then obtain reply where "rs = tuple_init (RetsTuple ?d) \<or> (c, rs) = result_of ?d (typed_spec rets) (frame_data reply)"
      using run(3) by (auto split: if_splits)
    then show ?thesis using init res [of "frame_data reply"] by (auto dest: arg_cong [where f = snd])
  next
    case False
    then have "c \<noteq> SC_Ok" using run(3) by (simp add: status_codes)
    then show ?thesis using run(2) init by simp
  qed
  then show ?thesis using run(1) with_status_mirror [OF assms(1,2)] by blast
qed

end
