(* ===== verification/Convert.thy ===== *)
theory Convert
  imports Signature TestHost
begin

text \<open>
  The conversions that C++ makes on the way into and out of the templates: the elements of
  \<open>ArgsTuple a{std::forward<Args>(args)...}\<close> in \<open>call\<close> (\<open>src/include/eup/host.hpp\<close>) and of
  \<open>FieldsTuple f{fields...}\<close> in \<open>StreamWriter::write\<close>, and the parameters of a stream handler, which
  \<open>stream_invocable\<close> lets have other types than the fields (\<open>src/include/eup/stream.hpp\<close>). Integers
  convert modulo \<open>2 ^ w\<close>, with two's complement for the signed types. How a conversion from or to a
  floating-point type rounds is left to the implementation, and out of range it is undefined: it
  is the parameter \<open>fp\<close>, with \<open>None\<close> for the undefined. What is undefined in a handler's arguments
  makes the state of the host \<open>None\<close>.
\<close>

section \<open>One value\<close>

definition floating :: "wtype \<Rightarrow> bool" where
  "floating t \<longleftrightarrow> t = FloatT \<or> t = DoubleT"

definition integer :: "wtype \<Rightarrow> bool" where
  "integer t \<longleftrightarrow> integral t \<or> t = BoolT"

fun int_value :: "wval \<Rightarrow> int" where
  "int_value (VU8 w) = uint w"
| "int_value (VU16 w) = uint w"
| "int_value (VU32 w) = uint w"
| "int_value (VU64 w) = uint w"
| "int_value (VInt i) = i"
| "int_value (VBool b) = of_bool b"
| "int_value _ = 0"

fun from_int :: "wtype \<Rightarrow> int \<Rightarrow> wval" where
  "from_int UInt8 i = VU8 (word_of_int i)"
| "from_int UInt16 i = VU16 (word_of_int i)"
| "from_int UInt32 i = VU32 (word_of_int i)"
| "from_int UInt64 i = VU64 (word_of_int i)"
| "from_int Int8 i = VInt (sint (word_of_int i :: 8 word))"
| "from_int Int16 i = VInt (sint (word_of_int i :: 16 word))"
| "from_int Int32 i = VInt (sint (word_of_int i :: 32 word))"
| "from_int Int64 i = VInt (sint (word_of_int i :: 64 word))"
| "from_int _ i = VBool (i \<noteq> 0)"

text \<open>A floating-point value converts to \<open>true\<close> unless it is a zero of either sign.\<close>

fun fp_nonzero :: "wval \<Rightarrow> bool" where
  "fp_nonzero (VFloat (FP w)) \<longleftrightarrow> w \<noteq> 0 \<and> w \<noteq> 0x80000000"
| "fp_nonzero (VDouble (FP w)) \<longleftrightarrow> w \<noteq> 0 \<and> w \<noteq> 0x8000000000000000"
| "fp_nonzero _ \<longleftrightarrow> False"

text \<open>A string is an array of bytes, its base class; nothing else converts but numbers among each other.
  Enumerations are scoped ones here: an unscoped one would convert to numbers too.\<close>

fun base_of :: "wtype \<Rightarrow> wtype \<Rightarrow> bool" where
  "base_of (ArrayT t N) (StringT M) \<longleftrightarrow> t = UInt8 \<and> N = M"
| "base_of _ _ \<longleftrightarrow> False"

definition converts :: "wtype \<Rightarrow> wtype \<Rightarrow> bool" where
  "converts to from \<longleftrightarrow> to = from \<or> base_of to from \<or> (integer to \<or> floating to) \<and> (integer from \<or> floating from)"

type_synonym fp_conversion = "wtype \<Rightarrow> wval \<Rightarrow> wval option"

definition convert :: "fp_conversion \<Rightarrow> wtype \<Rightarrow> wtype \<Rightarrow> wval \<Rightarrow> wval option" where
  "convert fp to from v =
     (if to = from then Some v
      else if base_of to from then Some (VArray (map VU8 (chars v)) (string_len v))
      else if floating from \<and> to = BoolT then Some (VBool (fp_nonzero v))
      else if floating from \<or> floating to then fp to v
      else Some (from_int to (int_value v)))"

fun convert_all :: "fp_conversion \<Rightarrow> wtype list \<Rightarrow> wtype list \<Rightarrow> wval list \<Rightarrow> wval list option" where
  "convert_all fp (t # ts) (u # us) (v # vs) = do {
     x \<leftarrow> convert fp t u v;
     xs \<leftarrow> convert_all fp ts us vs;
     Some (x # xs)
   }"
| "convert_all fp ts us vs = Some []"

text \<open>What is known of the floating-point conversions: they yield values of the target type.\<close>

definition fp_typed :: "fp_conversion \<Rightarrow> bool" where
  "fp_typed fp \<longleftrightarrow> (\<forall>t v w. floating t \<or> integer t \<longrightarrow> fp t v = Some w \<longrightarrow> has_type t w)"

section \<open>Calls and writers\<close>

definition call_compiles :: "signature \<Rightarrow> wtype list \<Rightarrow> bool" where
  "call_compiles sig us =
     (case CommandDef_types sig of
        None \<Rightarrow> False
      | Some (args, rets) \<Rightarrow> list_all2 converts args us \<and> TupleMaxSize args \<le> kMaxPayload - 1 \<and> list_all wtype_ok (args @ rets))"

definition call_with ::
  "fp_conversion \<Rightarrow> buf \<Rightarrow> buf \<Rightarrow> 't Sender \<Rightarrow> 't Awaiter \<Rightarrow> byte \<Rightarrow> wtype list \<Rightarrow> wtype list \<Rightarrow> wtype list \<Rightarrow> wval list \<Rightarrow> 't
    \<Rightarrow> ((StatusCode \<times> wval list) \<times> 't) option" where
  "call_with fp payload0 wire0 send await op args rets us vs tx = do {
     a \<leftarrow> convert_all fp args us vs;
     call payload0 wire0 send await (CommandDef_of op args rets) a tx
   }"

definition write_compiles :: "wtype list \<Rightarrow> wtype list \<Rightarrow> bool" where
  "write_compiles fts us \<longleftrightarrow> list_all2 converts fts us \<and> stream_fields_compile fts"

definition write_with ::
  "fp_conversion \<Rightarrow> buf \<Rightarrow> byte \<Rightarrow> wtype list \<Rightarrow> buf \<Rightarrow> nat \<Rightarrow> 32 word \<Rightarrow> wtype list \<Rightarrow> wval list \<Rightarrow> (EncodeResult \<times> buf) option" where
  "write_with fp payload0 op fts out cap counter us vs = do {
     f \<leftarrow> convert_all fp fts us vs;
     StreamWriter_write payload0 (StreamDef_of op fts) out cap counter f
   }"

section \<open>Handlers of streams\<close>

text \<open>\<open>std::is_invocable<Fn, std::uint32_t, Fields...>\<close> asks about arguments that are rvalues.\<close>

fun takes_rvalue :: "param \<Rightarrow> wtype \<Rightarrow> bool" where
  "takes_rvalue (ByValue t) u \<longleftrightarrow> converts t u"
| "takes_rvalue (LvalueRef const t) u \<longleftrightarrow> const \<and> converts t u"
| "takes_rvalue (RvalueRef t) u \<longleftrightarrow> converts t u"

definition stream_invocable :: "param list \<Rightarrow> wtype list \<Rightarrow> bool" where
  "stream_invocable ps fts \<longleftrightarrow> list_all2 takes_rvalue ps (UInt32 # fts)"

text \<open>The thunk passes lvalues. An rvalue reference binds to the temporary that a conversion makes,
  but not to an lvalue of its own type or of a class derived from it.\<close>

fun takes_lvalue :: "param \<Rightarrow> wtype \<Rightarrow> bool" where
  "takes_lvalue (ByValue t) u \<longleftrightarrow> converts t u"
| "takes_lvalue (LvalueRef const t) u \<longleftrightarrow> t = u \<or> base_of t u \<or> const \<and> converts t u"
| "takes_lvalue (RvalueRef t) u \<longleftrightarrow> t \<noteq> u \<and> \<not> base_of t u \<and> converts t u"

definition stream_compiles :: "param list \<Rightarrow> wtype list \<Rightarrow> bool" where
  "stream_compiles ps fts \<longleftrightarrow>
     stream_invocable ps fts \<and> list_all2 takes_lvalue ps (UInt32 # fts) \<and> stream_fields_compile fts"

text \<open>The call \<open>Fn(counter, xs...)\<close>.\<close>

definition handler_call :: "fp_conversion \<Rightarrow> param list \<Rightarrow> wtype list \<Rightarrow> (wval list \<Rightarrow> 'h \<Rightarrow> 'h) \<Rightarrow> ('h option, wval list) StreamHandler" where
  "handler_call fp ps fts fn counter xs h = do {
     st \<leftarrow> h;
     ys \<leftarrow> convert_all fp (map decay ps) (UInt32 # fts) (VU32 counter # xs);
     Some (fn ys st)
   }"

definition stream_of :: "fp_conversion \<Rightarrow> byte \<Rightarrow> wtype list \<Rightarrow> param list \<Rightarrow> (wval list \<Rightarrow> 'h \<Rightarrow> 'h) \<Rightarrow> 'h option StreamEntry" where
  "stream_of fp op fts ps fn = stream (StreamDef_of op fts) (handler_call fp ps fts fn)"

section \<open>What conversions do\<close>

definition fits :: "wtype \<Rightarrow> int \<Rightarrow> bool" where
  "fits t i = (case t of
       UInt8 \<Rightarrow> 0 \<le> i \<and> i < 2 ^ 8 | UInt16 \<Rightarrow> 0 \<le> i \<and> i < 2 ^ 16
     | UInt32 \<Rightarrow> 0 \<le> i \<and> i < 2 ^ 32 | UInt64 \<Rightarrow> 0 \<le> i \<and> i < 2 ^ 64
     | Int8 \<Rightarrow> int_ok TYPE(8) i | Int16 \<Rightarrow> int_ok TYPE(16) i | Int32 \<Rightarrow> int_ok TYPE(32) i | Int64 \<Rightarrow> int_ok TYPE(64) i
     | BoolT \<Rightarrow> i = 0 \<or> i = 1 | _ \<Rightarrow> False)"

lemma integer_cases:
  assumes "integer t"
  obtains "t = UInt8" | "t = UInt16" | "t = UInt32" | "t = UInt64" | "t = Int8" | "t = Int16" | "t = Int32" | "t = Int64" | "t = BoolT"
  using assms by (auto simp: integer_def integral_def)

lemma from_int_typed: "integer t \<Longrightarrow> has_type t (from_int t i)"
  by (erule integer_cases) (simp_all add: int_ok_sint)

lemma uint_ranges:
  "uint (a :: 8 word) < 256" "uint (b :: 16 word) < 65536" "uint (c :: 32 word) < 4294967296"
  "uint (d :: 64 word) < 18446744073709551616"
  using uint_bounded [of a] uint_bounded [of b] uint_bounded [of c] uint_bounded [of d] by simp_all

lemma int_value_fits: "\<lbrakk>integer t; has_type t v\<rbrakk> \<Longrightarrow> fits t (int_value v)"
  by (erule integer_cases; cases v) (auto simp: fits_def uint_ranges)

lemma from_int_value: "\<lbrakk>integer t; has_type t v\<rbrakk> \<Longrightarrow> from_int t (int_value v) = v"
  by (erule integer_cases; cases v) (auto simp: sint_word_of_int)

lemma from_int_exact: "\<lbrakk>integer t; fits t i\<rbrakk> \<Longrightarrow> int_value (from_int t i) = i"
  by (erule integer_cases) (auto simp: fits_def sint_word_of_int uint_word_of_int take_bit_int_eq_self)

lemma from_int_fits: "integer t \<Longrightarrow> fits t (int_value (from_int t i))"
  by (intro int_value_fits from_int_typed)

text \<open>An integer is kept exactly when the target type has it; otherwise it is reduced.\<close>

lemma from_int_keeps: "integer t \<Longrightarrow> int_value (from_int t i) = i \<longleftrightarrow> fits t i"
  by (metis from_int_exact from_int_fits)

lemma from_int_mod:
  "int_value (from_int UInt8 i) = i mod 2 ^ 8" "int_value (from_int UInt16 i) = i mod 2 ^ 16"
  "int_value (from_int UInt32 i) = i mod 2 ^ 32" "int_value (from_int UInt64 i) = i mod 2 ^ 64"
  "int_value (from_int BoolT i) = of_bool (i \<noteq> 0)"
  by (simp_all add: uint_word_of_int)

lemma fp_typedD: "\<lbrakk>fp_typed fp; fp t v = Some w; floating t \<or> integer t\<rbrakk> \<Longrightarrow> has_type t w"
  by (auto simp: fp_typed_def)

lemma convert_int:
  assumes "integer to" "integer from" "has_type from v"
  shows "convert fp to from v = Some (from_int to (int_value v))"
proof -
  have "\<not> floating to" "\<not> floating from" "\<not> base_of to from"
    using assms(1,2) by (auto simp: integer_def integral_def floating_def elim: base_of.elims)
  then show ?thesis using from_int_value [OF assms(2,3)] by (simp add: convert_def)
qed

lemma convert_typed:
  assumes "converts to from" "has_type from v" "convert fp to from v = Some w" "fp_typed fp"
  shows "has_type to w"
proof -
  consider "to = from" | "to \<noteq> from" "base_of to from" | "to \<noteq> from" "\<not> base_of to from" "floating from" "to = BoolT"
    | "to \<noteq> from" "\<not> base_of to from" "floating from \<or> floating to" "\<not> (floating from \<and> to = BoolT)"
    | "to \<noteq> from" "\<not> base_of to from" "\<not> floating from" "\<not> floating to" by blast
  then show ?thesis
  proof cases
    case 2
    then show ?thesis using assms(2,3) by (cases to; cases "from"; cases v) (auto simp: convert_def list_all_iff)
  next
    case 4
    then show ?thesis using assms fp_typedD [OF assms(4), of to v w] by (auto simp: convert_def converts_def)
  next
    case 5
    then have "integer to" using assms(1) by (auto simp: converts_def)
    then show ?thesis using 5 assms(3) from_int_typed by (auto simp: convert_def)
  qed (use assms in \<open>auto simp: convert_def\<close>)
qed

lemma convert_all_typed:
  "\<lbrakk>list_all2 converts ts us; typed us vs; convert_all fp ts us vs = Some xs; fp_typed fp\<rbrakk> \<Longrightarrow> typed ts xs"
proof (induction fp ts us vs arbitrary: xs rule: convert_all.induct)
  case (1 fp t ts u us v vs)
  then show ?case by (auto split: bind_splits dest: convert_typed)
qed auto

text \<open>Without floating-point types a conversion is always defined, and it is that of the integers.\<close>

lemma convert_all_ints:
  "\<lbrakk>list_all integer ts; list_all integer us; length ts = length us; typed us vs\<rbrakk> \<Longrightarrow>
    convert_all fp ts us vs = Some (map2 (\<lambda>t v. from_int t (int_value v)) ts vs)"
  by (induction fp ts us vs rule: convert_all.induct) (auto simp: convert_int)

lemma canon_int: "\<lbrakk>integer t; has_type t v\<rbrakk> \<Longrightarrow> canon (wire_spec t) v = v"
  by (erule integer_cases; cases v)
     (auto simp: lift_spec_def uint_spec_def int_spec_def enum_spec_def bool_spec_def)

lemma canon_ints: "\<lbrakk>list_all integer ts; typed ts vs\<rbrakk> \<Longrightarrow> canon (tuple_spec ts) vs = vs"
proof (induction ts arbitrary: vs)
  case (Cons t ts)
  then show ?case by (cases vs) (auto simp: lift_spec_def tcons_spec_def canon_int)
qed (auto simp: lift_spec_def)

lemma invocable_converts:
  assumes "stream_compiles ps ts"
  shows "list_all2 converts (map decay ps) (UInt32 # ts)"
proof -
  have "takes_rvalue p u \<Longrightarrow> converts (decay p) u" for p u
    by (cases p) auto
  then show ?thesis
    using assms by (auto simp: stream_compiles_def stream_invocable_def list_all2_map1 elim: list_all2_mono)
qed

text \<open>What the static assertion refuses, and what it lets pass and the thunk does not compile with: an
  rvalue reference to the type of the field itself.\<close>

lemma refused_handlers:
  "\<not> stream_invocable [ByValue UInt32, LvalueRef False UInt16] [UInt16]"
  "\<not> stream_invocable [ByValue UInt32] [UInt16]"
  "\<not> stream_invocable [ByValue UInt32, ByValue (EnumT n UInt16)] [UInt16]"
  "stream_invocable [ByValue UInt32, RvalueRef UInt16] [UInt16]" "\<not> stream_compiles [ByValue UInt32, RvalueRef UInt16] [UInt16]"
  by (auto simp: stream_invocable_def stream_compiles_def converts_def integer_def integral_def floating_def)

section \<open>Properties\<close>

text \<open>C30: calling a command from C++ with arguments of other types, over the loopback: for every signature
  that compiles and every choice of arguments that converts to its parameters, the handler runs once,
  on the arguments converted (integers modulo \<open>2 ^ w\<close>, so that those out of range wrap without a
  diagnostic), and \<open>call\<close> returns its status and (for \<open>Ok\<close>) its results.\<close>

theorem converted_call_is_handler:
  assumes "service table tbl sinv" "map_of tbl op = Some (answer (typed_spec args) (typed_spec rets) fn)"
    and "command_compiles sig fn_sig" "CommandDef_types sig = Some (args, rets)" "typed_handler args rets sinv fn"
    and "call_compiles sig us" "typed us vs" "fp_typed fp" "convert_all fp args us vs = Some xs"
    and "loop_ok sinv t" "length rp0 = kMaxPayload" "length payload0 = kMaxPayload" "length wire0 = kMaxPacket"
  shows "\<exists>c r st' t'. fn (canon (tuple_spec args) xs) (lb_device t) = Some ((c, r), st') \<and>
    call_with fp payload0 wire0 (loop_send table rp0) loop_await op args rets us vs t
      = Some ((c, if c = SC_Ok then canon (tuple_spec rets) r else tuple_init (tuple_pack rets)), t') \<and>
    loop_ok sinv t' \<and> lb_device t' = st'"
proof -
  let ?d = "CommandDef_of op args rets"
  have h: "handler_contract ?d (typed_spec args) (typed_spec rets) fn sinv" by (rule compiled_handler [OF assms(3-5)])
  have "list_all2 converts args us" using assms(4,6) by (simp add: call_compiles_def)
  then have xs: "valid (typed_spec args) xs" using convert_all_typed [OF _ assms(7,9,8)] by simp
  show ?thesis
    using loopback_call [OF assms(1) h _ assms(10) xs assms(11-13)] assms(2,9)
    by (auto simp: call_with_def CommandDef_of_def)
qed

text \<open>A command with three bytes for parameters, and a handler that keeps them.\<close>

definition colour_signature :: signature where
  "colour_signature = \<lparr>returns = TupleOf [StatusCode_t], params = [ByValue UInt8, ByValue UInt8, ByValue UInt8], is_noexcept = False\<rparr>"

definition keep_colour :: "(wval list, wval list, wval list) Handler" where
  "keep_colour vs st = Some ((SC_Ok, []), vs)"

lemma colour_facts:
  "command_compiles colour_signature colour_signature"
  "CommandDef_types colour_signature = Some ([UInt8, UInt8, UInt8], [])"
  "typed_handler [UInt8, UInt8, UInt8] [] (\<lambda>_. True) keep_colour"
  by (simp_all add: compile_simps colour_signature_def typed_handler_def keep_colour_def)

interpretation colour: handler_contract "CommandDef_of 0x10 [UInt8, UInt8, UInt8] []" "typed_spec [UInt8, UInt8, UInt8]"
  "typed_spec []" keep_colour "\<lambda>_. True"
  by (rule compiled_handler [OF colour_facts])

interpretation colours: service "[command (CommandDef_of 0x10 [UInt8, UInt8, UInt8] []) keep_colour]"
  "[(0x10, answer (typed_spec [UInt8, UInt8, UInt8]) (typed_spec []) keep_colour)]" "\<lambda>_. True"
  by unfold_locales (use colour.command_serves in \<open>simp add: command_def CommandDef_of_def\<close>)

text \<open>Red 300 and green \<open>- 1\<close>, as the \<open>int\<close>s of the source, are 44 and 255 for the handler.\<close>

theorem converted_call_is_handler_witness:
  "\<exists>c r st' t'. keep_colour (canon (tuple_spec [UInt8, UInt8, UInt8]) [VU8 44, VU8 255, VU8 1]) (lb_device (make_loopback [])) = Some ((c, r), st') \<and>
    call_with (\<lambda>t v. None) (replicate 250 7) (replicate 256 9)
      (loop_send [command (CommandDef_of 0x10 [UInt8, UInt8, UInt8] []) keep_colour] (replicate 250 3)) loop_await
      0x10 [UInt8, UInt8, UInt8] [] [Int32, Int32, BoolT] [VInt 300, VInt (- 1), VBool True] (make_loopback [])
      = Some ((c, if c = SC_Ok then canon (tuple_spec []) r else tuple_init (tuple_pack [])), t') \<and>
    loop_ok (\<lambda>_. True) t' \<and> lb_device t' = st'"
proof -
  have conv: "convert_all (\<lambda>t v. None) [UInt8, UInt8, UInt8] [Int32, Int32, BoolT] [VInt 300, VInt (- 1), VBool True]
      = Some [VU8 44, VU8 255, VU8 1]" by code_simp
  have comp: "call_compiles colour_signature [Int32, Int32, BoolT]"
    using colour_facts(1,2) by (simp add: call_compiles_def compile_simps converts_def integer_def)
  show ?thesis
    by (rule converted_call_is_handler [OF colours.service_axioms _ colour_facts comp _ _ conv])
       (simp_all add: fp_typed_def int_ok_def kMaxPayload_def kMaxPacket_def)
qed

text \<open>C36: a stream written with arguments of other types than its fields, and handled by a function with
  parameters of yet other types: whatever compiles, the packet is written, decoded and dispatched, and the
  handler runs once, with the counter and the fields converted first to the types of the stream and
  then to those of the parameters.\<close>

theorem converted_stream_delivery:
  assumes "write_compiles ts us" "stream_compiles ps ts" "typed us vs" "fp_typed fp" "convert_all fp ts us vs = Some xs"
    and "convert_all fp (map decay ps) (UInt32 # ts) (VU32 counter # canon (tuple_spec ts) xs) = Some ys"
    and "length payload0 = kMaxPayload" "kMaxPacket \<le> cap" "cap \<le> length out" "frame_wf f0"
    and "find (\<lambda>e. se_opcode e = op) table = Some (stream_of fp op ts ps fn)"
  shows "\<exists>n wire crc f. write_with fp payload0 op ts out cap counter us vs = Some ((Frame_Ok, n), wire) \<and>
    n \<le> kMaxPacket \<and> decode_region wire (n - 1) f0 = Some ((Frame_Ok, crc), f) \<and> ftype f = MT_Stream \<and>
    dispatch_stream_array table f (Some h) = Some (True, Some (fn ys h)) \<and> typed (map decay ps) ys"
proof -
  let ?d = "StreamDef_of op ts"
  have con: "stream_contract ?d (typed_spec ts)"
    using assms(1) by (intro compiled_stream) (simp add: write_compiles_def)
  have ok: "list_all wtype_ok ts" using assms(1) by (simp add: write_compiles_def stream_fields_compile_def)
  have xs: "typed ts xs" using assms(1) convert_all_typed [OF _ assms(3,5,4)] by (simp add: write_compiles_def)
  have "typed (UInt32 # ts) (VU32 counter # canon (tuple_spec ts) xs)" using tuple_canon_typed [OF ok xs] by simp
  then have ys: "typed (map decay ps) ys"
    using convert_all_typed [OF invocable_converts [OF assms(2)] _ assms(6,4)] by blast
  have find: "find (\<lambda>e. se_opcode e = stream_opcode ?d) table = Some (stream ?d (handler_call fp ps ts fn))"
    using assms(11) by (simp add: stream_of_def StreamDef_of_def)
  show ?thesis
    using stream_contract.delivered [OF con _ assms(7-10) find, of xs counter "Some h"] xs ys assms(5,6)
    by (auto simp: write_with_def handler_call_def)
qed

text \<open>The telemetry stream written with \<open>int\<close>s and handled by a function of a \<open>std::uint8_t\<close>, an
  \<open>std::int32_t\<close> by constant reference and a \<open>std::uint64_t&&\<close>.\<close>

theorem converted_stream_delivery_witness:
  "\<exists>n wire crc f. write_with (\<lambda>t v. None) (replicate 250 7) 0x20 [UInt16, Int16] (replicate 256 0) 256 300 [Int32, Int32] [VInt 65537, VInt (- 40)]
      = Some ((Frame_Ok, n), wire) \<and>
    n \<le> kMaxPacket \<and> decode_region wire (n - 1) Frame_init = Some ((Frame_Ok, crc), f) \<and> ftype f = MT_Stream \<and>
    dispatch_stream_array [stream_of (\<lambda>t v. None) 0x20 [UInt16, Int16] [ByValue UInt8, LvalueRef True Int32, RvalueRef UInt64] (#)] f (Some [])
      = Some (True, Some [[VU8 44, VInt 1, VU64 18446744073709551576]]) \<and>
    typed [UInt8, Int32, UInt64] [VU8 44, VInt 1, VU64 18446744073709551576]"
proof -
  let ?ps = "[ByValue UInt8, LvalueRef True Int32, RvalueRef UInt64]"
  have conv: "convert_all (\<lambda>t v. None) [UInt16, Int16] [Int32, Int32] [VInt 65537, VInt (- 40)] = Some [VU16 1, VInt (- 40)]"
    "convert_all (\<lambda>t v. None) (map decay ?ps) [UInt32, UInt16, Int16] [VU32 300, VU16 1, VInt (- 40)]
      = Some [VU8 44, VInt 1, VU64 18446744073709551576]" by code_simp+
  have comp: "write_compiles [UInt16, Int16] [Int32, Int32]" "stream_compiles ?ps [UInt16, Int16]"
    using example_compiles(2)
    by (simp_all add: write_compiles_def stream_compiles_def stream_invocable_def converts_def integer_def integral_def)
  have "canon (tuple_spec [UInt16, Int16]) [VU16 1, VInt (- 40)] = [VU16 1, VInt (- 40)]"
    by (rule canon_ints) (simp_all add: integer_def integral_def int_ok_def)
  with conv(2) have "convert_all (\<lambda>t v. None) (map decay ?ps) [UInt32, UInt16, Int16]
      (VU32 300 # canon (tuple_spec [UInt16, Int16]) [VU16 1, VInt (- 40)]) = Some [VU8 44, VInt 1, VU64 18446744073709551576]"
    by simp
  note ys = this
  have "typed [UInt8, Int32, UInt64] [VU8 44, VInt 1, VU64 18446744073709551576] = typed (map decay ?ps) [VU8 44, VInt 1, VU64 18446744073709551576]"
    by simp
  then show ?thesis
    using converted_stream_delivery [where ps = ?ps and us = "[Int32, Int32]" and vs = "[VInt 65537, VInt (- 40)]" and op = "0x20" and cap = 256 and ?f0.0 = Frame_init
        and ?payload0.0 = "replicate 250 7" and out = "replicate 256 0" and fn = "(#)" and h = "[]"
        and table = "[stream_of (\<lambda>t v. None) 0x20 [UInt16, Int16] ?ps (#)]", OF comp _ _ conv(1) ys _ _ _ frame_wf_init]
    by (simp del: decay.simps add: fp_typed_def int_ok_def kMaxPayload_def kMaxPacket_def stream_of_def stream_def StreamDef_of_def)
qed

end
