(* ===== verification/Threads.thy ===== *)
theory Threads
  imports Reentrant
begin

text \<open>
  Several Python threads on one \<open>Device\<close>. The command methods of \<open>src/bindings/eup_pybind.hpp\<close>
  release the interpreter lock (\<open>add_command\<close>), \<open>send_command\<close>, \<open>await_reply\<close> and \<open>poll\<close> hold it; a
  thread that holds it gives way where Python code runs: in the transport's \<open>read\<close> and \<open>write\<close> and in
  a callback. Nothing else locks the \<open>Device\<close>. A method is here a sequence of steps from one such
  point to the next, and what a thread is at is its \<open>phase\<close>. A \<open>write\<close>, a \<open>read\<close> and a callback
  take effect in one step, and the result of a \<open>read\<close> is put to use in a later one. An exception in
  a command ends the program (\<open>call\<close> is \<open>noexcept\<close>).
\<close>

section \<open>The code, from one switch of threads to the next\<close>

text \<open>\<open>dispatch_stream\<close> up to the call of the callback.\<close>

definition stream_target ::
  "'o registry \<Rightarrow> Frame \<Rightarrow> ('io, 'w, 'cb) PyDevice \<Rightarrow> (PyError + ('cb \<times> 'o py_args) option) option" where
  "stream_target reg f dev =
     (if unat (flength f) < 1 then Some (Inr None)
      else do {
        opc \<leftarrow> mem_read (payload f) 0;
        case reg opc of
          None \<Rightarrow> Some (Inr None)
        | Some entry \<Rightarrow>
            (case callbacks dev (sd_name entry) of
               None \<Rightarrow> Some (Inr None)
             | Some cb \<Rightarrow> do {
                 args \<leftarrow> sd_decode entry f;
                 Some (map_sum id (\<lambda>args. Some (cb, args)) args)
               })
      })"

text \<open>A command: \<open>Sending\<close> and \<open>Reading\<close> are inside \<open>write\<close> and \<open>read\<close>, \<open>Unlocked\<close> is between
  \<open>send_command\<close> and \<open>await_reply\<close>, \<open>Received\<close> after \<open>read\<close>, \<open>Notifying\<close> inside a callback. A poll
  carries the bytes it has taken out of the object, and the number of streams delivered. C++ does not say
  which operand of \<open>pending_.substr(pending_pos_) + read_chunk(maxBytes)\<close> is evaluated first: a poll begins as
  \<open>Polling\<close> where it is the copy and as \<open>PollReadFirst\<close> where it is the read. \<open>on\<close> is one step.\<close>

datatype ('cb, 'o) phase =
    Sending buf nat
  | Unlocked
  | Reading
  | Received "PyError + buf"
  | Notifying 'cb "'o py_args"
  | Replied Frame
  | NoReply
  | Polling int
  | PollReading int "byte list"
  | PollReceived "byte list" "PyError + buf"
  | PollReadFirst int
  | PollReadDone "PyError + buf"
  | PollNotifying 'cb "'o py_args" "byte list" nat
  | Polled nat
  | Registering string 'cb
  | Registered
  | Raised PyError
  | Terminated

fun finished :: "('cb, 'o) phase \<Rightarrow> bool" where
  "finished (Replied f) \<longleftrightarrow> True"
| "finished NoReply \<longleftrightarrow> True"
| "finished (Polled k) \<longleftrightarrow> True"
| "finished Registered \<longleftrightarrow> True"
| "finished (Raised e) \<longleftrightarrow> True"
| "finished Terminated \<longleftrightarrow> True"
| "finished _ \<longleftrightarrow> False"

text \<open>One byte of \<open>await_reply\<close>: \<open>None\<close> when its loop goes on without giving way.\<close>

definition byte_in ::
  "'o registry \<Rightarrow> byte \<Rightarrow> ('io, 'w, 'cb) PyDevice \<Rightarrow> (('cb, 'o) phase option \<times> ('io, 'w, 'cb) PyDevice) option" where
  "byte_in reg b dev =
     do {
       (ev, rdr) \<leftarrow> push (reader dev) b;
       let dev = dev\<lparr>reader := rdr\<rparr>;
       if ev \<noteq> FrameReady then Some (None, dev)
       else if ftype (frame rdr) = MT_Reply then Some (Some (Replied (frame rdr)), dev)
       else if ftype (frame rdr) = MT_Stream then do {
         tgt \<leftarrow> stream_target reg (frame rdr) dev;
         Some (case tgt of
             Inl e \<Rightarrow> Some Terminated
           | Inr None \<Rightarrow> None
           | Inr (Some (cb, args)) \<Rightarrow> Some (Notifying cb args), dev)
       }
       else Some (None, dev)
     }"

lemma byte_in_keeps:
  assumes "byte_in reg b dev = Some (q, dev')"
  shows "io dev' = io dev \<and> world dev' = world dev \<and> callbacks dev' = callbacks dev \<and>
    pending dev' = pending dev \<and> pending_pos dev' = pending_pos dev"
  using assms by (auto simp: byte_in_def Let_def split: bind_splits if_splits)

text \<open>The loop of \<open>await_reply\<close>, until it needs a \<open>read\<close>, calls a callback, or ends.\<close>

function wait :: "'o registry \<Rightarrow> ('io, 'w, 'cb) PyDevice \<Rightarrow> (('cb, 'o) phase \<times> ('io, 'w, 'cb) PyDevice) option" where
  "wait reg dev =
     (if length (pending dev) \<le> pending_pos dev then Some (Reading, dev)
      else do {
        b \<leftarrow> mem_read (pending dev) (pending_pos dev);
        (q, dev') \<leftarrow> byte_in reg b (dev\<lparr>pending_pos := pending_pos dev + 1\<rparr>);
        case q of None \<Rightarrow> wait reg dev' | Some p \<Rightarrow> Some (p, dev')
      })"
  by pat_completeness auto
termination
  by (relation "measure (\<lambda>(reg, dev). length (pending dev) - pending_pos dev)") (auto dest!: byte_in_keeps)

declare wait.simps [simp del]

text \<open>The loop of \<open>poll\<close>.\<close>

fun poll_bytes ::
  "'o registry \<Rightarrow> byte list \<Rightarrow> nat \<Rightarrow> ('io, 'w, 'cb) PyDevice \<Rightarrow> (('cb, 'o) phase \<times> ('io, 'w, 'cb) PyDevice) option" where
  "poll_bytes reg [] k dev = Some (Polled k, dev)"
| "poll_bytes reg (b # s) k dev =
     do {
       (ev, rdr) \<leftarrow> push (reader dev) b;
       let dev = dev\<lparr>reader := rdr\<rparr>;
       if ev = FrameReady \<and> ftype (frame rdr) = MT_Stream then do {
         tgt \<leftarrow> stream_target reg (frame rdr) dev;
         case tgt of
           Inl e \<Rightarrow> Some (Raised e, dev)
         | Inr None \<Rightarrow> poll_bytes reg s k dev
         | Inr (Some (cb, args)) \<Rightarrow> Some (PollNotifying cb args s k, dev)
       } else poll_bytes reg s k dev
     }"

text \<open>One step of a thread.\<close>

fun thread_step ::
  "'io py_write \<Rightarrow> 'io py_read \<Rightarrow> ('io, 'w, 'cb, 'o) py_callback \<Rightarrow> 'o registry \<Rightarrow>
   ('cb, 'o) phase \<Rightarrow> ('io, 'w, 'cb) PyDevice \<Rightarrow> (('cb, 'o) phase \<times> ('io, 'w, 'cb) PyDevice) option" where
  "thread_step wr rd cl reg (Sending wire len) dev =
     (case dev_send_command wr wire len dev of (Inl e, dev) \<Rightarrow> Some (Terminated, dev) | (Inr _, dev) \<Rightarrow> Some (Unlocked, dev))"
| "thread_step wr rd cl reg Unlocked dev = wait reg dev"
| "thread_step wr rd cl reg Reading dev = (case read_chunk rd 256 dev of (r, dev) \<Rightarrow> Some (Received r, dev))"
| "thread_step wr rd cl reg (Received (Inl e)) dev = Some (Terminated, dev)"
| "thread_step wr rd cl reg (Received (Inr bs)) dev =
     (let dev = dev\<lparr>pending := bs, pending_pos := 0\<rparr> in if bs = [] then Some (NoReply, dev) else wait reg dev)"
| "thread_step wr rd cl reg (Notifying cb args) dev =
     do {
       (r, dev) \<leftarrow> cl cb args dev;
       case r of Inl e \<Rightarrow> Some (Terminated, dev) | Inr _ \<Rightarrow> wait reg dev
     }"
| "thread_step wr rd cl reg (Polling n) dev =
     (if length (pending dev) < pending_pos dev then Some (Raised PyException, dev)
      else Some (PollReading n (drop (pending_pos dev) (pending dev)), dev))"
| "thread_step wr rd cl reg (PollReading n c) dev = (case read_chunk rd n dev of (r, dev) \<Rightarrow> Some (PollReceived c r, dev))"
| "thread_step wr rd cl reg (PollReceived c (Inl e)) dev = Some (Raised e, dev)"
| "thread_step wr rd cl reg (PollReceived c (Inr bs)) dev = poll_bytes reg (c @ bs) 0 (dev\<lparr>pending := [], pending_pos := 0\<rparr>)"
| "thread_step wr rd cl reg (PollNotifying cb args s k) dev =
     do {
       (r, dev) \<leftarrow> cl cb args dev;
       case r of Inl e \<Rightarrow> Some (Raised e, dev) | Inr _ \<Rightarrow> poll_bytes reg s (k + 1) dev
     }"
| "thread_step wr rd cl reg (Registering name cb) dev = Some (Registered, on name cb dev)"
| "thread_step wr rd cl reg (PollReadFirst n) dev = (case read_chunk rd n dev of (r, dev) \<Rightarrow> Some (PollReadDone r, dev))"
| "thread_step wr rd cl reg (PollReadDone (Inl e)) dev = Some (Raised e, dev)"
| "thread_step wr rd cl reg (PollReadDone (Inr bs)) dev =
     (if length (pending dev) < pending_pos dev then Some (Raised PyException, dev)
      else poll_bytes reg (drop (pending_pos dev) (pending dev) @ bs) 0 (dev\<lparr>pending := [], pending_pos := 0\<rparr>))"
| "thread_step wr rd cl reg p dev = Some (p, dev)"

text \<open>The threads of the program, and a schedule of their steps and of what happens on the line
  meanwhile. After \<open>std::terminate\<close> nothing runs.\<close>

type_synonym ('io, 'w, 'cb, 'o) program = "('cb, 'o) phase list \<times> ('io, 'w, 'cb) PyDevice"

datatype 'io event = Run nat | Line "'io \<Rightarrow> 'io"

fun program_event ::
  "'io py_write \<Rightarrow> 'io py_read \<Rightarrow> ('io, 'w, 'cb, 'o) py_callback \<Rightarrow> 'o registry \<Rightarrow> 'io event \<Rightarrow>
   ('io, 'w, 'cb, 'o) program \<Rightarrow> ('io, 'w, 'cb, 'o) program option" where
  "program_event wr rd cl reg (Run i) (ps, dev) =
     (if i < length ps \<and> Terminated \<notin> set ps then do {
        (p, dev) \<leftarrow> thread_step wr rd cl reg (ps ! i) dev;
        Some (ps[i := p], dev)
      } else Some (ps, dev))"
| "program_event wr rd cl reg (Line g) (ps, dev) = Some (ps, dev\<lparr>io := g (io dev)\<rparr>)"

fun run_program ::
  "'io py_write \<Rightarrow> 'io py_read \<Rightarrow> ('io, 'w, 'cb, 'o) py_callback \<Rightarrow> 'o registry \<Rightarrow> 'io event list \<Rightarrow>
   ('io, 'w, 'cb, 'o) program \<Rightarrow> ('io, 'w, 'cb, 'o) program option" where
  "run_program wr rd cl reg [] s = Some s"
| "run_program wr rd cl reg (e # es) s = do { s \<leftarrow> program_event wr rd cl reg e s; run_program wr rd cl reg es s }"

text \<open>A command as a thread: the request is built without the lock, and so is the result.\<close>

definition call_thread :: "buf \<Rightarrow> buf \<Rightarrow> ('a, 'r) CommandDef \<Rightarrow> 'a \<Rightarrow> ('cb, 'o) phase option" where
  "call_thread payload0 wire0 d a =
     do {
       ((enc, wlen), wire) \<leftarrow> call_request payload0 wire0 d a;
       Some (if enc \<noteq> Frame_Ok then NoReply else Sending wire wlen)
     }"

definition call_returns :: "('a, 'r) CommandDef \<Rightarrow> ('cb, 'o) phase \<Rightarrow> (StatusCode \<times> 'r) option" where
  "call_returns d p =
     (let out = (SC_Ok, tuple_init (RetsTuple d)) in
      case p of
        Replied reply \<Rightarrow>
          if ftype reply \<noteq> MT_Reply \<or> unat (flength reply) < 1 then Some (SC_TransportError, snd out) else call_reply d reply out
      | NoReply \<Rightarrow> Some (SC_TransportError, snd out)
      | _ \<Rightarrow> None)"

section \<open>Any interleaving is safe\<close>

text \<open>A callback that returns, or raises, with the device in order.\<close>

definition steady :: "('io, 'w, 'cb, 'o) py_callback \<Rightarrow> bool" where
  "steady cl \<longleftrightarrow> (\<forall>cb args dev. host_ok dev \<longrightarrow> (\<exists>r dev'. cl cb args dev = Some (r, dev') \<and> host_ok dev'))"

lemma steadyE:
  assumes "steady cl" "host_ok dev"
  obtains r dev' where "cl cb args dev = Some (r, dev')" "host_ok dev'"
  using assms unfolding steady_def by blast

lemma plain_steady: "steady (plain cl)"
  by (auto simp: steady_def plain_def host_ok_def split: prod.splits)

lemma run_program_append:
  "run_program wr rd cl reg (es @ fs) s = run_program wr rd cl reg es s \<bind> run_program wr rd cl reg fs"
  by (induction es arbitrary: s) (auto intro!: Option.bind_cong)

context stream_registry
begin

lemma target_recipient:
  assumes "frame_wf f"
  shows "stream_target reg f dev = Some (case recipient rs (callbacks dev) (frame_data f) of
    None \<Rightarrow> Inr None | Some y \<Rightarrow> map_sum id Some y)"
proof (cases "unat (flength f)")
  case 0
  then show ?thesis by (simp add: stream_target_def frame_data_def recipient_def)
next
  case (Suc k)
  have "length (payload f) = 250" using assms by (simp add: frame_wf_def kMaxPayload_def)
  then obtain opc pl where pl: "payload f = opc # pl" by (cases "payload f") auto
  have data: "frame_data f = opc # take k pl" using Suc pl by (simp add: frame_data_def)
  show ?thesis
  proof (cases "reg opc")
    case None
    then have "rs opc = None" using registered [of opc] by simp
    then show ?thesis using None Suc pl data by (simp add: stream_target_def recipient_def mem_read_def)
  next
    case (Some e)
    then obtain dec where "rs opc = Some (sd_name e, dec)" "decodes e dec"
      using registered [of opc] by (cases "rs opc") auto
    moreover from this have "sd_decode e f = Some (dec (frame_data f))"
      using assms data by (simp add: decodes_def)
    ultimately show ?thesis using Some Suc pl data
      by (auto simp: stream_target_def recipient_def mem_read_def sum.map_comp o_def id_def split: option.splits sum.splits)
  qed
qed

lemma byte_in_ok:
  assumes "host_ok dev"
  shows "\<exists>q dev'. byte_in reg b dev = Some (q, dev') \<and> host_ok dev'"
proof -
  obtain ev r where p: "push (reader dev) b = Some (ev, r)" "reader_ok r" "ev = FrameReady \<longrightarrow> frame_wf (frame r)"
    using push_ready assms unfolding host_ok_def by blast
  then show ?thesis using assms target_recipient [of "frame r" "dev\<lparr>reader := r\<rparr>"] by (auto simp: byte_in_def Let_def host_ok_def)
qed

lemma wait_ok: "host_ok dev \<Longrightarrow> \<exists>p dev'. wait reg dev = Some (p, dev') \<and> host_ok dev'"
proof (induction "length (pending dev) - pending_pos dev" arbitrary: dev rule: less_induct)
  case less
  show ?case
  proof (cases "length (pending dev) \<le> pending_pos dev")
    case True
    then show ?thesis using less.prems by (subst wait.simps) simp
  next
    case False
    let ?d = "dev\<lparr>pending_pos := pending_pos dev + 1\<rparr>" and ?b = "pending dev ! pending_pos dev"
    have "host_ok ?d" using less.prems False by (simp add: host_ok_def)
    then obtain q d1 where b: "byte_in reg ?b ?d = Some (q, d1)" "host_ok d1" using byte_in_ok by blast
    then have "\<exists>p dev'. wait reg d1 = Some (p, dev') \<and> host_ok dev'"
      using less.hyps [of d1] byte_in_keeps [OF b(1)] False by simp
    then show ?thesis using b False by (subst wait.simps) (auto simp: mem_read_def split: option.splits)
  qed
qed

lemma poll_bytes_ok: "host_ok dev \<Longrightarrow> \<exists>p dev'. poll_bytes reg s k dev = Some (p, dev') \<and> host_ok dev'"
proof (induction s arbitrary: dev)
  case (Cons b s)
  obtain ev r where p: "push (reader dev) b = Some (ev, r)" "reader_ok r" "ev = FrameReady \<longrightarrow> frame_wf (frame r)"
    using push_ready Cons.prems unfolding host_ok_def by blast
  then have d: "host_ok (dev\<lparr>reader := r\<rparr>)" using Cons.prems by (simp add: host_ok_def)
  show ?case using p Cons.IH [OF d] d target_recipient [of "frame r" "dev\<lparr>reader := r\<rparr>"] by (auto simp: Let_def split: option.splits sum.splits)
qed simp

lemma thread_step_ok:
  assumes "host_ok dev" "steady cl"
  shows "\<exists>p' dev'. thread_step wr rd cl reg p dev = Some (p', dev') \<and> host_ok dev'"
proof (cases "(wr, rd, cl, reg, p, dev)" rule: thread_step.cases)
  case (6 wr rd cl reg cb args d)
  then obtain r d' where "cl cb args d = Some (r, d')" "host_ok d'" using steadyE [OF assms(2,1)] by blast
  then show ?thesis using 6 wait_ok [of d'] by (cases r) auto
next
  case (11 wr rd cl reg cb args s k d)
  then obtain r d' where "cl cb args d = Some (r, d')" "host_ok d'" using steadyE [OF assms(2,1)] by blast
  then show ?thesis using 11 poll_bytes_ok [of d' s "k + 1"] by (cases r) auto
qed (use assms(1) wait_ok [of dev] wait_ok [of "dev\<lparr>pending := bs, pending_pos := 0\<rparr>" for bs]
      poll_bytes_ok [of "dev\<lparr>pending := [], pending_pos := 0\<rparr>"]
    in \<open>auto simp: dev_send_command_def read_chunk_def on_def host_ok_def Let_def split: prod.splits sum.splits option.splits\<close>)

lemma program_event_ok:
  assumes "host_ok dev" "steady cl"
  shows "\<exists>ps' dev'. program_event wr rd cl reg e (ps, dev) = Some (ps', dev') \<and> host_ok dev' \<and> length ps' = length ps"
proof (cases e)
  case (Run i)
  obtain p dev' where "thread_step wr rd cl reg (ps ! i) dev = Some (p, dev')" "host_ok dev'"
    using thread_step_ok [OF assms] by blast
  then show ?thesis using Run assms(1) by auto
qed (use assms(1) in \<open>simp add: host_ok_def\<close>)

lemma run_program_ok:
  assumes "host_ok dev" "steady cl"
  shows "\<exists>ps' dev'. run_program wr rd cl reg es (ps, dev) = Some (ps', dev') \<and> host_ok dev' \<and> length ps' = length ps"
  using assms(1)
proof (induction es arbitrary: ps dev)
  case (Cons e es)
  obtain ps1 d1 where e: "program_event wr rd cl reg e (ps, dev) = Some (ps1, d1)" "host_ok d1" "length ps1 = length ps"
    using program_event_ok [OF Cons.prems assms(2)] by blast
  then show ?case using Cons.IH [OF e(2), of ps1] by auto
qed simp

end

section \<open>A thread that is left alone\<close>

inductive alone ::
  "'io py_write \<Rightarrow> 'io py_read \<Rightarrow> ('io, 'w, 'cb, 'o) py_callback \<Rightarrow> 'o registry \<Rightarrow>
   ('cb, 'o) phase \<Rightarrow> ('io, 'w, 'cb) PyDevice \<Rightarrow> ('cb, 'o) phase \<Rightarrow> ('io, 'w, 'cb) PyDevice \<Rightarrow> bool"
  for wr rd cl reg where
  alone_done: "finished p \<Longrightarrow> alone wr rd cl reg p dev p dev"
| alone_step: "\<lbrakk>\<not> finished p; thread_step wr rd cl reg p dev = Some (p1, dev1); alone wr rd cl reg p1 dev1 p' dev'\<rbrakk> \<Longrightarrow>
    alone wr rd cl reg p dev p' dev'"

inductive_simps alone_finished [simp]:
  "alone wr rd cl reg (Replied f) dev p' dev'" "alone wr rd cl reg NoReply dev p' dev'" "alone wr rd cl reg (Polled k) dev p' dev'"
  "alone wr rd cl reg (Raised e) dev p' dev'" "alone wr rd cl reg Terminated dev p' dev'"

lemma alone_stepI:
  "\<lbrakk>thread_step wr rd cl reg p dev = Some (p1, dev1); \<not> finished p; alone wr rd cl reg p1 dev1 p' dev'\<rbrakk> \<Longrightarrow>
    alone wr rd cl reg p dev p' dev'"
  by (rule alone_step)

inductive_cases aloneE: "alone wr rd cl reg p dev q d"

lemma alone_unique: "\<lbrakk>alone wr rd cl reg p dev q d; alone wr rd cl reg p dev q' d'\<rbrakk> \<Longrightarrow> q' = q \<and> d' = d"
proof (induction arbitrary: q' d' rule: alone.induct)
  case (alone_done p dev)
  from alone_done(2) show ?case by (rule aloneE) (use alone_done(1) in auto)
next
  case (alone_step p dev p1 dev1 p' dev')
  from alone_step.prems show ?case
  proof (rule aloneE)
    fix p2 dev2 assume "thread_step wr rd cl reg p dev = Some (p2, dev2)" "alone wr rd cl reg p2 dev2 q' d'"
    then show ?case using alone_step.IH alone_step.hyps(2) by simp
  qed (use alone_step.hyps(1) in simp)
qed

text \<open>What the rest of a command does, in the terms of the sequential definitions; an exception is \<open>None\<close>.\<close>

definition awaits ::
  "'io py_read \<Rightarrow> ('io, 'w, 'cb, 'o) py_callback \<Rightarrow> 'o registry \<Rightarrow> ('io, 'w, 'cb) PyDevice \<Rightarrow>
   (Frame option \<times> ('io, 'w, 'cb) PyDevice) option" where
  "awaits rd cl reg dev = do { (r, dev) \<leftarrow> await_loop rd cl reg dev; case r of Inl e \<Rightarrow> None | Inr q \<Rightarrow> Some (q, dev) }"

definition take_read ::
  "'io py_read \<Rightarrow> ('io, 'w, 'cb, 'o) py_callback \<Rightarrow> 'o registry \<Rightarrow> PyError + buf \<Rightarrow>
   ('io, 'w, 'cb) PyDevice \<Rightarrow> (Frame option \<times> ('io, 'w, 'cb) PyDevice) option" where
  "take_read rd cl reg r dev =
     (case r of Inl e \<Rightarrow> None
      | Inr bs \<Rightarrow> let dev = dev\<lparr>pending := bs, pending_pos := 0\<rparr> in if bs = [] then Some (None, dev) else awaits rd cl reg dev)"

fun resume ::
  "'io py_read \<Rightarrow> ('io, 'w, 'cb, 'o) py_callback \<Rightarrow> 'o registry \<Rightarrow> ('cb, 'o) phase \<Rightarrow>
   ('io, 'w, 'cb) PyDevice \<Rightarrow> (Frame option \<times> ('io, 'w, 'cb) PyDevice) option" where
  "resume rd cl reg Unlocked dev = awaits rd cl reg dev"
| "resume rd cl reg Reading dev = (case read_chunk rd 256 dev of (r, dev) \<Rightarrow> take_read rd cl reg r dev)"
| "resume rd cl reg (Received r) dev = take_read rd cl reg r dev"
| "resume rd cl reg (Notifying cb args) dev =
     do { (r, dev) \<leftarrow> cl cb args dev; case r of Inl e \<Rightarrow> None | Inr _ \<Rightarrow> awaits rd cl reg dev }"
| "resume rd cl reg (Replied f) dev = Some (Some f, dev)"
| "resume rd cl reg NoReply dev = Some (None, dev)"
| "resume rd cl reg _ dev = None"

definition outcome :: "Frame option \<Rightarrow> ('cb, 'o) phase" where
  "outcome q = (case q of None \<Rightarrow> NoReply | Some f \<Rightarrow> Replied f)"

lemma dispatch_target:
  "dev_dispatch_stream cl reg f dev = stream_target reg f dev \<bind> (\<lambda>tgt. case tgt of
     Inl e \<Rightarrow> Some (Inl e, dev)
   | Inr None \<Rightarrow> Some (Inr False, dev)
   | Inr (Some (cb, args)) \<Rightarrow> cl cb args dev \<bind> (\<lambda>(res, dev). case res of Inl e \<Rightarrow> Some (Inl e, dev) | Inr _ \<Rightarrow> Some (Inr True, dev)))"
  by (auto simp: dev_dispatch_stream_def stream_target_def intro!: Option.bind_cong split: option.splits sum.splits)

lemma awaits_byte:
  assumes "next_byte rd dev = Some (Inr (Some b), d)"
  shows "awaits rd cl reg dev = byte_in reg b d \<bind> (\<lambda>(q, d). case q of None \<Rightarrow> awaits rd cl reg d | Some p \<Rightarrow> resume rd cl reg p d)"
  unfolding awaits_def await_loop_byte [OF assms] await_byte_def byte_in_def dispatch_target
  by (auto simp: Let_def awaits_def intro!: Option.bind_cong split: option.splits sum.splits prod.splits)


lemma awaits_dry:
  "length (pending dev) \<le> pending_pos dev \<Longrightarrow> awaits rd cl reg dev = resume rd cl reg Reading dev"
proof -
  assume dry: "length (pending dev) \<le> pending_pos dev"
  obtain r dev1 where r: "read_chunk rd 256 dev = (r, dev1)" by force
  consider e where "r = Inl e" | "r = Inr []" | b bs where "r = Inr (b # bs)" by (metis sum.exhaust neq_Nil_conv)
  then show ?thesis
  proof cases
    case (3 b bs)
    have "next_byte rd dev = next_byte rd (dev1\<lparr>pending := b # bs, pending_pos := 0\<rparr>)"
      using dry r 3 by (simp add: next_byte_def Let_def)
    then have "await_loop rd cl reg dev = await_loop rd cl reg (dev1\<lparr>pending := b # bs, pending_pos := 0\<rparr>)"
      by (subst (1 2) await_loop.simps) simp
    then show ?thesis using r 3 by (simp add: take_read_def awaits_def Let_def)
  qed (use dry r in \<open>simp add: awaits_def take_read_def, subst await_loop.simps, simp add: next_byte_def Let_def\<close>)+
qed

lemma next_byte_pending:
  assumes "\<not> length (pending dev) \<le> pending_pos dev" "mem_read (pending dev) (pending_pos dev) = Some b"
  shows "next_byte rd dev = Some (Inr (Some b), dev\<lparr>pending_pos := pending_pos dev + 1\<rparr>)"
  using assms by (simp add: next_byte_def take_byte_def)

lemma awaits_wait: "awaits rd cl reg dev = wait reg dev \<bind> (\<lambda>(p, d). resume rd cl reg p d)"
proof (induction reg dev rule: wait.induct)
  case (1 reg dev)
  show ?case
  proof (cases "length (pending dev) \<le> pending_pos dev")
    case True
    then show ?thesis by (subst wait.simps) (simp add: awaits_dry)
  next
    case False
    obtain b where b: "mem_read (pending dev) (pending_pos dev) = Some b" using False by (auto simp: mem_read_def)
    show ?thesis
    proof (cases "byte_in reg b (dev\<lparr>pending_pos := pending_pos dev + 1\<rparr>)")
      case None
      then show ?thesis using False b awaits_byte [OF next_byte_pending [OF False b, of rd], of cl reg] by (subst wait.simps) simp
    next
      case (Some y)
      then show ?thesis using False b 1 [OF False b, of y "fst y" "snd y"] awaits_byte [OF next_byte_pending [OF False b, of rd], of cl reg]
        by (subst wait.simps) (auto split: option.splits prod.splits)
    qed
  qed
qed

lemma resume_poll_bytes: "poll_bytes reg s k dev = Some (p, d) \<Longrightarrow> resume rd cl reg p d = None"
  by (induction s arbitrary: dev) (auto simp: Let_def split: bind_splits if_splits sum.splits option.splits)

text \<open>The steps of a thread keep what is left to do.\<close>

lemma resume_step:
  assumes "thread_step wr rd cl reg p dev = Some (p', dev')" "\<And>w n. p \<noteq> Sending w n"
  shows "resume rd cl reg p dev = resume rd cl reg p' dev'"
  using assms(1)
proof (cases "(wr, rd, cl, reg, p, dev)" rule: thread_step.cases)
  case (10 wr rd cl reg c bs d)
  then show ?thesis using assms(1) resume_poll_bytes [of reg "c @ bs" 0 _ p' dev' rd cl] by auto
next
  case (11 wr rd cl reg cb args s k d)
  then show ?thesis using assms(1) resume_poll_bytes [of reg s "k + 1" _ p' dev' rd cl] by (auto split: bind_splits sum.splits)
next
  case (15 wr rd cl reg bs d)
  then show ?thesis using assms(1) resume_poll_bytes [of reg "drop (pending_pos d) (pending d) @ bs" 0 _ p' dev' rd cl]
    by (auto split: if_splits)
qed (use assms in \<open>auto simp: awaits_wait take_read_def Let_def split: bind_splits prod.splits sum.splits if_splits\<close>)

lemma byte_in_phase:
  "byte_in reg b dev = Some (Some p, d) \<Longrightarrow> finished p \<or> (\<exists>cb args. p = Notifying cb args)"
  by (auto simp: byte_in_def Let_def split: bind_splits if_splits sum.splits option.splits)

lemma wait_phase: "wait reg dev = Some (p, d) \<Longrightarrow> finished p \<or> p = Reading \<or> (\<exists>cb args. p = Notifying cb args)"
proof (induction reg dev rule: wait.induct)
  case (1 reg dev)
  show ?case
  proof (cases "length (pending dev) \<le> pending_pos dev")
    case True
    then show ?thesis using 1(2) by (subst (asm) wait.simps) simp
  next
    case False
    then obtain b r d1 where b: "mem_read (pending dev) (pending_pos dev) = Some b"
        "byte_in reg b (dev\<lparr>pending_pos := pending_pos dev + 1\<rparr>) = Some (r, d1)"
        "(case r of None \<Rightarrow> wait reg d1 | Some p \<Rightarrow> Some (p, d1)) = Some (p, d)"
      using 1(2) by (subst (asm) wait.simps) (auto split: bind_splits)
    show ?thesis
    proof (cases r)
      case None
      then show ?thesis using 1(1) [OF False b(1,2) refl None] b(3) by simp
    qed (use b byte_in_phase [of reg b _ p d] in auto)
  qed
qed

lemma poll_bytes_phase:
  "poll_bytes reg s k dev = Some (p, d) \<Longrightarrow> finished p \<or> (\<exists>cb args s' k'. p = PollNotifying cb args s' k' \<and> length s' < length s)"
  by (induction s arbitrary: dev) (fastforce simp: Let_def split: bind_splits if_splits sum.splits option.splits)+

lemma step_sends: "thread_step wr rd cl reg p dev = Some (Sending w n, dev') \<Longrightarrow> p = Sending w n"
  by (cases "(wr, rd, cl, reg, p, dev)" rule: thread_step.cases)
     (auto simp: Let_def dest!: wait_phase poll_bytes_phase split: bind_splits prod.splits sum.splits if_splits)

lemma alone_resumes:
  "alone wr rd cl reg p dev q d \<Longrightarrow> (\<And>w n. p \<noteq> Sending w n) \<Longrightarrow> resume rd cl reg p dev = resume rd cl reg q d"
proof (induction rule: alone.induct)
  case (alone_step p dev p1 dev1 p' dev')
  have "p1 \<noteq> Sending w n" for w n using step_sends alone_step.hyps(2) alone_step.prems by blast
  then show ?case using resume_step [OF alone_step.hyps(2) alone_step.prems] alone_step.IH by simp
qed simp

lemma alone_unlocked:
  "alone wr rd cl reg Unlocked dev q d \<longleftrightarrow> (\<exists>p d1. wait reg dev = Some (p, d1) \<and> alone wr rd cl reg p d1 q d)"
proof
  assume "alone wr rd cl reg Unlocked dev q d"
  then show "\<exists>p d1. wait reg dev = Some (p, d1) \<and> alone wr rd cl reg p d1 q d" by (rule aloneE) auto
qed (auto intro: alone_stepI)

lemma alone_byte:
  assumes "next_byte rd dev = Some (Inr (Some b), dev1)" "byte_in reg b dev1 = Some (r, dev2)"
    and "case r of None \<Rightarrow> alone wr rd cl reg Unlocked dev2 q d | Some p \<Rightarrow> alone wr rd cl reg p dev2 q d"
  shows "alone wr rd cl reg Unlocked dev q d"
proof -
  have take: "\<exists>p d1. wait reg dev0 = Some (p, d1) \<and> alone wr rd cl reg p d1 q d"
    if "\<not> length (pending dev0) \<le> pending_pos dev0" "take_byte dev0 = Some (Inr (Some b), dev1)" for dev0
    using that assms(2,3) by (subst wait.simps) (auto simp: take_byte_def alone_unlocked split: bind_splits option.splits)
  show ?thesis
  proof (cases "length (pending dev) \<le> pending_pos dev")
    case False
    then show ?thesis using take [OF False] assms(1) by (simp add: alone_unlocked next_byte_def)
  next
    case True
    obtain r dev0 where r: "read_chunk rd 256 dev = (r, dev0)" by force
    then obtain bs where bs: "r = Inr bs" "bs \<noteq> []" "take_byte (dev0\<lparr>pending := bs, pending_pos := 0\<rparr>) = Some (Inr (Some b), dev1)"
      using True assms(1) by (auto simp: next_byte_def Let_def split: sum.splits if_splits)
    have "alone wr rd cl reg (Received (Inr bs)) dev0 q d"
      using take [of "dev0\<lparr>pending := bs, pending_pos := 0\<rparr>"] bs by (auto simp: Let_def intro: alone_stepI)
    then have "alone wr rd cl reg Reading dev q d" using r bs(1) by (auto intro: alone_stepI)
    moreover have "wait reg dev = Some (Reading, dev)" using True by (subst wait.simps) simp
    ultimately show ?thesis by (simp add: alone_unlocked)
  qed
qed

lemma await_byte_in:
  assumes "await_byte cl reg b dev = Some (Inr y, dev')"
  shows "(byte_in reg b dev = Some (None, dev') \<and> y = None) \<or>
    (\<exists>f. byte_in reg b dev = Some (Some (Replied f), dev') \<and> y = Some f) \<or>
    (\<exists>cb args dev1. byte_in reg b dev = Some (Some (Notifying cb args), dev1) \<and> cl cb args dev1 = Some (Inr (), dev') \<and> y = None)"
  using assms
  by (auto simp: await_byte_def byte_in_def dispatch_target Let_def split: bind_splits if_splits sum.splits option.splits)

lemma alone_dry:
  assumes "next_byte rd dev = Some (Inr None, d)"
  shows "alone wr rd cl reg Unlocked dev NoReply d"
proof -
  obtain r dev0 where r: "read_chunk rd 256 dev = (r, dev0)" by force
  then have "length (pending dev) \<le> pending_pos dev" "r = Inr []" "d = dev0\<lparr>pending := [], pending_pos := 0\<rparr>"
    using assms by (auto simp: next_byte_def take_byte_def Let_def split: sum.splits if_splits bind_splits)
  then have "wait reg dev = Some (Reading, dev)" "thread_step wr rd cl reg Reading dev = Some (Received (Inr []), dev0)"
    "thread_step wr rd cl reg (Received (Inr [])) dev0 = Some (NoReply, d)"
    using r by (simp_all add: wait.simps [of _ dev])
  note steps = this
  have "alone wr rd cl reg Reading dev NoReply d"
    by (rule alone_stepI [OF steps(2) _ alone_stepI [OF steps(3)]]) simp_all
  then show ?thesis using steps(1) by (auto simp: alone_unlocked)
qed

lemma await_loop_alone:
  assumes "await_loop rd cl reg dev = Some res"
  shows "\<forall>x d. res = (Inr x, d) \<longrightarrow> alone wr rd cl reg Unlocked dev (outcome x) d"
proof (rule await_loop.raw_induct [OF _ assms], intro allI impI, unfold await_body)
  fix loop rd cl reg and dev :: "('a, 'b, 'c) PyDevice" and res x d
  assume IH: "\<And>rd cl reg dev res. loop rd cl reg dev = Some res \<Longrightarrow>
      \<forall>x d. res = (Inr x, d) \<longrightarrow> alone wr rd cl reg Unlocked dev (outcome x) d"
    and run: "next_byte rd dev \<bind> (\<lambda>(r, dev). case r of
        Inl e \<Rightarrow> Some (Inl e, dev)
      | Inr None \<Rightarrow> Some (Inr None, dev)
      | Inr (Some b) \<Rightarrow> await_byte cl reg b dev \<bind>
          (\<lambda>(q, dev). case q of Inr None \<Rightarrow> loop rd cl reg dev | _ \<Rightarrow> Some (q, dev))) = Some res"
    and res: "res = (Inr x, d)"
  obtain r d1 where nb: "next_byte rd dev = Some (r, d1)" using run by (cases "next_byte rd dev") auto
  consider e where "r = Inl e" | "r = Inr None" | b where "r = Inr (Some b)" by (metis option.exhaust sum.exhaust)
  then show "alone wr rd cl reg Unlocked dev (outcome x) d"
  proof cases
    case 2
    then show ?thesis using run nb res by (auto simp: outcome_def intro: alone_dry)
  next
    case (3 b)
    note step = alone_byte [OF nb [unfolded 3]]
    obtain y d2 where y: "await_byte cl reg b d1 = Some (Inr y, d2)"
        "(case y of None \<Rightarrow> loop rd cl reg d2 | Some f \<Rightarrow> Some (Inr (Some f), d2)) = Some (Inr x, d)"
      using run nb 3 res by (auto split: bind_splits sum.splits option.splits)
    have rest: "alone wr rd cl reg Unlocked d2 (outcome x) d" if "y = None" using IH y(2) that by auto
    from await_byte_in [OF y(1)] show ?thesis
    proof (elim disjE exE conjE)
      fix f assume f: "byte_in reg b d1 = Some (Some (Replied f), d2)" "y = Some f"
      then have "x = Some f" "d = d2" using y(2) by auto
      then show ?thesis using step [OF f(1)] by (simp add: outcome_def)
    next
      fix cb args dev1 assume *: "byte_in reg b d1 = Some (Some (Notifying cb args), dev1)" "cl cb args dev1 = Some (Inr (), d2)" "y = None"
      then have "alone wr rd cl reg (Notifying cb args) dev1 (outcome x) d"
        using rest by (auto simp: alone_unlocked intro: alone_stepI)
      then show ?thesis using step [OF *(1)] by simp
    next
      assume *: "byte_in reg b d1 = Some (None, d2)" "y = None"
      show ?thesis using step [OF *(1)] rest [OF *(2)] by simp
    qed
  qed (use run nb res in simp)
qed

text \<open>So a thread that is left alone once the command is sent does what \<open>await_reply\<close> does, and one
  that does not end the program is described by it.\<close>

lemma awaits_iff_alone:
  "awaits rd cl reg dev = Some (x, d) \<longleftrightarrow> alone wr rd cl reg Unlocked dev (outcome x) d"
proof
  assume "awaits rd cl reg dev = Some (x, d)"
  then show "alone wr rd cl reg Unlocked dev (outcome x) d"
    using await_loop_alone [of rd cl reg dev] by (auto simp: awaits_def split: bind_splits sum.splits)
next
  assume "alone wr rd cl reg Unlocked dev (outcome x) d"
  from alone_resumes [OF this] show "awaits rd cl reg dev = Some (x, d)"
    by (simp add: outcome_def split: option.splits)
qed

definition polled :: "PyError + nat \<Rightarrow> ('cb, 'o) phase" where
  "polled r = (case r of Inl e \<Rightarrow> Raised e | Inr k \<Rightarrow> Polled k)"

lemma polled_eq [simp]:
  "Raised e = polled r \<longleftrightarrow> r = Inl e" "Polled k = polled r \<longleftrightarrow> r = Inr k"
  "polled r = Raised e \<longleftrightarrow> r = Inl e" "polled r = Polled k \<longleftrightarrow> r = Inr k"
  by (auto simp: polled_def split: sum.splits)

lemma alone_iff_step:
  "\<not> finished p \<Longrightarrow> alone wr rd cl reg p dev q d \<longleftrightarrow>
    (\<exists>p1 d1. thread_step wr rd cl reg p dev = Some (p1, d1) \<and> alone wr rd cl reg p1 d1 q d)"
  by (auto intro: alone_stepI elim: aloneE)

lemma poll_loop_iff_alone:
  "poll_loop cl reg s k dev = Some (r, d) \<longleftrightarrow>
    (\<exists>p d1. poll_bytes reg s k dev = Some (p, d1) \<and> alone wr rd cl reg p d1 (polled r) d)"
proof (induction s arbitrary: k dev)
  case Nil
  show ?case by auto
next
  case (Cons b s)
  show ?case
  proof (cases "push (reader dev) b")
    case (Some y)
    obtain ev r' where y: "y = (ev, r')" by (cases y)
    let ?d = "dev\<lparr>reader := r'\<rparr>"
    show ?thesis
    proof (cases "ev = FrameReady \<and> ftype (frame r') = MT_Stream")
      case True
      show ?thesis
      proof (cases "stream_target reg (frame r') ?d")
        case (Some tgt)
        consider e where "tgt = Inl e" | "tgt = Inr None" | cb args where "tgt = Inr (Some (cb, args))"
          by (metis option.exhaust prod.exhaust sum.exhaust)
        then show ?thesis
        proof cases
          case (3 cb args)
          have "alone wr rd cl reg (PollNotifying cb args s k) ?d (polled r) d \<longleftrightarrow>
              (\<exists>q d1. cl cb args ?d = Some (q, d1) \<and>
                (case q of Inl e \<Rightarrow> r = Inl e \<and> d = d1 | Inr _ \<Rightarrow> poll_loop cl reg s (k + 1) d1 = Some (r, d)))"
            by (auto simp: alone_iff_step Cons.IH split: bind_splits sum.splits)
          then show ?thesis
            using \<open>push (reader dev) b = Some y\<close> y True Some 3 by (auto simp: dispatch_target split: bind_splits sum.splits)
        qed (use \<open>push (reader dev) b = Some y\<close> y True Some Cons.IH in \<open>auto simp: dispatch_target split: sum.splits\<close>)
      qed (use Some y True in \<open>simp add: dispatch_target\<close>)
    qed (use Some y Cons.IH in \<open>auto simp: Let_def\<close>)
  qed simp
qed

lemma poll_iff_alone:
  "poll rd cl reg n dev = Some (r, d) \<longleftrightarrow> alone wr rd cl reg (Polling n) dev (polled r) d"
proof -
  obtain q dev1 where q: "read_chunk rd n dev = (q, dev1)" by force
  show ?thesis
    by (cases q) (auto simp: poll_def q alone_iff_step poll_loop_iff_alone Let_def split: sum.splits)
qed

text \<open>Nobody interferes: then the other order of evaluation makes no difference.\<close>

lemma poll_orders_agree:
  assumes "pending_pos dev \<le> length (pending dev)"
  shows "alone wr rd cl reg (PollReadFirst n) dev (polled r) d \<longleftrightarrow> alone wr rd cl reg (Polling n) dev (polled r) d"
proof -
  obtain q dev1 where q: "read_chunk rd n dev = (q, dev1)" by force
  then have "pending dev1 = pending dev" "pending_pos dev1 = pending_pos dev"
    by (auto simp: read_chunk_def split: prod.splits sum.splits option.splits)
  then show ?thesis using assms q by (cases q) (auto simp: alone_iff_step)
qed

lemma py_awaiter_awaits:
  "py_awaiter rd cl reg out dev = map_option (\<lambda>(x, d). case x of None \<Rightarrow> (False, out, d) | Some f \<Rightarrow> (True, f, d)) (awaits rd cl reg dev)"
  by (cases "await_loop rd cl reg dev")
     (auto simp: py_awaiter_def dev_await_reply_def awaits_def split: sum.splits option.splits)

lemma call_returns_outcome: "call_returns d p = Some out \<Longrightarrow> \<exists>x. p = outcome x"
proof -
  assume "call_returns d p = Some out"
  then have "p = outcome None \<or> (\<exists>f. p = outcome (Some f))"
    by (auto simp: call_returns_def outcome_def Let_def split: phase.splits)
  then show ?thesis by blast
qed

lemma call_thread_iff:
  fixes cl :: "('io, 'w, 'cb, 'o) py_callback"
  assumes "call_request payload0 wire0 d a = Some ((enc, wlen), wire)"
  shows "call payload0 wire0 (py_sender wr) (py_awaiter rd cl reg) d a dev = Some (out, dev') \<longleftrightarrow>
    (\<exists>p0 p. call_thread payload0 wire0 d a = Some p0 \<and> alone wr rd cl reg p0 dev p dev' \<and> call_returns d p = Some out)"
proof (cases "enc = Frame_Ok")
  case False
  then show ?thesis using assms by (auto simp: call_def call_thread_def call_returns_def)
next
  case True
  obtain q dev1 where q: "dev_send_command wr wire wlen dev = (q, dev1)" by force
  show ?thesis
  proof (cases q)
    case (Inl e)
    then show ?thesis using assms True q
      by (auto simp: call_def call_thread_def call_returns_def py_sender_def alone_iff_step)
  next
    case (Inr sent)
    then have sent: "sent = True" using q by (auto simp: dev_send_command_def split: prod.splits sum.splits)
    have "(\<exists>p0 p. call_thread payload0 wire0 d a = Some p0 \<and> alone wr rd cl reg p0 dev p dev' \<and> call_returns d p = Some out) \<longleftrightarrow>
        (\<exists>p. alone wr rd cl reg Unlocked dev1 p dev' \<and> call_returns d p = Some out)"
      using assms True q Inr by (simp add: call_thread_def alone_iff_step [of "Sending wire wlen"])
    also have "\<dots> \<longleftrightarrow> (\<exists>x. awaits rd cl reg dev1 = Some (x, dev') \<and> call_returns d (outcome x :: ('cb, 'o) phase) = Some out)"
      unfolding awaits_iff_alone [where wr = wr] by (rule iffI, elim exE conjE, frule call_returns_outcome) blast+
    also have "\<dots> \<longleftrightarrow> awaits rd cl reg dev1 \<bind> (\<lambda>(x, d1). map_option (\<lambda>r. (r, d1)) (call_returns d (outcome x :: ('cb, 'o) phase))) = Some (out, dev')"
      by (cases out) (auto split: bind_splits)
    also have "awaits rd cl reg dev1 \<bind> (\<lambda>(x, d1). map_option (\<lambda>r. (r, d1)) (call_returns d (outcome x :: ('cb, 'o) phase))) =
        call payload0 wire0 (py_sender wr) (py_awaiter rd cl reg) d a dev"
    proof (cases "awaits rd cl reg dev1")
      case None
      then show ?thesis using assms True q Inr sent by (simp add: call_def py_sender_def py_awaiter_awaits Let_def)
    next
      case (Some y)
      obtain x d1 where y: "y = (x, d1)" by (cases y)
      note run = assms True q Inr sent Some y
      show ?thesis
      proof (cases x)
        case None
        then show ?thesis using run by (simp add: call_def py_sender_def py_awaiter_awaits Let_def call_returns_def outcome_def)
      next
        case (Some f)
        then show ?thesis using run
          by (cases "call_reply d f (SC_Ok, tuple_init (RetsTuple d))")
             (simp_all add: call_def py_sender_def py_awaiter_awaits Let_def call_returns_def outcome_def)
      qed
    qed
    finally show ?thesis by simp
  qed
qed

text \<open>That is one thread of a program on its own.\<close>

lemma finished_stays: "finished p \<Longrightarrow> thread_step wr rd cl reg p dev = Some (p, dev)"
  by (cases p) auto

lemma run_one:
  "program_event wr rd cl reg (Run 0) ([p], dev) = map_option (\<lambda>(p, dev). ([p], dev)) (thread_step wr rd cl reg p dev)"
  using finished_stays [of Terminated] by (cases "p = Terminated") (auto simp: map_option_case split: option.splits)

lemma alone_iff_runs:
  assumes "finished q"
  shows "alone wr rd cl reg p dev q d \<longleftrightarrow> (\<exists>n. run_program wr rd cl reg (replicate n (Run 0)) ([p], dev) = Some ([q], d))"
proof
  assume "alone wr rd cl reg p dev q d"
  then show "\<exists>n. run_program wr rd cl reg (replicate n (Run 0)) ([p], dev) = Some ([q], d)"
  proof (induction rule: alone.induct)
    case (alone_step p dev p1 dev1 p' dev')
    then obtain n where "run_program wr rd cl reg (replicate n (Run 0)) ([p1], dev1) = Some ([p'], dev')" by blast
    then have "run_program wr rd cl reg (replicate (Suc n) (Run 0)) ([p], dev) = Some ([p'], dev')"
      using alone_step.hyps(2) by (simp add: run_one del: program_event.simps)
    then show ?case ..
  qed (auto intro: exI [of _ 0])
next
  assume "\<exists>n. run_program wr rd cl reg (replicate n (Run 0)) ([p], dev) = Some ([q], d)"
  then obtain n where "run_program wr rd cl reg (replicate n (Run 0)) ([p], dev) = Some ([q], d)" ..
  then show "alone wr rd cl reg p dev q d"
  proof (induction n arbitrary: p dev)
    case 0
    then show ?case using assms by (auto intro: alone_done)
  next
    case (Suc n)
    then obtain p1 d1 where s: "thread_step wr rd cl reg p dev = Some (p1, d1)" "alone wr rd cl reg p1 d1 q d"
      by (auto simp: run_one simp del: program_event.simps split: bind_splits)
    show ?case
    proof (cases "finished p")
      case True
      then show ?thesis using s finished_stays [OF True, of wr rd cl reg dev] by simp
    qed (use s in \<open>auto intro: alone_step\<close>)
  qed
qed

text \<open>The methods as sequences of steps are the methods as one piece: a command thread that no other
  thread interrupts returns what \<open>call\<close> over the \<open>Device\<close> returns and leaves the device as it does,
  and it returns nothing else; likewise \<open>poll\<close>, exceptions included.\<close>

lemma thread_alone_is_method:
  fixes cl :: "('io, 'w, 'cb, 'o) py_callback"
  shows "(call payload0 wire0 (py_sender wr) (py_awaiter rd cl reg) d a dev = Some (out, dev') \<longleftrightarrow>
     (\<exists>p0 n p. call_thread payload0 wire0 d a = Some p0 \<and>
       run_program wr rd cl reg (replicate n (Run 0)) ([p0], dev) = Some ([p], dev') \<and> call_returns d p = Some out)) \<and>
   (poll rd cl reg k dev = Some (r, e) \<longleftrightarrow>
     (\<exists>n. run_program wr rd cl reg (replicate n (Run 0)) ([Polling k], dev) = Some ([polled r], e)))"
proof (rule conjI)
  have "finished (polled r)" by (simp add: polled_def split: sum.splits)
  from alone_iff_runs [OF this] show "poll rd cl reg k dev = Some (r, e) \<longleftrightarrow>
     (\<exists>n. run_program wr rd cl reg (replicate n (Run 0)) ([Polling k], dev) = Some ([polled r], e))"
    by (simp only: poll_iff_alone [where wr = wr])
next
  have fin: "finished p" if "call_returns d p = Some out" for p :: "('cb, 'o) phase"
    using call_returns_outcome [OF that] by (auto simp: outcome_def split: option.splits)
  show "call payload0 wire0 (py_sender wr) (py_awaiter rd cl reg) d a dev = Some (out, dev') \<longleftrightarrow>
     (\<exists>p0 n p. call_thread payload0 wire0 d a = Some p0 \<and>
       run_program wr rd cl reg (replicate n (Run 0)) ([p0], dev) = Some ([p], dev') \<and> call_returns d p = Some out)"
  proof (cases "call_request payload0 wire0 d a")
    case None
    then show ?thesis by (simp add: call_def call_thread_def)
  next
    case (Some x)
    then have "call payload0 wire0 (py_sender wr) (py_awaiter rd cl reg) d a dev = Some (out, dev') \<longleftrightarrow>
        (\<exists>p0 p. call_thread payload0 wire0 d a = Some p0 \<and> alone wr rd cl reg p0 dev p dev' \<and> call_returns d p = Some out)"
      using call_thread_iff [of payload0 wire0 d a "fst (fst x)" "snd (fst x)" "snd x" wr rd cl reg dev out dev'] by simp
    also have "\<dots> \<longleftrightarrow> (\<exists>p0 n p. call_thread payload0 wire0 d a = Some p0 \<and>
        run_program wr rd cl reg (replicate n (Run 0)) ([p0], dev) = Some ([p], dev') \<and> call_returns d p = Some out)"
      using alone_iff_runs [OF fin] by blast
    finally show ?thesis .
  qed
qed

section \<open>Every thread comes to its end\<close>

text \<open>What a thread has before it: a write or a copy to make, bytes of its own, and its place in the
  rest of the loop.\<close>

fun to_start :: "('cb, 'o) phase \<Rightarrow> nat" where
  "to_start (Sending w n) = 1"
| "to_start (Polling n) = 1"
| "to_start (PollReadFirst n) = 1"
| "to_start (Registering name cb) = 1"
| "to_start _ = 0"

fun own_bytes :: "('cb, 'o) phase \<Rightarrow> nat" where
  "own_bytes (Received (Inr bs)) = length bs"
| "own_bytes (PollReading n c) = length c"
| "own_bytes (PollReceived c (Inr bs)) = length c + length bs"
| "own_bytes (PollReadDone (Inr bs)) = length bs"
| "own_bytes (PollNotifying cb args s k) = length s"
| "own_bytes _ = 0"

fun rank :: "('cb, 'o) phase \<Rightarrow> nat" where
  "rank Unlocked = 4"
| "rank (Notifying cb args) = 4"
| "rank Reading = 3"
| "rank (Received r) = 2"
| "rank (PollReading n c) = 3"
| "rank (PollReceived c r) = 2"
| "rank (PollReadDone r) = 2"
| "rank (PollNotifying cb args s k) = 1"
| "rank _ = 0"

definition ended :: "('cb, 'o) phase list \<Rightarrow> bool" where
  "ended ps \<longleftrightarrow> Terminated \<in> set ps \<or> list_all finished ps"

text \<open>An event that puts nothing on the line.\<close>

definition quiet :: "('io \<Rightarrow> nat) \<Rightarrow> 'io event \<Rightarrow> bool" where
  "quiet left e \<longleftrightarrow> (\<forall>g t. e = Line g \<longrightarrow> left (g t) \<le> left t)"

lemma poll_bytes_keeps:
  "poll_bytes reg s k dev = Some (p, d) \<Longrightarrow> io d = io dev \<and> pending d = pending dev \<and> pending_pos d = pending_pos dev"
  by (induction s arbitrary: k dev) (fastforce simp: Let_def split: bind_splits if_splits sum.splits option.splits)+

lemma finished_to_do: "finished p \<Longrightarrow> to_start p = 0 \<and> own_bytes p = 0 \<and> rank p = 0"
  by (cases p) auto

lemma read_chunk_left:
  assumes "drained rd left" "read_chunk rd n dev = (r, dev')"
  shows "backlog left dev' + (case r of Inl e \<Rightarrow> 0 | Inr bs \<Rightarrow> length bs) \<le> backlog left dev"
proof -
  obtain q t where q: "rd n (io dev) = (q, t)" by force
  show ?thesis using assms(2) q drained.read_left [OF assms(1) q]
    by (auto simp: read_chunk_def backlog_def split: sum.splits option.splits)
qed

context reentrant
begin

lemma wait_settles:
  "host_ok dev \<Longrightarrow> wait reg dev = Some (p, d) \<Longrightarrow> host_ok d \<and> backlog left d \<le> backlog left dev \<and>
     (p = Reading \<and> length (pending dev) \<le> pending_pos dev \<or> backlog left d < backlog left dev)"
proof (induction "length (pending dev) - pending_pos dev" arbitrary: dev rule: less_induct)
  case less
  show ?case
  proof (cases "length (pending dev) \<le> pending_pos dev")
    case True
    then show ?thesis using less.prems by (simp add: wait.simps [of reg dev])
  next
    case False
    let ?d = "dev\<lparr>pending_pos := pending_pos dev + 1\<rparr>"
    have ok: "host_ok ?d" using less.prems(1) False by (simp add: host_ok_def)
    obtain b r d1 where b: "byte_in reg b ?d = Some (r, d1)" "(case r of None \<Rightarrow> wait reg d1 | Some p \<Rightarrow> Some (p, d1)) = Some (p, d)"
      using less.prems(2) False by (subst (asm) wait.simps) (auto split: bind_splits)
    have d1: "host_ok d1" using byte_in_ok [OF ok, of b] b(1) by auto
    have less1: "backlog left d1 < backlog left dev" using byte_in_keeps [OF b(1)] False by (simp add: backlog_def)
    show ?thesis
    proof (cases r)
      case None
      have "length (pending d1) - pending_pos d1 < length (pending dev) - pending_pos dev"
        using byte_in_keeps [OF b(1)] False by simp
      from less.hyps [OF this d1] show ?thesis using b(2) None less1 by auto
    qed (use b(2) d1 less1 in auto)
  qed
qed

text \<open>Each step brings a thread nearer to its end.\<close>

definition nearer :: "('cb, 'o) phase \<Rightarrow> ('io, 'w, 'cb) PyDevice \<Rightarrow> ('cb, 'o) phase \<Rightarrow> ('io, 'w, 'cb) PyDevice \<Rightarrow> bool" where
  "nearer p' dev' p dev \<longleftrightarrow> to_start p' < to_start p \<or> to_start p' = to_start p \<and>
     (own_bytes p' + backlog left dev' < own_bytes p + backlog left dev \<or>
      own_bytes p' + backlog left dev' = own_bytes p + backlog left dev \<and> rank p' < rank p)"

lemma wait_nearer:
  assumes "wait reg d = Some (p', dev')" "host_ok d" "to_start p = 0" "backlog left d \<le> own_bytes p + backlog left dev"
    and "rank p = 4 \<or> pending_pos d < length (pending d)"
  shows "nearer p' dev' p dev"
proof -
  have p': "to_start p' = 0 \<and> own_bytes p' = 0"
    using wait_phase [OF assms(1)] finished_to_do [of p'] by auto
  from wait_settles [OF assms(2,1)] show ?thesis
    using assms(3-5) p' by (auto simp: nearer_def)
qed

lemma poll_bytes_nearer:
  assumes "poll_bytes reg s k d = Some (p', dev')" "to_start p = 0" "length s + backlog left d \<le> own_bytes p + backlog left dev"
    and "1 \<le> rank p"
  shows "nearer p' dev' p dev"
proof -
  have d: "backlog left dev' = backlog left d" using poll_bytes_keeps [OF assms(1)] by (simp add: backlog_def)
  from poll_bytes_phase [OF assms(1)] show ?thesis
  proof
    assume "finished p'"
    then show ?thesis using finished_to_do [of p'] assms(2-4) d by (auto simp: nearer_def)
  qed (use assms(2-4) d in \<open>auto simp: nearer_def\<close>)
qed

lemma thread_step_nearer:
  assumes "host_ok dev" "\<not> finished p" "thread_step wr rd cl reg p dev = Some (p', dev')"
  shows "nearer p' dev' p dev"
  using assms(3)
proof (cases "(wr, rd, cl, reg, p, dev)" rule: thread_step.cases)
  case (2 wr rd cl reg d)
  then show ?thesis using assms wait_nearer [of dev p' dev' Unlocked dev] by simp
next
  case (3 wr rd cl reg d)
  obtain r dev1 where r: "read_chunk rd 256 dev = (r, dev1)" by force
  then show ?thesis using 3 assms(3) read_chunk_left [OF drained_axioms, of 256 dev r dev1] by (cases r) (auto simp: nearer_def)
next
  case (5 wr rd cl reg bs d)
  then show ?thesis using assms wait_nearer [of "dev\<lparr>pending := bs, pending_pos := 0\<rparr>" p' dev' p dev]
    by (cases "bs = []") (auto simp: Let_def nearer_def host_ok_def backlog_def)
next
  case (6 wr' rd' cl' reg' cb args d)
  obtain r d1 where r: "cl cb args dev = Some (r, d1)" "settles left dev d1" using callback_settles [OF assms(1)] by blast
  then show ?thesis using 6 assms(3) wait_nearer [of d1 p' dev' p dev]
    by (cases r) (auto simp: settles_def nearer_def)
next
  case (8 wr rd cl reg n c d)
  obtain r dev1 where r: "read_chunk rd n dev = (r, dev1)" by force
  then show ?thesis using 8 assms(3) read_chunk_left [OF drained_axioms, of n dev r dev1] by (cases r) (auto simp: nearer_def)
next
  case (10 wr rd cl reg c bs d)
  then show ?thesis using assms poll_bytes_nearer [of "c @ bs" 0 "dev\<lparr>pending := [], pending_pos := 0\<rparr>" p' dev' p dev]
    by (auto simp: backlog_def)
next
  case (11 wr' rd' cl' reg' cb args s k d)
  obtain r d1 where r: "cl cb args dev = Some (r, d1)" "settles left dev d1" using callback_settles [OF assms(1)] by blast
  then show ?thesis using 11 assms(3) poll_bytes_nearer [of s "Suc k" d1 p' dev' p dev]
    by (cases r) (auto simp: settles_def nearer_def)
next
  case (15 wr rd cl reg bs d)
  then show ?thesis
    using assms poll_bytes_nearer [of "drop (pending_pos dev) (pending dev) @ bs" 0 "dev\<lparr>pending := [], pending_pos := 0\<rparr>" p' dev' p dev]
    by (auto simp: backlog_def nearer_def split: if_splits)
qed (use assms in \<open>auto simp: nearer_def split: prod.splits sum.splits if_splits\<close>)

definition to_do :: "('io, 'w, 'cb, 'o) program \<Rightarrow> nat \<times> nat \<times> nat" where
  "to_do s = (sum_list (map to_start (fst s)), sum_list (map own_bytes (fst s)) + backlog left (snd s), sum_list (map rank (fst s)))"

abbreviation less_to_do :: "((nat \<times> nat \<times> nat) \<times> nat \<times> nat \<times> nat) set" where
  "less_to_do \<equiv> less_than <*lex*> less_than <*lex*> less_than"

lemma program_event_nearer:
  assumes "program_event wr rd cl reg e (ps, dev) = Some (ps', dev')" "host_ok dev"
    and "Terminated \<notin> set ps" "quiet left e"
  shows "(to_do (ps', dev'), to_do (ps, dev)) \<in> less_to_do \<or>
    to_do (ps', dev') = to_do (ps, dev) \<and> ps' = ps \<and> (\<forall>i. e = Run i \<longrightarrow> i < length ps \<longrightarrow> finished (ps ! i))"
proof (cases e)
  case (Line g)
  then show ?thesis using assms(1,4) by (auto simp: to_do_def backlog_def quiet_def order_le_less)
next
  case (Run i)
  show ?thesis
  proof (cases "i < length ps \<and> \<not> finished (ps ! i)")
    case True
    then obtain p where p: "thread_step wr rd cl reg (ps ! i) dev = Some (p, dev')" "ps' = ps[i := p]"
      using assms(1,3) Run by (auto split: bind_splits)
    have sum: "sum_list (map f ps') + f (ps ! i) = sum_list (map f ps) + f p" for f :: "('cb, 'o) phase \<Rightarrow> nat"
      using True p(2) member_le_sum_list [of "f (ps ! i)" "map f ps"] by (simp add: map_update sum_list_update)
    from thread_step_nearer [OF assms(2) _ p(1)] True have "nearer p dev' (ps ! i) dev" by simp
    then show ?thesis
      using sum [of to_start] sum [of own_bytes] sum [of rank] by (auto simp: to_do_def nearer_def)
  next
    case False
    have "thread_step wr rd cl reg (ps ! i) dev = Some (ps ! i, dev)" if "i < length ps"
      using False that by (cases "ps ! i") auto
    then show ?thesis using False assms(1) Run by (auto split: if_splits)
  qed
qed

lemma callback_steady: "steady cl"
  unfolding steady_def using callback_settles settles_ok by blast

lemma run_on:
  assumes "host_ok dev" "run_program wr rd cl reg (map es [0..<n]) (ps, dev) = Some (ps1, dev1)" "host_ok dev1"
  obtains ps2 dev2 where "program_event wr rd cl reg (es n) (ps1, dev1) = Some (ps2, dev2)"
    "run_program wr rd cl reg (map es [0..<Suc n]) (ps, dev) = Some (ps2, dev2)" "host_ok dev2" "length ps2 = length ps1"
  using program_event_ok [OF assms(3) callback_steady, of wr rd "es n" ps1] assms(2) by (auto simp: run_program_append)

lemma fair_ends:
  assumes start: "host_ok dev"
    and fair: "\<And>i n. i < length ps \<Longrightarrow> \<exists>m\<ge>n. es m = Run i"
    and dry: "\<And>n. N \<le> n \<Longrightarrow> quiet left (es n)"
  shows "\<exists>n ps' dev'. run_program wr rd cl reg (map es [0..<n]) (ps, dev) = Some (ps', dev') \<and> ended ps'"
proof -
  let ?run = "\<lambda>n. run_program wr rd cl reg (map es [0..<n]) (ps, dev)"
  let ?goal = "\<exists>n ps' dev'. ?run n = Some (ps', dev') \<and> ended ps'"
  have wf: "wf less_to_do" by (intro wf_lex_prod wf_less_than)
  have main: "\<lbrakk>?run n = Some (ps1, dev1); host_ok dev1; length ps1 = length ps; N \<le> n; to_do (ps1, dev1) = m\<rbrakk> \<Longrightarrow> ?goal"
    for m n ps1 dev1
  proof (induction m arbitrary: n ps1 dev1 rule: wf_induct_rule [OF wf])
    case (1 m)
    note next_run = 1(1) and len = 1(4)
    show ?case
    proof (cases "ended ps1")
      case False
      then obtain i where i: "i < length ps1" "\<not> finished (ps1 ! i)" by (auto simp: ended_def list_all_length)
      then obtain k where k: "n \<le> k" "es k = Run i" using fair 1(4) by metis
      show ?thesis using 1(2,3,5,6) k(1)
      proof (induction "k - n" arbitrary: n dev1)
        case (0 n dev1)
        then have n: "k = n" by simp
        obtain ps2 dev2 where s: "program_event wr rd cl reg (es n) (ps1, dev1) = Some (ps2, dev2)"
            "?run (Suc n) = Some (ps2, dev2)" "host_ok dev2" "length ps2 = length ps1"
          using run_on [OF start 0(2,3)] by blast
        have "(to_do (ps2, dev2), m) \<in> less_to_do"
          using program_event_nearer [OF s(1) 0(3) _ dry [OF 0(4)]] False i k(2) n 0(5) by (auto simp: ended_def)
        then show ?case using next_run [OF _ s(2,3)] s(4) len 0(4) by simp
      next
        case (Suc x n dev1)
        obtain ps2 dev2 where s: "program_event wr rd cl reg (es n) (ps1, dev1) = Some (ps2, dev2)"
            "?run (Suc n) = Some (ps2, dev2)" "host_ok dev2" "length ps2 = length ps1"
          using run_on [OF start Suc(3,4)] by blast
        from program_event_nearer [OF s(1) Suc(4) _ dry [OF Suc(5)]] False
        consider "(to_do (ps2, dev2), m) \<in> less_to_do" | "to_do (ps2, dev2) = m" "ps2 = ps1"
          using Suc(6) by (auto simp: ended_def)
        then show ?case
        proof cases
          case 1
          then show ?thesis using next_run [OF 1 s(2,3)] s(4) Suc(5) len by simp
        next
          case 2
          show ?thesis using Suc(1) [of "Suc n" dev2] Suc(2,5,7) s(2,3) 2 by simp
        qed
      qed
    qed (use 1(2) in blast)
  qed
  obtain ps1 dev1 where "?run N = Some (ps1, dev1)" "host_ok dev1" "length ps1 = length ps"
    using run_program_ok [OF start callback_steady] by blast
  then show ?thesis using main by blast
qed

end

section \<open>Properties\<close>

text \<open>C19: whatever threads share a \<open>Device\<close> and however the interpreter switches between them, with
  anything arriving on the line at any moment: no method leaves an array or meets a broken
  \<open>FrameReader\<close>, the device stays in order, and every step of every thread is defined.\<close>

theorem threads_safe:
  assumes "stream_registry reg rs" "steady cl" "host_ok dev"
  shows "\<exists>ps' dev'. run_program wr rd cl reg es (ps, dev) = Some (ps', dev') \<and> host_ok dev' \<and> length ps' = length ps"
  by (rule stream_registry.run_program_ok [OF assms(1,3,2)])

theorem threads_safe_witness:
  "\<exists>ps' dev'. run_program uart_write uart_read (plain log_call) app_registry
      [Run 0, Run 1, Line (\<lambda>u. the (uart_tick 7 u)), Run 1, Run 2, Run 0, Run 1]
      ([Sending (frame_wire MT_Command [3]) 7, Polling 64, PollReadFirst 3], host_start) = Some (ps', dev') \<and>
    host_ok dev' \<and> length ps' = length [Sending (frame_wire MT_Command [3]) 7, Polling 64, PollReadFirst 3 :: (unit, PyObj) phase]"
  by (rule threads_safe [OF app_reg.stream_registry_axioms plain_steady])
     (simp add: host_ok_def host_start_def on_def PyDevice_init_def)

text \<open>C23: no thread waits for ever on account of the others: under any fair schedule, and once nothing
  more is put on the line, every command and every poll comes to its end (or an exception inside a
  command has ended the program).\<close>

theorem threads_finish:
  assumes "reentrant rd left reg rs cl" "host_ok dev"
    and "\<And>i n. i < length ps \<Longrightarrow> \<exists>m\<ge>n. es m = Run i" "\<And>n. N \<le> n \<Longrightarrow> quiet left (es n)"
  shows "\<exists>n ps' dev'. run_program wr rd cl reg (map es [0..<n]) (ps, dev) = Some (ps', dev') \<and> ended ps'"
  by (rule reentrant.fair_ends [OF assms])

theorem threads_finish_witness:
  "\<exists>n ps' dev'. run_program uart_write uart_read (run_callback uart_read app_registry (\<lambda>_. [Poll 3]) 4) app_registry
      (map (\<lambda>n. Run (n mod 3)) [0..<n]) ([Sending (frame_wire MT_Command [3]) 7, Polling 64, PollReadFirst 3], host_start) = Some (ps', dev') \<and>
    ended ps'"
proof (rule threads_finish [OF uart_scripts.reentrant_axioms, where N = 0])
  show "\<exists>m\<ge>n. Run (m mod 3) = (Run i :: Uart event)"
    if "i < length [Sending (frame_wire MT_Command [3]) 7, Polling 64, PollReadFirst 3 :: (unit, PyObj) phase]" for i n
    using that by (intro exI [of _ "3 * n + i"]) simp
qed (simp_all add: host_ok_def host_start_def on_def PyDevice_init_def quiet_def)

end
