(* ===== verification/ThreadOrder.thy ===== *)
theory ThreadOrder
  imports Threads
begin

text \<open>
  What a reply belongs to when several threads share a \<open>Device\<close>. \<open>call\<close> sends with one hold of the
  interpreter lock and awaits with another, and \<open>await_reply\<close> and \<open>poll\<close> give the lock away inside
  \<open>read\<close>. First the law that holds when reads are not shared: replies go to the threads in the order
  in which these get to await them, whoever sent first. Then what happens to a reply when a second
  thread reads the same line.
\<close>

section \<open>One packet\<close>

lemma wait_skip:
  "\<lbrakk>reader_ok (reader dev); reader_holds (reader dev) = Some h; 0 \<notin> set s; length h + length s \<le> 255;
    drop (pending_pos dev) (pending dev) = s @ s'\<rbrakk> \<Longrightarrow>
   \<exists>r. reader_ok r \<and> reader_holds r = Some (h @ s) \<and>
     wait reg dev = wait reg (dev\<lparr>reader := r, pending_pos := pending_pos dev + length s\<rparr>)"
proof (induction s arbitrary: h dev)
  case Nil
  then show ?case by (intro exI [of _ "reader dev"]) simp
next
  case (Cons b s)
  have b: "b \<noteq> kDelimiter" "hold (Some h) b = Some (h @ [b])" using Cons.prems by (auto simp: kDelimiter_def hold_def)
  obtain r where r: "push (reader dev) b = Some (NeedMore, r)" "reader_ok r" "reader_holds r = Some (h @ [b])"
    using reader_more [OF Cons.prems(1) b(1)] Cons.prems(2) b(2) by auto
  have pos: "pending_pos dev < length (pending dev)" "pending dev ! pending_pos dev = b"
    "drop (Suc (pending_pos dev)) (pending dev) = s @ s'"
    using drop_Cons_nth [of "pending_pos dev" "pending dev" b "s @ s'"] Cons.prems(5) by simp_all
  then have "wait reg dev = wait reg (dev\<lparr>pending_pos := Suc (pending_pos dev), reader := r\<rparr>)"
    using r(1) by (subst wait.simps) (simp add: mem_read_def byte_in_def Let_def)
  then show ?case using Cons.IH [of "dev\<lparr>pending_pos := Suc (pending_pos dev), reader := r\<rparr>" "h @ [b]"] Cons.prems(3,4) r(2,3) pos(3)
    by auto
qed

lemma wait_reply:
  assumes "reader_ok (reader dev)" "reader_holds (reader dev) = Some []" "length ps \<le> 250"
    and "drop (pending_pos dev) (pending dev) = frame_wire MT_Reply ps @ s"
  shows "\<exists>r. reader_ok r \<and> reader_holds r = Some [] \<and> frame_wf (frame r) \<and> frame_msg (frame r) = (MT_Reply, ps) \<and>
    wait reg dev = Some (Replied (frame r), dev\<lparr>reader := r, pending_pos := pending_pos dev + length (frame_wire MT_Reply ps)\<rparr>)"
proof -
  note w = wire_code [OF assms(3), of MT_Reply]
  let ?s = "cobs_encoding (frame_raw MT_Reply ps)"
  have line: "drop (pending_pos dev) (pending dev) = ?s @ kDelimiter # s" using assms(4) w(3) by simp
  obtain r where r: "reader_ok r" "reader_holds r = Some ?s"
      "wait reg dev = wait reg (dev\<lparr>reader := r, pending_pos := pending_pos dev + length ?s\<rparr>)"
    using wait_skip [OF assms(1,2) w(1,2) line, of reg] by auto
  obtain r' where r': "push r kDelimiter = Some (FrameReady, r')" "reader_ok r'" "reader_holds r' = Some []"
      "frame_wf (frame r')" "ftype (frame r') = MT_Reply" "frame_data (frame r') = ps"
    using reader_takes_wire [OF r(1,2) assms(3)] by blast
  have pos: "drop (pending_pos dev + length ?s) (pending dev) = kDelimiter # s"
    using line by (metis append_eq_conv_conj drop_drop add.commute)
  then have "pending_pos dev + length ?s < length (pending dev)" "pending dev ! (pending_pos dev + length ?s) = kDelimiter"
    by (simp_all add: drop_Cons_nth)
  then have "wait reg dev = Some (Replied (frame r'), dev\<lparr>reader := r', pending_pos := Suc (pending_pos dev + length ?s)\<rparr>)"
    using r(3) r'(1,5) by (subst (asm) (2) wait.simps) (simp add: mem_read_def byte_in_def Let_def)
  then show ?thesis using r' w(3) by (intro exI [of _ r']) (simp add: frame_msg_def)
qed

lemma poll_bytes_skip:
  "\<lbrakk>reader_ok (reader dev); reader_holds (reader dev) = Some h; 0 \<notin> set s; length h + length s \<le> 255\<rbrakk> \<Longrightarrow>
   \<exists>r. reader_ok r \<and> reader_holds r = Some (h @ s) \<and>
     poll_bytes reg (s @ s') k dev = poll_bytes reg s' k (dev\<lparr>reader := r\<rparr>)"
proof (induction s arbitrary: h dev)
  case Nil
  then show ?case by (intro exI [of _ "reader dev"]) simp
next
  case (Cons b s)
  have b: "b \<noteq> kDelimiter" "hold (Some h) b = Some (h @ [b])" using Cons.prems by (auto simp: kDelimiter_def hold_def)
  obtain r where r: "push (reader dev) b = Some (NeedMore, r)" "reader_ok r" "reader_holds r = Some (h @ [b])"
    using reader_more [OF Cons.prems(1) b(1)] Cons.prems(2) b(2) by auto
  then show ?case using Cons.IH [of "dev\<lparr>reader := r\<rparr>" "h @ [b]"] Cons.prems by auto
qed

lemma poll_bytes_reply:
  assumes "reader_ok (reader dev)" "reader_holds (reader dev) = Some []" "length ps \<le> 250"
  shows "\<exists>r. reader_ok r \<and> reader_holds r = Some [] \<and>
    poll_bytes reg (frame_wire MT_Reply ps) k dev = Some (Polled k, dev\<lparr>reader := r\<rparr>)"
proof -
  note w = wire_code [OF assms(3), of MT_Reply]
  obtain r where r: "reader_ok r" "reader_holds r = Some (cobs_encoding (frame_raw MT_Reply ps))"
      "poll_bytes reg (frame_wire MT_Reply ps) k dev = poll_bytes reg [kDelimiter] k (dev\<lparr>reader := r\<rparr>)"
    using poll_bytes_skip [OF assms(1,2) w(1,2), of reg "[kDelimiter]" k] w(3) by auto
  then show ?thesis using reader_takes_wire [OF r(1,2) assms(3)] by (auto simp: message_types)
qed

section \<open>One command\<close>

lemma call_starts:
  assumes "contract d sa sr" "valid sa a" "length payload0 = kMaxPayload" "length wire0 = kMaxPacket"
  shows "call_thread payload0 wire0 d a =
    Some (Sending (blit 0 (frame_wire MT_Command (request d sa a)) wire0) (length (frame_wire MT_Command (request d sa a))))"
  using contract.call_request_wire [OF assms] by (simp add: call_thread_def)

lemma sending_step:
  assumes "wr w (io dev) = (Inr (), t)"
  shows "thread_step wr rd cl reg (Sending (blit 0 w buffer) (length w)) dev = Some (Unlocked, dev\<lparr>io := t\<rparr>)"
  using assms by (simp add: dev_send_command_def blit_def)

lemma replied_returns:
  assumes "contract d sa sr" "frame_wf f" "frame_msg f = (MT_Reply, ps)" "1 \<le> length ps"
  shows "call_returns d (Replied f) = Some (result_of d sr ps)"
proof -
  have f: "ftype f = MT_Reply" "frame_data f = ps" "1 \<le> unat (flength f)"
    using assms(3,4) by (auto simp: frame_msg_def frame_data_def)
  then show ?thesis using contract.call_reply_result [OF assms(1,2) f(3)] by (simp add: call_returns_def Let_def)
qed

lemma no_reply_returns: "call_returns d NoReply = Some (SC_TransportError, tuple_init (RetsTuple d))"
  by (simp add: call_returns_def Let_def)

lemma wait_dry: "length (pending dev) \<le> pending_pos dev \<Longrightarrow> wait reg dev = Some (Reading, dev)"
  by (simp add: wait.simps [of reg dev])

section \<open>Sends and awaits in turns\<close>

text \<open>The line of the session with several command threads: a thread sends, a thread that has sent
  awaits without being interrupted, the firmware emits telemetry, the line cuts reads; \<open>sent\<close> and
  \<open>got\<close> are the threads in the order in which they did the one and the other.\<close>

inductive in_turns ::
  "(unit, PyObj) phase list \<Rightarrow> Host \<Rightarrow> nat list \<Rightarrow> nat list \<Rightarrow> (unit, PyObj) phase list \<Rightarrow> Host \<Rightarrow> bool"
  for ps0 dev0 where
  turns_start: "in_turns ps0 dev0 [] [] ps0 dev0"
| turns_send: "\<lbrakk>in_turns ps0 dev0 sent got ps dev; i < length ps; ps ! i = Sending w n;
    thread_step uart_write uart_read (plain log_call) app_registry (Sending w n) dev = Some (p, dev')\<rbrakk> \<Longrightarrow>
    in_turns ps0 dev0 (sent @ [i]) got (ps[i := p]) dev'"
| turns_await: "\<lbrakk>in_turns ps0 dev0 sent got ps dev; i < length ps; ps ! i = Unlocked;
    alone uart_write uart_read (plain log_call) app_registry Unlocked dev p dev'\<rbrakk> \<Longrightarrow>
    in_turns ps0 dev0 sent (got @ [i]) (ps[i := p]) dev'"
| turns_tick: "\<lbrakk>in_turns ps0 dev0 sent got ps dev; uart_tick c (io dev) = Some u\<rbrakk> \<Longrightarrow>
    in_turns ps0 dev0 sent got ps (dev\<lparr>io := u\<rparr>)"
| turns_cut: "in_turns ps0 dev0 sent got ps dev \<Longrightarrow> in_turns ps0 dev0 sent got ps (dev\<lparr>io := (io dev)\<lparr>grants := gs\<rparr>\<rparr>)"

text \<open>The firmware's replies to a list of requests, one after the other.\<close>

fun replies :: "byte list list \<Rightarrow> Device \<Rightarrow> byte list list \<times> Device" where
  "replies [] st = ([], st)"
| "replies (q # qs) st = (let (r, st) = serve kServers kMaxPayload q st; (rs, st) = replies qs st in (r # rs, st))"

lemma replies_snoc:
  "replies (qs @ [q]) st =
    (let (rs, st) = replies qs st; (r, st) = serve kServers kMaxPayload q st in (rs @ [r], st))"
  by (induction qs arbitrary: st) (simp_all split: prod.splits)

lemma length_replies: "length (fst (replies qs st)) = length qs"
  by (induction qs arbitrary: st) (simp_all add: case_prod_beta Let_def)

definition wires :: "(MessageType \<times> byte list) list \<Rightarrow> byte list" where
  "wires ms = concat (map (\<lambda>(t, x). frame_wire t x) ms)"

definition answers :: "(MessageType \<times> byte list) list \<Rightarrow> byte list list" where
  "answers ms = map snd (filter (\<lambda>m. fst m = MT_Reply) ms)"

definition on_line :: "MessageType \<times> byte list \<Rightarrow> bool" where
  "on_line m \<longleftrightarrow> fst m = MT_Stream \<and> snd m \<in> range telemetry_payload \<or>
     fst m = MT_Reply \<and> 1 \<le> length (snd m) \<and> length (snd m) \<le> kMaxPayload"

lemma wires_simps [simp]:
  "wires [] = []" "wires (ms @ ms') = wires ms @ wires ms'" "wires ((t, x) # ms) = frame_wire t x @ wires ms"
  "wires (map (Pair MT_Stream) xs) = streams xs"
  by (simp_all add: wires_def streams_def o_def)

lemma answers_simps [simp]:
  "answers [] = []" "answers (ms @ ms') = answers ms @ answers ms'" "answers ((MT_Reply, x) # ms) = x # answers ms"
  "answers ((MT_Stream, x) # ms) = answers ms" "answers (map (Pair MT_Stream) xs) = []"
  by (simp_all add: answers_def message_types filter_map o_def)

lemma first_reply:
  "\<lbrakk>list_all on_line ms; answers ms = r # rs\<rbrakk> \<Longrightarrow>
    \<exists>xs ms'. ms = map (Pair MT_Stream) xs @ (MT_Reply, r) # ms' \<and> set xs \<subseteq> range telemetry_payload \<and> answers ms' = rs \<and>
      1 \<le> length r \<and> length r \<le> kMaxPayload \<and> list_all on_line ms'"
proof (induction ms)
  case (Cons m ms)
  have ne: "MT_Reply \<noteq> MT_Stream" by (simp add: message_types)
  obtain t x where m: "m = (t, x)" by (cases m)
  show ?case
  proof (cases "t = MT_Reply")
    case True
    then show ?thesis using Cons.prems m by (intro exI [of _ "[]"] exI [of _ ms]) (simp add: on_line_def ne)
  next
    case False
    then have t: "t = MT_Stream" "x \<in> range telemetry_payload" using Cons.prems(1) m by (auto simp: on_line_def)
    then obtain xs ms' where "ms = map (Pair MT_Stream) xs @ (MT_Reply, r) # ms'" "set xs \<subseteq> range telemetry_payload" "answers ms' = rs"
        "1 \<le> length r" "length r \<le> kMaxPayload" "list_all on_line ms'"
      using Cons m by auto
    then show ?thesis using t m by (intro exI [of _ "x # xs"] exI [of _ ms']) simp
  qed
qed simp

text \<open>The invariant: what is still on the line are telemetry and the replies that nobody has yet taken.\<close>

definition turns_line :: "byte list list \<Rightarrow> nat \<Rightarrow> Device \<Rightarrow> Host \<Rightarrow> bool" where
  "turns_line rs k st dev \<longleftrightarrow> reader_ok (reader dev) \<and> pending_pos dev \<le> length (pending dev) \<and> callbacks dev = the_callbacks \<and>
     line_idle (io dev) \<and> firmware (io dev) = st \<and>
     (\<exists>h ms. reader_holds (reader dev) = Some h \<and> h @ drop (pending_pos dev) (pending dev) @ to_host (io dev) = wires ms \<and>
       list_all on_line ms \<and> answers ms = drop k rs)"

lemma line_await:
  assumes "turns_line rs k st dev" "k < length rs"
  shows "\<exists>f dev'. alone wr uart_read (plain log_call) app_registry Unlocked dev (Replied f) dev' \<and>
    frame_wf f \<and> frame_msg f = (MT_Reply, rs ! k) \<and> turns_line rs (Suc k) st dev'"
proof -
  obtain h ms where inv: "reader_ok (reader dev)" "pending_pos dev \<le> length (pending dev)" "callbacks dev = the_callbacks"
      "line_idle (io dev)" "firmware (io dev) = st" "reader_holds (reader dev) = Some h"
      "h @ drop (pending_pos dev) (pending dev) @ to_host (io dev) = wires ms" "list_all on_line ms" "answers ms = drop k rs"
    using assms(1) by (auto simp: turns_line_def)
  have "answers ms = rs ! k # drop (Suc k) rs" using inv(9) assms(2) by (simp add: Cons_nth_drop_Suc)
  from first_reply [OF inv(8) this] obtain xs ms' where ms: "ms = map (Pair MT_Stream) xs @ (MT_Reply, rs ! k) # ms'"
      "set xs \<subseteq> range telemetry_payload" "answers ms' = drop (Suc k) rs" "length (rs ! k) \<le> kMaxPayload" "list_all on_line ms'" by blast
  obtain cs where cs: "supplies uart_read cs (io dev)" "concat cs = to_host (io dev)" using uart_supplies by blast
  have line: "h @ unread dev cs = streams xs @ frame_wire MT_Reply (rs ! k) @ wires ms'"
    using inv(7) ms(1) cs(2) by (simp add: unread_def)
  have xs: "list_all (\<lambda>x. length x \<le> kMaxPayload) xs"
      "\<And>x w. x \<in> set xs \<Longrightarrow> \<not> isl (fst (deliver log_call app_decoders (callbacks dev) x w))"
    using ms(2) inv(3) telemetry_payload_bound by (auto simp: list_all_iff deliver_telemetry)
  obtain f dev' cs' where a: "await_loop uart_read (plain log_call) app_registry dev = Some (Inr (Some f), dev')" "frame_wf f"
      "frame_msg f = (MT_Reply, rs ! k)" "reader_ok (reader dev')" "callbacks dev' = callbacks dev"
      "reader_holds (reader dev') = Some []" "supplies uart_read cs' (io dev')" "unread dev' cs' = wires ms'"
    using app_reg.await_held [OF inv(1) cs(1) inv(6) line xs(1) ms(4) xs(2)] by blast
  let ?P = "\<lambda>u. line_idle u \<and> firmware u = st"
  let ?I = "\<lambda>d. ?P (io d) \<and> pending_pos d \<le> length (pending d)"
  have "?I (snd (Inr (Some f) :: PyError + Frame option, dev'))"
  proof (rule await_loop_keeps [OF a(1), of ?I])
    show "?I d'" if "?I d" "next_byte uart_read d = Some (r, d')" for d r d'
      using next_byte_keeps [OF that(2), of ?P] that(1) by (auto simp: uart_read_def line_idle_def)
  qed (use inv in \<open>auto simp: plain_def split: prod.splits\<close>)
  then have "turns_line rs (Suc k) st dev'"
    using a inv(3) ms(3,5) supplies_uart [OF a(7)] by (auto simp: turns_line_def unread_def)
  moreover have "awaits uart_read (plain log_call) app_registry dev = Some (Some f, dev')" using a(1) by (simp add: awaits_def)
  then have "alone wr uart_read (plain log_call) app_registry Unlocked dev (Replied f) dev'"
    by (simp add: awaits_iff_alone [where wr = wr] outcome_def)
  ultimately show ?thesis using a(2,3) by blast
qed

lemma line_send:
  assumes "turns_line rs k st dev" "k \<le> length rs" "take n w = frame_wire MT_Command q" "length q \<le> kMaxPayload"
  shows "\<exists>dev'. thread_step uart_write rd cl reg (Sending w n) dev = Some (Unlocked, dev') \<and>
    turns_line (rs @ [fst (serve kServers kMaxPayload q st)]) k (snd (serve kServers kMaxPayload q st)) dev'"
proof -
  obtain h ms where inv: "reader_ok (reader dev)" "pending_pos dev \<le> length (pending dev)" "callbacks dev = the_callbacks"
      "line_idle (io dev)" "firmware (io dev) = st" "reader_holds (reader dev) = Some h"
      "h @ drop (pending_pos dev) (pending dev) @ to_host (io dev) = wires ms" "list_all on_line ms" "answers ms = drop k rs"
    using assms(1) by (auto simp: turns_line_def)
  obtain r u where a: "uart_write (frame_wire MT_Command q) (io dev) = (Inr (), u)"
      "u = (io dev)\<lparr>to_host := to_host (io dev) @ frame_wire MT_Reply r, firmware := firmware u\<rparr>" "line_idle u"
      "serve kServers kMaxPayload q st = (r, firmware u)" "1 \<le> length r" "length r \<le> kMaxPayload"
    using uart_answers [OF inv(4) assms(4)] inv(5) by blast
  have "to_host u = to_host (io dev) @ frame_wire MT_Reply r" using arg_cong [OF a(2), of to_host] by simp
  then have "h @ drop (pending_pos dev) (pending dev) @ to_host u = wires (ms @ [(MT_Reply, r)])" using inv(7) by simp
  moreover have "list_all on_line (ms @ [(MT_Reply, r)])" using inv(8) a(5,6) by (simp add: on_line_def)
  moreover have "answers (ms @ [(MT_Reply, r)]) = drop k (rs @ [r])" using inv(9) assms(2) by simp
  ultimately have "turns_line (rs @ [r]) k (firmware u) (dev\<lparr>io := u\<rparr>)"
    using inv(1-3,6) a(3) by (auto simp: turns_line_def intro!: exI [of _ h] exI [of _ "ms @ [(MT_Reply, r)]"])
  then show ?thesis using a(1,4) assms(3) by (simp add: dev_send_command_def)
qed

lemma line_tick:
  assumes "turns_line rs k st dev" "uart_tick c (io dev) = Some u"
  shows "turns_line rs k st (dev\<lparr>io := u\<rparr>)"
proof -
  obtain h ms where inv: "reader_holds (reader dev) = Some h"
      "h @ drop (pending_pos dev) (pending dev) @ to_host (io dev) = wires ms" "list_all on_line ms" "answers ms = drop k rs"
    using assms(1) by (auto simp: turns_line_def)
  have u: "u = (io dev)\<lparr>to_host := to_host (io dev) @ frame_wire MT_Stream (telemetry_payload c), emitted := emitted (io dev) @ [c]\<rparr>"
    using assms(2) by (simp add: uart_tick_puts)
  then have "h @ drop (pending_pos dev) (pending dev) @ to_host u = wires (ms @ [(MT_Stream, telemetry_payload c)])"
    using inv(2) by simp
  moreover have "list_all on_line (ms @ [(MT_Stream, telemetry_payload c)])" "answers (ms @ [(MT_Stream, telemetry_payload c)]) = drop k rs"
    using inv(3,4) by (simp_all add: on_line_def)
  ultimately show ?thesis using assms(1) inv(1) u
    by (auto simp: turns_line_def line_idle_def intro!: exI [of _ h] exI [of _ "ms @ [(MT_Stream, telemetry_payload c)]"])
qed

definition asks :: "byte list \<Rightarrow> (unit, PyObj) phase \<Rightarrow> bool" where
  "asks q p \<longleftrightarrow> length q \<le> kMaxPayload \<and> (\<exists>w n. p = Sending w n \<and> take n w = frame_wire MT_Command q)"

definition gets :: "byte list \<Rightarrow> (unit, PyObj) phase \<Rightarrow> bool" where
  "gets r p \<longleftrightarrow> (\<exists>f. p = Replied f \<and> frame_wf f \<and> frame_msg f = (MT_Reply, r))"

definition turns_ok :: "byte list list \<Rightarrow> Device \<Rightarrow> nat list \<Rightarrow> nat list \<Rightarrow> (unit, PyObj) phase list \<Rightarrow> Host \<Rightarrow> bool" where
  "turns_ok qs st0 sent got ps dev \<longleftrightarrow>
     (let (rs, st) = replies (map ((!) qs) sent) st0 in turns_line rs (length got) st dev \<and>
       (\<forall>k<length got. gets (rs ! k) (ps ! (got ! k)))) \<and>
     length ps = length qs \<and> distinct sent \<and> distinct got \<and> set got \<subseteq> set sent \<and> set sent \<subseteq> {..<length ps} \<and>
     (\<forall>i<length ps. i \<notin> set sent \<and> asks (qs ! i) (ps ! i) \<or> i \<in> set sent \<and> i \<notin> set got \<and> ps ! i = Unlocked \<or> i \<in> set got)"

lemma turns_got_fewer:
  assumes "turns_ok qs st0 sent got ps dev"
  shows "length got \<le> length sent" "i \<in> set sent \<Longrightarrow> i \<notin> set got \<Longrightarrow> length got < length sent"
proof -
  have "distinct sent" "distinct got" "set got \<subseteq> set sent" using assms by (auto simp: turns_ok_def split: prod.splits)
  then show "length got \<le> length sent" "i \<in> set sent \<Longrightarrow> i \<notin> set got \<Longrightarrow> length got < length sent"
    using card_mono [of "set sent" "set got"] psubset_card_mono [of "set sent" "set got"] by (auto simp: distinct_card)
qed

lemma gets_replied: "gets r p \<Longrightarrow> \<not> (\<exists>w n. p = Sending w n) \<and> p \<noteq> Unlocked"
  by (auto simp: gets_def)

lemma turns_phase:
  assumes "turns_ok qs st0 sent got ps dev" "i < length ps"
  shows "ps ! i = Unlocked \<Longrightarrow> i \<in> set sent \<and> i \<notin> set got"
    "ps ! i = Sending w n \<Longrightarrow> i \<notin> set sent \<and> i \<notin> set got \<and> asks (qs ! i) (ps ! i)"
proof -
  have "i \<notin> set got" if "ps ! i = Unlocked \<or> ps ! i = Sending w n"
  proof
    assume "i \<in> set got"
    then obtain k where "k < length got" "got ! k = i" by (auto simp: in_set_conv_nth)
    then show False using assms(1) that by (fastforce simp: turns_ok_def dest: gets_replied split: prod.splits)
  qed
  then show "ps ! i = Unlocked \<Longrightarrow> i \<in> set sent \<and> i \<notin> set got"
    "ps ! i = Sending w n \<Longrightarrow> i \<notin> set sent \<and> i \<notin> set got \<and> asks (qs ! i) (ps ! i)"
    using assms by (auto simp: turns_ok_def asks_def split: prod.splits)
qed

lemma turns_keep:
  assumes "in_turns ps0 dev0 sent got ps dev" "turns_ok qs (firmware (io dev0)) [] [] ps0 dev0"
  shows "turns_ok qs (firmware (io dev0)) sent got ps dev"
  using assms
proof (induction rule: in_turns.induct)
  case (turns_send sent got ps dev i w n p dev')
  let ?st0 = "firmware (io dev0)"
  note ok = turns_send.IH [OF turns_send.prems]
  obtain rs st where rs: "replies (map ((!) qs) sent) ?st0 = (rs, st)" by force
  have len: "length rs = length sent" using length_replies [of "map ((!) qs) sent" ?st0] rs by simp
  have i: "i \<notin> set sent" "i \<notin> set got" "asks (qs ! i) (Sending w n)" "i < length ps" "i < length qs"
    using turns_phase(2) [OF ok turns_send.hyps(2,3)] turns_send.hyps(2,3) ok by (auto simp: turns_ok_def split: prod.splits)
  obtain r st' where r: "serve kServers kMaxPayload (qs ! i) st = (r, st')" by force
  have "turns_line rs (length got) st dev" using ok rs by (simp add: turns_ok_def)
  then have "p = Unlocked" "turns_line (rs @ [r]) (length got) st' dev'"
    using line_send [of rs "length got" st dev n w "qs ! i" uart_read "plain log_call" app_registry] i(3) r turns_send.hyps(4) turns_got_fewer(1) [OF ok] len
    by (auto simp: asks_def)
  moreover have "replies (map ((!) qs) (sent @ [i])) ?st0 = (rs @ [r], st')" using rs r by (simp add: replies_snoc)
  moreover have "got ! k \<noteq> i" if "k < length got" for k using i(2) that nth_mem by blast
  ultimately show ?case using ok rs i len turns_got_fewer(1) [OF ok]
    by (auto simp: turns_ok_def nth_append nth_list_update)
next
  case (turns_await sent got ps dev i p dev')
  let ?st0 = "firmware (io dev0)"
  note ok = turns_await.IH [OF turns_await.prems]
  obtain rs st where rs: "replies (map ((!) qs) sent) ?st0 = (rs, st)" by force
  have len: "length rs = length sent" using length_replies [of "map ((!) qs) sent" ?st0] rs by simp
  have i: "i \<in> set sent" "i \<notin> set got" using turns_phase(1) [OF ok turns_await.hyps(2,3)] by simp_all
  have "turns_line rs (length got) st dev" using ok rs by (simp add: turns_ok_def)
  then obtain f d where f: "alone uart_write uart_read (plain log_call) app_registry Unlocked dev (Replied f) d"
      "frame_wf f" "frame_msg f = (MT_Reply, rs ! length got)" "turns_line rs (Suc (length got)) st d"
    using line_await [of rs "length got" st dev uart_write] turns_got_fewer(2) [OF ok i] len by auto
  have p: "p = Replied f" "dev' = d" using alone_unique [OF f(1) turns_await.hyps(4)] by simp_all
  have "got ! k \<noteq> i" if "k < length got" for k using i(2) that nth_mem by blast
  then show ?case using ok rs i f p turns_await.hyps(2)
    by (auto simp: turns_ok_def gets_def nth_append nth_list_update less_Suc_eq)
next
  case (turns_tick sent got ps dev c u)
  then show ?case using line_tick [OF _ turns_tick.hyps(2)] by (auto simp: turns_ok_def split: prod.splits)
next
  case (turns_cut sent got ps dev gs)
  then show ?case by (auto simp: turns_ok_def turns_line_def line_idle_def split: prod.splits)
qed

lemma turns_from_session:
  assumes "uart.session_ok dev0" "list_all2 asks qs ps0"
  shows "turns_ok qs (firmware (io dev0)) [] [] ps0 dev0"
proof -
  obtain cs h ys xs where i: "uart.in_step dev0 cs h ys xs" using assms(1) by (auto simp: uart.session_ok_def)
  have "list_all on_line (map (Pair MT_Stream) xs)" using i by (auto simp: uart.in_step_def on_line_def list_all_iff)
  moreover have "h @ drop (pending_pos dev0) (pending dev0) @ to_host (io dev0) = wires (map (Pair MT_Stream) xs)"
    using session_line [OF i] by auto
  ultimately have "turns_line [] 0 (firmware (io dev0)) dev0"
    using i unfolding turns_line_def uart.in_step_def
    by (intro conjI exI [of _ h] exI [of _ "map (Pair MT_Stream) xs"]) simp_all
  then show ?thesis using assms(2) by (auto simp: turns_ok_def list_all2_conv_all_nth)
qed

lemma turns_can_send:
  assumes "in_turns ps0 dev0 sent got ps dev" "turns_ok qs st0 sent got ps dev" "i < length ps" "ps ! i = Sending w n"
  shows "\<exists>dev'. in_turns ps0 dev0 (sent @ [i]) got (ps[i := Unlocked]) dev'"
proof -
  obtain rs st where rs: "replies (map ((!) qs) sent) st0 = (rs, st)" by force
  then have "turns_line rs (length got) st dev" "length got \<le> length rs"
    using assms(2) turns_got_fewer(1) [OF assms(2)] length_replies [of "map ((!) qs) sent" st0] by (simp_all add: turns_ok_def)
  then obtain dev' where "thread_step uart_write uart_read (plain log_call) app_registry (Sending w n) dev = Some (Unlocked, dev')"
    using line_send [of rs "length got" st dev n w "qs ! i" uart_read "plain log_call" app_registry]
      turns_phase(2) [OF assms(2-4)] assms(4) by (auto simp: asks_def)
  then show ?thesis using turns_send [OF assms(1,3,4)] by blast
qed

lemma turns_can_await:
  assumes "turns_ok qs st0 sent got ps dev" "i < length ps" "ps ! i = Unlocked"
  shows "\<exists>f dev'. alone uart_write uart_read (plain log_call) app_registry Unlocked dev (Replied f) dev'"
proof -
  obtain rs st where rs: "replies (map ((!) qs) sent) st0 = (rs, st)" by force
  have "length got < length sent" using turns_got_fewer(2) [OF assms(1)] turns_phase(1) [OF assms] by blast
  then have "turns_line rs (length got) st dev" "length got < length rs"
    using assms(1) rs length_replies [of "map ((!) qs) sent" st0]
    by (simp_all add: turns_ok_def)
  then show ?thesis using line_await by blast
qed

section \<open>Properties\<close>

text \<open>C22: a thread that polls while another waits reads the other's reply and drops it, whichever operand
  of the sum in \<open>poll\<close> is evaluated first: the command was carried out and answered, and the call
  returns \<open>TransportError\<close>.\<close>

theorem poll_thread_drops_reply:
  assumes "contract d sa sr" "valid sa a" "length payload0 = kMaxPayload" "length wire0 = kMaxPacket"
    and "reader_ok (reader dev)" "reader_holds (reader dev) = Some []" "pending_pos dev = length (pending dev)"
    and "wr (frame_wire MT_Command (request d sa a)) (io dev) = (Inr (), t)"
    and "rd n t = (Inr (Some (frame_wire MT_Reply r)), t1)" "rd 256 t1 = (Inr (Some []), t2)" "length r \<le> kMaxPayload"
  shows "\<exists>p0 q dev'. call_thread payload0 wire0 d a = Some p0 \<and>
    run_program wr rd cl reg [Run 0, Run 1, Run 1, Run 1, Run 0, Run 0, Run 0] ([p0, Polling n], dev) = Some ([q, Polled 0], dev') \<and>
    run_program wr rd cl reg [Run 0, Run 1, Run 1, Run 0, Run 0, Run 0] ([p0, PollReadFirst n], dev) = Some ([q, Polled 0], dev') \<and>
    call_returns d q = Some (SC_TransportError, tuple_init (RetsTuple d)) \<and> io dev' = t2"
proof -
  have r: "length r \<le> 250" using assms(11) by (simp add: kMaxPayload_def)
  obtain r' where p: "poll_bytes reg (frame_wire MT_Reply r) 0 (dev\<lparr>io := t1, pending := [], pending_pos := 0\<rparr>) =
      Some (Polled 0, dev\<lparr>io := t1, pending := [], pending_pos := 0, reader := r'\<rparr>)"
    using poll_bytes_reply [OF _ _ r, of "dev\<lparr>io := t1, pending := [], pending_pos := 0\<rparr>" reg 0] assms(5,6) by auto
  show ?thesis
    using sending_step [of wr _ dev t rd cl reg wire0, OF assms(8)] assms(7,9,10) p
    by (simp add: call_starts [OF assms(1-4)] read_chunk_def wait_dry no_reply_returns numeral_eq_Suc del: thread_step.simps(1))
qed

text \<open>A transport object that answers at once; nobody has used the device.\<close>

abbreviation mail_device :: "(byte list, PyObj py_args list, unit) PyDevice" where
  "mail_device \<equiv> PyDevice_init [] []"

lemma mail_wires:
  "valid tnil_spec ()" "valid u8_fields (2, ())"
  "length (frame_wire MT_Command (request GetUptimeCmd tnil_spec ())) = 7"
  "length (frame_wire MT_Command (request ReadAdcCmd u8_fields (2, ()))) = 8"
  by (simp_all add: length_frame_wire request_def codec_sel tnil_spec_def tcons_spec_def)

theorem poll_thread_drops_reply_witness:
  "\<exists>p0 q dev'. call_thread zero_payload zero_wire GetUptimeCmd () = Some p0 \<and>
    run_program mail_write mail_read (plain log_call) app_registry [Run 0, Run 1, Run 1, Run 1, Run 0, Run 0, Run 0]
      ([p0, Polling 64], mail_device) = Some ([q, Polled 0], dev') \<and>
    run_program mail_write mail_read (plain log_call) app_registry [Run 0, Run 1, Run 1, Run 0, Run 0, Run 0]
      ([p0, PollReadFirst 64], mail_device) = Some ([q, Polled 0], dev') \<and>
    call_returns GetUptimeCmd q = Some (SC_TransportError, tuple_init (RetsTuple GetUptimeCmd)) \<and> io dev' = []"
  by (rule poll_thread_drops_reply [OF handler_contract.axioms(1) [OF get_uptime.handler_contract_axioms],
        where r = "[SC_Ok, 5, 0, 0, 0]" and ?t1.0 = "[]"])
     (simp_all add: buffers PyDevice_init_def mail_write_def mail_wires mail_read_def kMaxPayload_def)

text \<open>C21: two threads that wait at the same time may both be inside \<open>read\<close>; the one that comes back
  with nothing throws away what the other has just stored. Both commands were answered, both answers
  were received, and the second call returns \<open>TransportError\<close>.\<close>

theorem concurrent_reads_lose_reply:
  assumes "contract d1 sa1 sr1" "valid sa1 a1" "contract d2 sa2 sr2" "valid sa2 a2"
    and "length payload0 = kMaxPayload" "length wire0 = kMaxPacket"
    and "reader_ok (reader dev)" "reader_holds (reader dev) = Some []" "pending_pos dev = length (pending dev)"
    and "wr (frame_wire MT_Command (request d1 sa1 a1)) (io dev) = (Inr (), t1)"
    and "wr (frame_wire MT_Command (request d2 sa2 a2)) t1 = (Inr (), t2)"
    and "rd 256 t2 = (Inr (Some (frame_wire MT_Reply r1 @ frame_wire MT_Reply r2)), t3)" "rd 256 t3 = (Inr (Some []), t4)"
    and "1 \<le> length r1" "length r1 \<le> kMaxPayload"
  shows "\<exists>p1 p2 q1 q2 dev'. call_thread payload0 wire0 d1 a1 = Some p1 \<and> call_thread payload0 wire0 d2 a2 = Some p2 \<and>
    run_program wr rd cl reg [Run 0, Run 1, Run 0, Run 1, Run 0, Run 1, Run 0, Run 1] ([p1, p2], dev) = Some ([q1, q2], dev') \<and>
    call_returns d1 q1 = Some (result_of d1 sr1 r1) \<and>
    call_returns d2 q2 = Some (SC_TransportError, tuple_init (RetsTuple d2)) \<and> pending dev' = [] \<and> io dev' = t4"
proof -
  let ?s = "frame_wire MT_Reply r1 @ frame_wire MT_Reply r2"
  let ?d = "dev\<lparr>io := t4, pending := ?s, pending_pos := 0\<rparr>"
  have r1: "length r1 \<le> 250" using assms(15) by (simp add: kMaxPayload_def)
  obtain r where r: "frame_wf (frame r)" "frame_msg (frame r) = (MT_Reply, r1)"
      "wait reg ?d = Some (Replied (frame r), ?d\<lparr>reader := r, pending_pos := length (frame_wire MT_Reply r1)\<rparr>)"
    using wait_reply [of ?d, OF _ _ r1, of "frame_wire MT_Reply r2" reg] assms(7,8) by auto
  have "frame_wire MT_Reply r1 \<noteq> []" by (simp add: frame_wire_def)
  then show ?thesis
    using sending_step [of wr _ dev t1 rd cl reg wire0, OF assms(10)] sending_step [of wr _ "dev\<lparr>io := t1\<rparr>" t2 rd cl reg wire0] assms(11,9,12,13) r(3)
      replied_returns [OF assms(1) r(1,2) assms(14)]
    by (simp add: Let_def call_starts [OF assms(1,2,5,6)] call_starts [OF assms(3,4,5,6)] read_chunk_def wait_dry no_reply_returns
        numeral_eq_Suc del: thread_step.simps(1))
qed

theorem concurrent_reads_lose_reply_witness:
  "\<exists>p1 p2 q1 q2 dev'. call_thread zero_payload zero_wire GetUptimeCmd () = Some p1 \<and>
    call_thread zero_payload zero_wire ReadAdcCmd (2, ()) = Some p2 \<and>
    run_program mail_write mail_read (plain log_call) app_registry [Run 0, Run 1, Run 0, Run 1, Run 0, Run 1, Run 0, Run 1]
      ([p1, p2], mail_device) = Some ([q1, q2], dev') \<and>
    call_returns GetUptimeCmd q1 = Some (result_of GetUptimeCmd u32_fields [SC_Ok, 5, 0, 0, 0]) \<and>
    call_returns ReadAdcCmd q2 = Some (SC_TransportError, tuple_init (RetsTuple ReadAdcCmd)) \<and> pending dev' = [] \<and> io dev' = []"
  by (rule concurrent_reads_lose_reply [OF handler_contract.axioms(1) [OF get_uptime.handler_contract_axioms] _
        handler_contract.axioms(1) [OF read_adc.handler_contract_axioms],
        where ?r1.0 = "[SC_Ok, 5, 0, 0, 0]" and ?r2.0 = "[SC_Ok, 0, 2]" and ?t3.0 = "[]"])
     (simp_all add: buffers PyDevice_init_def mail_write_def mail_wires mail_read_def kMaxPayload_def)

text \<open>C20: as long as each \<open>await_reply\<close> runs uninterrupted from its start to its end (nobody else reads the
  line while a thread is inside \<open>read\<close>; sends, and awaits of different threads, come in any order), with
  telemetry under way and from any state of a session: the thread that is the \<open>k\<close>th to await gets the
  reply to the \<open>k\<close>th command that was sent, and a thread that has sent can await and gets a reply.
  So a call returns its own reply if the threads await in the order in which they sent, and
  another's otherwise. The code does not enforce the condition, and without it replies are lost:
  \<open>concurrent_reads_lose_reply\<close>, \<open>poll_thread_drops_reply\<close>.\<close>

theorem replies_in_order:
  assumes "reachable payload0 wire0 py pb dev0" "length payload0 = kMaxPayload" "length wire0 = kMaxPacket"
    and "list_all2 asks qs ps0" "in_turns ps0 dev0 sent got ps dev"
  shows "length got \<le> length sent \<and>
    (\<forall>k<length got. gets (fst (replies (map ((!) qs) sent) (firmware (io dev0))) ! k) (ps ! (got ! k))) \<and>
    (\<forall>i<length ps. ps ! i = Unlocked \<longrightarrow>
      (\<exists>f dev'. alone uart_write uart_read (plain log_call) app_registry Unlocked dev (Replied f) dev'))"
proof -
  note ok = turns_keep [OF assms(5) turns_from_session [OF reachable_session [OF assms(1-3)] assms(4)]]
  have "\<forall>k<length got. gets (fst (replies (map ((!) qs) sent) (firmware (io dev0))) ! k) (ps ! (got ! k))"
    using ok by (auto simp: turns_ok_def split: prod.splits)
  then show ?thesis using turns_got_fewer(1) [OF ok] turns_can_await [OF ok] by blast
qed

text \<open>Thread 0 sends \<open>get_uptime_ms\<close>, thread 1 \<open>read_adc\<close>, and thread 1 is the first to await.\<close>

definition two_requests :: "byte list list" where
  "two_requests = [request GetUptimeCmd tnil_spec (), request ReadAdcCmd u8_fields (2, ())]"

definition two_threads :: "(unit, PyObj) phase list" where
  "two_threads = map (\<lambda>q. Sending (frame_wire MT_Command q) (length (frame_wire MT_Command q))) two_requests"

lemma two_threads_ask: "list_all2 asks two_requests two_threads"
  by (simp add: two_threads_def two_requests_def asks_def request_def codec_sel tnil_spec_def tcons_spec_def kMaxPayload_def)

lemma swapped_turns: "\<exists>f g dev. in_turns two_threads host_start [0, 1] [1, 0] [Replied f, Replied g] dev"
proof -
  note ok = turns_keep [OF _ turns_from_session [OF session_start two_threads_ask]]
  let ?S = "\<lambda>k. Sending (frame_wire MT_Command (two_requests ! k)) (length (frame_wire MT_Command (two_requests ! k))) :: (unit, PyObj) phase"
  have start: "two_threads = [?S 0, ?S 1]" by (simp add: two_threads_def two_requests_def)
  have s0: "in_turns two_threads host_start [] [] [?S 0, ?S 1] host_start" using turns_start [of two_threads host_start] by (simp only: start)
  obtain d1 where s1: "in_turns two_threads host_start [0] [] [Unlocked, ?S 1] d1"
    using turns_can_send [OF s0 ok [OF s0], of 0] by auto
  obtain d2 where s2: "in_turns two_threads host_start [0, 1] [] [Unlocked, Unlocked] d2"
    using turns_can_send [OF s1 ok [OF s1], of 1] by auto
  obtain g d3 where "alone uart_write uart_read (plain log_call) app_registry Unlocked d2 (Replied g) d3"
    using turns_can_await [OF ok [OF s2], of 1] by auto
  from turns_await [OF s2 _ _ this, of 1] have s3: "in_turns two_threads host_start [0, 1] [1] [Unlocked, Replied g] d3" by simp
  obtain f d4 where "alone uart_write uart_read (plain log_call) app_registry Unlocked d3 (Replied f) d4"
    using turns_can_await [OF ok [OF s3], of 0] by auto
  from turns_await [OF s3 _ _ this, of 0] show ?thesis by auto
qed

theorem replies_in_order_witness:
  "\<exists>f g dev. in_turns two_threads host_start [0, 1] [1, 0] [Replied f, Replied g] dev \<and>
    gets (fst (replies two_requests Device_boot) ! 0) (Replied g) \<and> gets (fst (replies two_requests Device_boot) ! 1) (Replied f)"
proof -
  obtain f g dev where t: "in_turns two_threads host_start [0, 1] [1, 0] [Replied f, Replied g] dev" using swapped_turns by blast
  have "map ((!) two_requests) [0, 1] = two_requests" by (simp add: two_requests_def)
  moreover have "firmware (io host_start) = Device_boot" by (simp add: host_start_def on_def PyDevice_init_def Uart_boot_def)
  ultimately show ?thesis
    using replies_in_order [OF reachable.start [of zero_payload zero_wire] buffers two_threads_ask t] t
    by (auto simp: less_Suc_eq)
qed

end
