(* ===== verification/Noise.thy ===== *)
theory Noise
  imports Reentrant
begin

text \<open>
  The session of \<open>Session\<close> on a line that damages packets, in both directions: in place of a packet
  there arrive any bytes in which the receiver, with what it holds already, recognises no frame
  (\<open>unheard\<close>: nothing at all, a packet whose CRC, length or code no longer fits, a region that is too
  long, the inside of a packet without its delimiter). The receiver may be left in the middle of a
  region. What a command does when it, or the reply to it, is lost; what is left of it; that
  the host's view of the telemetry stays a truthful one; and that one delimiter mends the line.
\<close>

section \<open>Damage\<close>

definition unheard :: "held \<Rightarrow> byte list \<Rightarrow> bool" where
  "unheard h g \<longleftrightarrow> fst (rx_msgs h g) = []"

lemma unheard_nothing [simp]: "unheard h []"
  by (simp add: unheard_def)

text \<open>What the checksum detects is not recognised: one or two neighbouring bytes of a raw block changed.\<close>

lemma damaged_unheard:
  assumes "length ps \<le> 250" "Suc i < length ps + 4" "i \<noteq> length ps + 1"
    and "(frame_raw t ps)[i := a, Suc i := b] \<noteq> frame_raw t ps"
  shows "unheard (Some []) (cobs_encoding ((frame_raw t ps)[i := a, Suc i := b]) @ [kDelimiter])"
proof -
  let ?raw = "(frame_raw t ps)[i := a, Suc i := b]"
  have bad: "fst (frame_check ?raw) \<noteq> Frame_Ok" by (rule frame_check_corrupted [OF assms(2-4)])
  have "length (cobs_encoding ?raw) \<le> 255" using assms(1) by (simp add: length_cobs_encoding_small)
  then have "rx_msgs (Some []) (cobs_encoding ?raw) = ([], Some (cobs_encoding ?raw))"
    using rx_msgs_nonzero [OF cobs_io.code_no_zero, of "[]"] by simp
  then show ?thesis using bad by (simp add: unheard_def rx_msgs_append region_msg_def cobs_io.uncode_code)
qed

text \<open>Bytes without a delimiter are not recognised, whatever came before; nor is a region of more than
  255 bytes.\<close>

lemma no_delimiter_unheard: "0 \<notin> set s \<Longrightarrow> unheard h s"
  unfolding unheard_def by (induction s arbitrary: h) (auto simp: kDelimiter_def)

lemma rx_msgs_long: "\<lbrakk>0 \<notin> set s; 255 < length h + length s\<rbrakk> \<Longrightarrow> length h \<le> 255 \<Longrightarrow> rx_msgs (Some h) s = ([], None)"
proof (induction s arbitrary: h)
  case (Cons b s)
  show ?case
  proof (cases "length h < 255")
    case False
    have "rx_msgs None s = ([], None)" if "0 \<notin> set s" for s
      using that by (induction s) (auto simp: hold_def kDelimiter_def)
    then show ?thesis using Cons.prems False by (simp add: hold_def kDelimiter_def)
  qed (use Cons in \<open>auto simp: hold_def kDelimiter_def\<close>)
qed simp

lemma long_unheard: "\<lbrakk>0 \<notin> set s; 255 < length s\<rbrakk> \<Longrightarrow> unheard (Some []) (s @ [kDelimiter])"
  using rx_msgs_long [of s "[]"] by (simp add: unheard_def rx_msgs_append)

text \<open>A packet that has lost its delimiter, and whatever follows it up to the next one: the two
  make one region, which is too long or whose length byte is that of the first part only.\<close>

lemma cobs_unblock_append:
  "\<lbrakk>cobs_unblock xs = Some raw; xs \<noteq> []; ys \<noteq> []; length xs < 255\<rbrakk> \<Longrightarrow>
   cobs_unblock (xs @ ys) = map_option (\<lambda>r. raw @ 0 # r) (cobs_unblock ys)"
proof (induction xs arbitrary: raw rule: cobs_unblock.induct)
  case (2 c zs)
  let ?n = "unat c - 1"
  have c: "c \<noteq> 0" "?n \<le> length zs" using "2.prems"(1) by (auto simp: Let_def split: if_splits)
  have ff: "c \<noteq> 0xFF" using c(2) "2.prems"(4) by auto
  obtain r where r: "cobs_unblock (drop ?n zs) = Some r" "raw = take ?n zs @ (if drop ?n zs \<noteq> [] then [0] else []) @ r"
    using "2.prems"(1) c ff by (auto simp: cobs_unblock_Cons simp del: cobs_unblock.simps)
  show ?case
  proof (cases "drop ?n zs = []")
    case True
    then have "drop ?n (zs @ ys) = ys" "take ?n (zs @ ys) = zs" "r = []" "raw = zs" using c(2) r by simp_all
    then show ?thesis using c ff "2.prems"(3)
      by (simp add: cobs_unblock_Cons option.map_comp o_def del: cobs_unblock.simps)
  next
    case False
    have "cobs_unblock (drop ?n zs @ ys) = map_option (\<lambda>q. r @ 0 # q) (cobs_unblock ys)"
      using "2.IH" [OF refl refl refl, of r] c r(1) False "2.prems"(3,4) by auto
    then show ?thesis using c ff r False
      by (simp add: cobs_unblock_Cons option.map_comp o_def del: cobs_unblock.simps)
  qed
qed simp

lemma run_on_unheard:
  assumes "length ps \<le> 250" "ys \<noteq> []" "0 \<notin> set ys"
  shows "rx_msgs (Some (cobs_encoding (frame_raw t ps))) (ys @ [kDelimiter]) = ([], Some [])"
proof (cases "length (cobs_encoding (frame_raw t ps)) + length ys \<le> 255")
  case True
  let ?code = "cobs_encoding (frame_raw t ps)"
  have "?code \<noteq> []" "length ?code < 255"
    using True assms(1,2) length_cobs_encoding_small [of "frame_raw t ps"] by (cases ys; auto)+
  then have un: "cobs_unblock (?code @ ys) = map_option (\<lambda>r. frame_raw t ps @ 0 # r) (cobs_unblock ys)"
    by (intro cobs_unblock_append cobs_io.uncode_code assms)
  have "fst (frame_check (frame_raw t ps @ 0 # r)) \<noteq> Frame_Ok" for r
    using assms(1) unat_of_nat_byte [of "length ps"] by (simp add: frame_check_def nth_append)
  then have "region_msg (Some (?code @ ys)) = None" by (auto simp: region_msg_def un split: option.splits)
  then show ?thesis using rx_msgs_nonzero [OF assms(3) True] by (simp add: rx_msgs_append)
next
  case False
  have "rx_msgs (Some (cobs_encoding (frame_raw t ps))) ys = ([], None)"
    using False assms by (intro rx_msgs_long) (simp_all add: length_cobs_encoding_small)
  then show ?thesis by (simp add: rx_msgs_append)
qed

lemma merged_unheard:
  assumes "length ps \<le> 250" "length ps' \<le> 250"
  shows "rx_msgs (Some (cobs_encoding (frame_raw t ps))) (frame_wire t' ps') = ([], Some [])"
proof -
  have "cobs_encoding (frame_raw t' ps') \<noteq> []" using assms(2) length_cobs_encoding_small [of "frame_raw t' ps'"] by auto
  from run_on_unheard [OF assms(1) this cobs_io.code_no_zero] show ?thesis by (simp add: frame_wire_def)
qed

definition arrives :: "byte list option \<Rightarrow> byte list \<Rightarrow> byte list" where
  "arrives fate bs = (case fate of None \<Rightarrow> bs | Some g \<Rightarrow> g)"

text \<open>A packet either arrives whole, at a moment when the receiver is at the start of a region, or
  something arrives in which the receiver recognises nothing. A whole packet that runs into the
  remains of a damaged one is of the second kind: what arrives are its own bytes.\<close>

definition fate_ok :: "held \<Rightarrow> byte list option \<Rightarrow> bool" where
  "fate_ok h fate \<longleftrightarrow> (case fate of None \<Rightarrow> h = Some [] | Some g \<Rightarrow> unheard h g)"

text \<open>A write on this line: the fate of the command, and the fate of the reply if there is one.\<close>

definition noisy_write :: "byte list option \<Rightarrow> byte list option \<Rightarrow> Uart py_write" where
  "noisy_write fc fr bs u =
     (let bs = arrives fc bs in
      case device_handle_packet zero_payload bs (length bs) wire_buffer kMaxPacket (firmware u) of
        None \<Rightarrow> (Inl PyException, u)
      | Some (n, wire, fw) \<Rightarrow>
          (Inr (), u\<lparr>to_host := to_host u @ (if n = 0 then [] else arrives fr (take n wire)), firmware := fw\<rparr>))"

lemma noisy_write_intact: "noisy_write None None = uart_write"
  by (intro ext) (auto simp: noisy_write_def uart_write_def arrives_def split: option.splits)

lemma noisy_command_lost:
  assumes "line_idle u" "unheard (Some []) g"
  shows "noisy_write (Some g) fr bs u = (Inr (), u)"
proof -
  have "device_answer g (firmware u) = (None, firmware u)" using assms(2) by (simp add: device_answer_def unheard_def)
  moreover obtain n d st' where "device_handle_packet zero_payload g (length g) wire_buffer kMaxPacket (firmware u) = Some (n, d, st')"
      "snd (device_answer (take (length g) g) (firmware u)) = st'"
      "fst (device_answer (take (length g) g) (firmware u)) = None \<longrightarrow> n = 0"
    using device_handle_packet_answer [of zero_payload "length g" g kMaxPacket wire_buffer "firmware u"] assms(1)
    by (auto simp: zero_payload_def wire_buffer_def line_idle_def split: option.splits)
  ultimately show ?thesis by (simp add: noisy_write_def arrives_def)
qed

lemma noisy_command_arrives:
  assumes "line_idle u" "length ps \<le> kMaxPayload"
  shows "\<exists>rs fw. noisy_write None fr (frame_wire MT_Command ps) u =
      (Inr (), u\<lparr>to_host := to_host u @ arrives fr (frame_wire MT_Reply rs), firmware := fw\<rparr>) \<and> dev_ok fw \<and>
    serve kServers kMaxPayload ps (firmware u) = (rs, fw) \<and> 1 \<le> length rs \<and> length rs \<le> kMaxPayload"
proof -
  obtain rs u' where a: "uart_write (frame_wire MT_Command ps) u = (Inr (), u')"
      "u' = u\<lparr>to_host := to_host u @ frame_wire MT_Reply rs, firmware := firmware u'\<rparr>" "line_idle u'"
      "serve kServers kMaxPayload ps (firmware u) = (rs, firmware u')" "1 \<le> length rs" "length rs \<le> kMaxPayload"
    using uart_answers [OF assms] by blast
  obtain n wire fw where h: "device_handle_packet zero_payload (frame_wire MT_Command ps) (length (frame_wire MT_Command ps))
      wire_buffer kMaxPacket (firmware u) = Some (n, wire, fw)" "u' = u\<lparr>to_host := to_host u @ take n wire, firmware := fw\<rparr>"
    using a(1) by (auto simp: uart_write_def split: option.splits)
  have "to_host u' = to_host u @ frame_wire MT_Reply rs" using arg_cong [OF a(2), of to_host] by simp
  then have "take n wire = frame_wire MT_Reply rs" "fw = firmware u'" using h(2) by simp_all
  moreover from this have "n \<noteq> 0" by (cases n) (auto simp: frame_wire_def)
  ultimately show ?thesis using a(3-6) h(1) by (cases fr) (auto simp: noisy_write_def arrives_def line_idle_def)
qed

section \<open>What the host makes of a line\<close>

lemma host_rx_msgs:
  "\<lbrakk>rx_msgs h s = (map (Pair MT_Stream) xs, h'); \<And>x w. x \<in> set xs \<Longrightarrow> fst (deliver cl rs cbs x w) = Inr True\<rbrakk> \<Longrightarrow>
   host_rx wait cl rs cbs h s n w = (Inr (None, n + length xs), deliveries cl rs cbs xs w, h', [])"
proof (induction s arbitrary: h xs n w)
  case Nil
  then show ?case by (simp add: deliveries_def)
next
  case (Cons b s)
  show ?case
  proof (cases "b = kDelimiter")
    case False
    then show ?thesis using Cons by simp
  next
    case True
    have ne: "MT_Stream \<noteq> MT_Reply" by (simp add: message_types)
    show ?thesis
    proof (cases "region_msg h")
      case None
      then show ?thesis using Cons True by (auto split: prod.splits)
    next
      case (Some m)
      then obtain x xs' where xs: "xs = x # xs'" "m = (MT_Stream, x)" "rx_msgs (Some []) s = (map (Pair MT_Stream) xs', h')"
        using Cons.prems(1) True by (cases xs) (auto split: prod.splits)
      obtain w' where d: "deliver cl rs cbs x w = (Inr True, w')"
        using Cons.prems(2) [of x w] xs(1) by (cases "deliver cl rs cbs x w") auto
      have IH: "host_rx wait cl rs cbs (Some []) s (Suc n) w' = (Inr (None, Suc n + length xs'), deliveries cl rs cbs xs' w', h', [])"
        using Cons.IH [OF xs(3)] Cons.prems(2) xs(1) by simp
      then show ?thesis using True Some xs d ne by (simp add: deliveries_Cons)
    qed
  qed
qed

lemma host_rx_reply:
  "\<lbrakk>rx_msgs h s = (map (Pair MT_Stream) xs @ (MT_Reply, ps) # ms, h'); \<And>x w. x \<in> set xs \<Longrightarrow> fst (deliver cl rs cbs x w) = Inr True\<rbrakk> \<Longrightarrow>
   \<exists>rest. host_rx True cl rs cbs h s n w = (Inr (Some ps, n + length xs), deliveries cl rs cbs xs w, Some [], rest) \<and>
     rx_msgs (Some []) rest = (ms, h')"
proof (induction s arbitrary: h xs n w)
  case (Cons b s)
  show ?case
  proof (cases "b = kDelimiter")
    case False
    then show ?thesis using Cons by simp
  next
    case True
    have ne: "MT_Stream \<noteq> MT_Reply" by (simp add: message_types)
    show ?thesis
    proof (cases "region_msg h")
      case None
      then show ?thesis using Cons True by (auto split: prod.splits)
    next
      case (Some m)
      show ?thesis
      proof (cases xs)
        case Nil
        then show ?thesis using Cons.prems(1) True Some by (auto simp: deliveries_def split: prod.splits)
      next
        case (Cons x xs')
        then have m: "m = (MT_Stream, x)" "rx_msgs (Some []) s = (map (Pair MT_Stream) xs' @ (MT_Reply, ps) # ms, h')"
          using Cons.prems(1) True Some by (auto split: prod.splits)
        obtain w' where d: "deliver cl rs cbs x w = (Inr True, w')"
          using Cons.prems(2) [of x w] Cons by (cases "deliver cl rs cbs x w") auto
        obtain rest where "host_rx True cl rs cbs (Some []) s (Suc n) w' = (Inr (Some ps, Suc n + length xs'), deliveries cl rs cbs xs' w', Some [], rest)"
            "rx_msgs (Some []) rest = (ms, h')"
          using Cons.IH [OF m(2), of "Suc n" w'] Cons.prems(2) Cons by auto
        then show ?thesis using True Some m d ne Cons by (auto simp: deliveries_Cons)
      qed
    qed
  qed
qed simp

text \<open>Giving up: the last read has returned nothing, and nothing is pending.\<close>

lemma await_none_dry:
  assumes "await_loop rd cl reg dev = Some res" "fst res = Inr None"
  shows "\<exists>t q. rd 256 t = (Inr q, io (snd res)) \<and> (q = None \<or> q = Some []) \<and> pending (snd res) = [] \<and> pending_pos (snd res) = 0"
proof -
  have "fst res = Inr None \<longrightarrow>
    (\<exists>t q. rd 256 t = (Inr q, io (snd res)) \<and> (q = None \<or> q = Some []) \<and> pending (snd res) = [] \<and> pending_pos (snd res) = 0)"
  proof (rule await_loop.raw_induct [OF _ assms(1)], intro impI, unfold await_body)
    fix loop rd cl reg and dev :: "('a, 'b, 'c) PyDevice" and res
    assume IH: "\<And>rd cl reg dev res. loop rd cl reg dev = Some res \<Longrightarrow> fst res = Inr None \<longrightarrow>
        (\<exists>t q. rd 256 t = (Inr q, io (snd res)) \<and> (q = None \<or> q = Some []) \<and> pending (snd res) = [] \<and> pending_pos (snd res) = 0)"
      and run: "next_byte rd dev \<bind> (\<lambda>(r, dev). case r of
          Inl e \<Rightarrow> Some (Inl e, dev)
        | Inr None \<Rightarrow> Some (Inr None, dev)
        | Inr (Some b) \<Rightarrow> await_byte cl reg b dev \<bind>
            (\<lambda>(q, dev). case q of Inr None \<Rightarrow> loop rd cl reg dev | _ \<Rightarrow> Some (q, dev))) = Some res"
      and res: "fst res = Inr None"
    obtain r d1 where nb: "next_byte rd dev = Some (r, d1)" using run by (cases "next_byte rd dev") auto
    show "\<exists>t q. rd 256 t = (Inr q, io (snd res)) \<and> (q = None \<or> q = Some []) \<and> pending (snd res) = [] \<and> pending_pos (snd res) = 0"
    proof (cases "r = Inr None")
      case True
      then have "res = (Inr None, d1)" using run nb by simp
      then show ?thesis using nb True
        by (intro exI [of _ "io dev"]) (auto simp: next_byte_def read_chunk_def take_byte_def Let_def split: if_splits prod.splits sum.splits option.splits bind_splits)
    next
      case False
      then obtain b q d2 where b: "r = Inr (Some b)" "await_byte cl reg b d1 = Some (q, d2)"
          "(case q of Inr None \<Rightarrow> loop rd cl reg d2 | _ \<Rightarrow> Some (q, d2)) = Some res"
        using run nb res by (auto split: bind_splits sum.splits option.splits)
      then have "loop rd cl reg d2 = Some res" using res by (auto split: sum.splits option.splits)
      then show ?thesis using IH res by blast
    qed
  qed
  then show ?thesis using assms(2) by blast
qed

section \<open>The invariant\<close>

text \<open>\<open>coming\<close>: what a receiver will make of the bytes under way, from what the reader holds.\<close>

definition coming :: "Host \<Rightarrow> message list \<times> held" where
  "coming dev = rx_msgs (reader_holds (reader dev)) (drop (pending_pos dev) (pending dev) @ to_host (io dev))"

definition telemetry_msgs :: "32 word list \<Rightarrow> message list" where
  "telemetry_msgs cs = map (Pair MT_Stream) (map telemetry_payload cs)"

definition host_sound :: "Host \<Rightarrow> bool" where
  "host_sound dev \<longleftrightarrow> reader_ok (reader dev) \<and> pending_pos dev \<le> length (pending dev) \<and> callbacks dev = the_callbacks \<and>
     dev_ok (firmware (io dev))"

definition noisy_ok :: "Host \<Rightarrow> bool" where
  "noisy_ok dev \<longleftrightarrow> host_sound dev \<and>
     (\<exists>us vs h. emitted (io dev) = us @ vs \<and> world dev = map telemetry_args us \<and> coming dev = (telemetry_msgs vs, h))"

lemma noisy_start: "noisy_ok host_start"
  by (simp add: noisy_ok_def host_sound_def coming_def telemetry_msgs_def host_start_def on_def PyDevice_init_def Uart_boot_def the_callbacks_def fun_eq_iff)

lemma noisy_await:
  assumes "host_sound dev" "world dev = map telemetry_args us" "emitted (io dev) = us @ vs"
    and "coming dev = (telemetry_msgs vs @ (case r of None \<Rightarrow> [] | Some ps \<Rightarrow> [(MT_Reply, ps)]), h)"
  shows "\<exists>q dev'. await_loop uart_read (plain log_call) app_registry dev = Some (Inr q, dev') \<and> noisy_ok dev' \<and>
    world dev' = map telemetry_args (us @ vs) \<and> coming dev' = ([], h) \<and> firmware (io dev') = firmware (io dev) \<and>
    (case r of None \<Rightarrow> q = None | Some ps \<Rightarrow> \<exists>f. q = Some f \<and> frame_wf f \<and> frame_msg f = (MT_Reply, ps))"
proof -
  obtain cs where cs: "supplies uart_read cs (io dev)" "concat cs = to_host (io dev)" using uart_supplies by blast
  let ?xs = "map telemetry_payload vs"
  have rx: "rx_msgs (reader_holds (reader dev)) (unread dev cs) =
      (map (Pair MT_Stream) ?xs @ (case r of None \<Rightarrow> [] | Some ps \<Rightarrow> [(MT_Reply, ps)]), h)"
    using assms(4) cs(2) by (simp add: coming_def unread_def telemetry_msgs_def)
  have ok: "reader_ok (reader dev)" "callbacks dev = the_callbacks" using assms(1) by (simp_all add: host_sound_def)
  obtain q dev' where run: "await_loop uart_read (plain log_call) app_registry dev = Some (q, dev')" "reader_ok (reader dev')"
      "callbacks dev' = the_callbacks" "case host_rx True log_call app_decoders the_callbacks (reader_holds (reader dev)) (unread dev cs) 0 (world dev) of
        (res, w, h, rest) \<Rightarrow> world dev' = w \<and> reader_holds (reader dev') = h \<and>
          (case res of Inl e \<Rightarrow> q = Inl e \<and> (\<exists>cs'. supplies uart_read cs' (io dev') \<and> unread dev' cs' = rest)
           | Inr (None, k) \<Rightarrow> q = Inr None
           | Inr (Some ps, k) \<Rightarrow> (\<exists>f. q = Inr (Some f) \<and> frame_wf f \<and> frame_msg f = (MT_Reply, ps)) \<and>
               (\<exists>cs'. supplies uart_read cs' (io dev') \<and> unread dev' cs' = rest))"
    using app_reg.await_loop_refines [OF ok(1) cs(1), of log_call 0] ok(2) by auto
  have del: "\<And>x w. x \<in> set ?xs \<Longrightarrow> fst (deliver log_call app_decoders the_callbacks x w) = Inr True"
    by (auto simp: deliver_telemetry)
  let ?P = "\<lambda>u. firmware u = firmware (io dev) \<and> emitted u = emitted (io dev)"
  let ?I = "\<lambda>d. ?P (io d) \<and> pending_pos d \<le> length (pending d)"
  have "?I (snd (q, dev'))"
  proof (rule await_loop_keeps [OF run(1), of ?I])
    show "?I d'" if "?I d" "next_byte uart_read d = Some (r, d')" for d r d'
      using next_byte_keeps [OF that(2), of ?P] that(1) by (auto simp: uart_read_def)
  qed (use assms(1) in \<open>auto simp: plain_def host_sound_def split: prod.splits\<close>)
  then have keeps: "firmware (io dev') = firmware (io dev)" "emitted (io dev') = us @ vs" "pending_pos dev' \<le> length (pending dev')"
    using assms(3) by simp_all
  have sound: "host_sound dev'" using run(2,3) keeps assms(1) by (simp add: host_sound_def)
  have "world dev' = map telemetry_args (us @ vs) \<and> coming dev' = ([], h) \<and>
    (case r of None \<Rightarrow> q = Inr None | Some ps \<Rightarrow> \<exists>f. q = Inr (Some f) \<and> frame_wf f \<and> frame_msg f = (MT_Reply, ps))"
  proof (cases r)
    case None
    have "rx_msgs (reader_holds (reader dev)) (unread dev cs) = (map (Pair MT_Stream) ?xs, h)" using rx None by simp
    from host_rx_msgs [OF this del, of True 0 "world dev"]
    have "world dev' = deliveries log_call app_decoders the_callbacks ?xs (world dev)" "reader_holds (reader dev') = h" "q = Inr None"
      using run(4) by simp_all
    moreover from this(3) obtain t r where "uart_read 256 t = (Inr r, io dev')" "r = None \<or> r = Some []" "pending dev' = []"
      using await_none_dry [OF run(1)] by auto
    moreover from this(1,2) have "to_host (io dev') = []" using uart_read_takes [of 256 t] by auto
    ultimately show ?thesis using None assms(2) by (simp add: deliveries_telemetry coming_def)
  next
    case (Some ps)
    have "rx_msgs (reader_holds (reader dev)) (unread dev cs) = (map (Pair MT_Stream) ?xs @ (MT_Reply, ps) # [], h)"
      using rx Some by simp
    from host_rx_reply [OF this del, of 0 "world dev"] obtain rest where
      "host_rx True log_call app_decoders the_callbacks (reader_holds (reader dev)) (unread dev cs) 0 (world dev) =
        (Inr (Some ps, 0 + length ?xs), deliveries log_call app_decoders the_callbacks ?xs (world dev), Some [], rest)"
      "rx_msgs (Some []) rest = ([], h)" by blast
    then show ?thesis using run(4) Some assms(2)
      by (auto simp: deliveries_telemetry coming_def unread_def dest: supplies_uart)
  qed
  then show ?thesis using run(1) sound keeps by (auto simp: noisy_ok_def telemetry_msgs_def split: option.splits)
qed

section \<open>A command\<close>

lemma served_answer:
  assumes "handler_contract d sa sr fn dev_ok" "map_of kServers (def_opcode d) = Some (answer sa sr fn)"
    and "valid sa a" "dev_ok st"
  shows "\<exists>c r st'. fn (canon sa a) st = Some ((c, r), st') \<and> dev_ok st' \<and> valid sr r \<and>
    serve kServers kMaxPayload (request d sa a) st = (c # ser sr r, st') \<and>
    result_of d sr (c # ser sr r) = (c, if c = SC_Ok then canon sr r else tuple_init (RetsTuple d))"
proof -
  note con = handler_contract.axioms(1) [OF assms(1)]
  note packs = contract.axioms(1,2) [OF con]
  obtain c r st' where fn: "fn (canon sa a) st = Some ((c, r), st')" "valid sr r" "dev_ok st'"
    using handler_contract.handler_total [OF assms(1,4)] pack.canon_valid [OF packs(1) assms(3)] by blast
  have "length (ser sr r) \<le> kMaxPayload - 1" using pack.ser_bound [OF packs(2) fn(2)] contract.rets_budget [OF con] by simp
  then have "serve kServers kMaxPayload (request d sa a) st = (c # ser sr r, st')"
    using assms(2) fn pack.parse_ser [OF packs(1) assms(3)] by (simp add: serve_def request_def answer_def)
  then show ?thesis using fn contract.result_of_answer [OF con fn(2), of c] by blast
qed

text \<open>Both packets of an exchange arrive; the bytes that come back otherwise.\<close>

definition heard :: "held \<Rightarrow> byte list option \<Rightarrow> byte list option \<Rightarrow> bool" where
  "heard h fc fr \<longleftrightarrow> fc = None \<and> fr = None \<and> h = Some []"

definition comes_back :: "byte list option \<Rightarrow> byte list option \<Rightarrow> byte list \<Rightarrow> byte list" where
  "comes_back fc fr rs = (if fc = None then arrives fr (frame_wire MT_Reply rs) else [])"

lemma coming_puts:
  "coming (dev\<lparr>io := (io dev)\<lparr>to_host := to_host (io dev) @ g, firmware := fw\<rparr>\<rparr>) =
    (case coming dev of (ms, h) \<Rightarrow> case rx_msgs h g of (ms', h') \<Rightarrow> (ms @ ms', h'))"
proof -
  have "coming (dev\<lparr>io := (io dev)\<lparr>to_host := to_host (io dev) @ g, firmware := fw\<rparr>\<rparr>) =
      rx_msgs (reader_holds (reader dev)) ((drop (pending_pos dev) (pending dev) @ to_host (io dev)) @ g)"
    by (simp add: coming_def)
  then show ?thesis by (simp only: rx_msgs_append coming_def)
qed

lemma noisy_exchange:
  assumes "handler_contract d sa sr fn dev_ok" "map_of kServers (def_opcode d) = Some (answer sa sr fn)" "valid sa a"
    and "noisy_ok dev" "length payload0 = kMaxPayload" "length wire0 = kMaxPacket"
    and fn: "fn (canon sa a) (firmware (io dev)) = Some ((c, r), st')"
    and fc: "case fc of None \<Rightarrow> True | Some g \<Rightarrow> unheard (Some []) g"
    and fr: "heard (snd (coming dev)) fc fr \<or> unheard (snd (coming dev)) (comes_back fc fr (c # ser sr r))"
  shows "\<exists>dev'. valid sr r \<and> noisy_ok dev' \<and>
    call payload0 wire0 (py_sender (noisy_write fc fr)) (py_awaiter uart_read (plain log_call) app_registry) d a dev =
      Some (if heard (snd (coming dev)) fc fr then (c, if c = SC_Ok then canon sr r else tuple_init (RetsTuple d))
        else (SC_TransportError, tuple_init (RetsTuple d)), dev') \<and>
    firmware (io dev') = (if fc = None then st' else firmware (io dev)) \<and>
    emitted (io dev') = emitted (io dev) \<and> world dev' = map telemetry_args (emitted (io dev)) \<and>
    coming dev' = ([], snd (rx_msgs (snd (coming dev)) (comes_back fc fr (c # ser sr r))))"
proof -
  let ?w = "frame_wire MT_Command (request d sa a)" and ?init = "tuple_init (RetsTuple d)" and ?rs = "c # ser sr r"
  let ?aw = "py_awaiter uart_read (plain log_call) app_registry" and ?heard = "heard (snd (coming dev)) fc fr"
  note con = handler_contract.axioms(1) [OF assms(1)]
  obtain us vs h where inv: "host_sound dev" "emitted (io dev) = us @ vs" "world dev = map telemetry_args us"
      "coming dev = (telemetry_msgs vs, h)" using assms(4) by (auto simp: noisy_ok_def)
  have idle: "line_idle (io dev)" "dev_ok (firmware (io dev))" using inv(1) by (simp_all add: host_sound_def line_idle_def)
  have served: "dev_ok st'" "valid sr r" "serve kServers kMaxPayload (request d sa a) (firmware (io dev)) = (?rs, st')"
      "result_of d sr ?rs = (c, if c = SC_Ok then canon sr r else ?init)"
    using served_answer [OF assms(1-3) idle(2)] fn by auto
  have ps: "length (request d sa a) \<le> kMaxPayload" by (rule contract.request_bound [OF con assms(3)])
  let ?fw = "if fc = None then st' else firmware (io dev)" and ?answer = "comes_back fc fr ?rs"
  let ?d = "dev\<lparr>io := (io dev)\<lparr>to_host := to_host (io dev) @ ?answer, firmware := ?fw\<rparr>\<rparr>"
  have sends: "noisy_write fc fr ?w (io dev) = (Inr (), io ?d)" and bound: "length ?rs \<le> 250"
    using noisy_command_arrives [OF idle(1) ps, of fr] noisy_command_lost [OF idle(1), of _ fr ?w] served(3) fc
    by (cases fc; auto simp: comes_back_def kMaxPayload_def)+
  then have send: "py_sender (noisy_write fc fr) (blit 0 ?w wire0) (length ?w) dev = Some (True, ?d)"
    using py_sender_writes [where wr = "noisy_write fc fr" and dev = dev, OF sends] by simp
  let ?r = "if ?heard then Some ?rs else None"
  define h' where "h' = snd (rx_msgs h ?answer)"
  have "rx_msgs h ?answer = ((case ?r of None \<Rightarrow> [] | Some ps \<Rightarrow> [(MT_Reply, ps)]), h')"
    using fr inv(4) rx_msgs_wire [OF bound, of MT_Reply]
    by (cases ?heard) (auto simp: heard_def comes_back_def arrives_def unheard_def h'_def intro!: prod_eqI)
  then have "coming ?d = (telemetry_msgs vs @ (case ?r of None \<Rightarrow> [] | Some ps \<Rightarrow> [(MT_Reply, ps)]), h')"
    by (simp add: coming_puts inv(4))
  moreover have "host_sound ?d" using inv(1) served(1) by (simp add: host_sound_def)
  ultimately obtain q dev' where run: "await_loop uart_read (plain log_call) app_registry ?d = Some (Inr q, dev')" "noisy_ok dev'"
      "world dev' = map telemetry_args (us @ vs)" "firmware (io dev') = ?fw" "coming dev' = ([], h')"
      "case ?r of None \<Rightarrow> q = None | Some ps \<Rightarrow> \<exists>f. q = Some f \<and> frame_wf f \<and> frame_msg f = (MT_Reply, ps)"
    using noisy_await [of ?d us vs ?r h'] inv(2,3) by auto
  have emitted: "emitted (io dev') = us @ vs"
  proof -
    obtain us' vs' h' where o: "emitted (io dev') = us' @ vs'" "world dev' = map telemetry_args us'" "coming dev' = (telemetry_msgs vs', h')"
      using run(2) by (auto simp: noisy_ok_def)
    moreover have "inj telemetry_args" by (rule injI) (simp add: telemetry_args_def)
    ultimately show ?thesis using run(3,5) by (simp add: telemetry_msgs_def inj_map_eq_map del: map_append)
  qed
  have "call payload0 wire0 (py_sender (noisy_write fc fr)) ?aw d a dev =
      Some (if ?heard then result_of d sr ?rs else (SC_TransportError, ?init), dev')"
  proof (cases ?heard)
    case True
    then obtain f where f: "q = Some f" "frame_wf f" "frame_msg f = (MT_Reply, ?rs)" using run(6) by auto
    have "?aw Frame_init ?d = Some (True, f, dev')" using run(1) f(1) by (simp add: py_awaiter_def dev_await_reply_def)
    from py_call_takes [OF con assms(3,5,6) send this f(2,3)] True show ?thesis by simp
  next
    case False
    then have "q = None" using run(6) by (auto split: if_splits)
    then have "?aw Frame_init ?d = Some (False, Frame_init, dev')" using run(1) by (simp add: py_awaiter_def dev_await_reply_def)
    then show ?thesis using False contract.call_request_wire [OF con assms(3,5,6)] send by (auto simp: call_def)
  qed
  then show ?thesis using served run(2-5) emitted inv(2,4) by (auto simp: h'_def)
qed

text \<open>What an exchange leaves a receiver in that was left in \<open>h\<close>.\<close>

definition left_over :: "held \<Rightarrow> byte list option \<Rightarrow> byte list option \<Rightarrow> held" where
  "left_over h fc fr =
     (if fc \<noteq> None then h else case fr of None \<Rightarrow> Some [] | Some g \<Rightarrow> snd (rx_msgs h g))"

lemma left_over_delimited: "left_over h None (Some (g @ [kDelimiter])) = Some []"
  by (simp add: left_over_def rx_msgs_delimiter)

lemma served_length:
  assumes "handler_contract d sa sr fn dev_ok" "map_of kServers (def_opcode d) = Some (answer sa sr fn)"
    and "valid sa a" "dev_ok st" "fn (canon sa a) st = Some ((c, r), st')"
  shows "length (c # ser sr r) \<le> 250 \<and> dev_ok st'"
proof -
  note con = handler_contract.axioms(1) [OF assms(1)]
  have "valid sr r" "dev_ok st'" using served_answer [OF assms(1-4)] assms(5) by auto
  then show ?thesis using pack.ser_bound [OF contract.axioms(2) [OF con]] contract.rets_budget [OF con]
    by (fastforce simp: kMaxPayload_def)
qed

lemma noisy_call:
  assumes "handler_contract d sa sr fn dev_ok" "map_of kServers (def_opcode d) = Some (answer sa sr fn)" "valid sa a"
    and "noisy_ok dev" "fate_ok (Some []) fc" "fc = None \<longrightarrow> fate_ok (snd (coming dev)) fr"
    and "length payload0 = kMaxPayload" "length wire0 = kMaxPacket"
  shows "\<exists>c r st' dev'. fn (canon sa a) (firmware (io dev)) = Some ((c, r), st') \<and> valid sr r \<and> noisy_ok dev' \<and>
    call payload0 wire0 (py_sender (noisy_write fc fr)) (py_awaiter uart_read (plain log_call) app_registry) d a dev =
      Some (if fc = None \<and> fr = None then (c, if c = SC_Ok then canon sr r else tuple_init (RetsTuple d))
        else (SC_TransportError, tuple_init (RetsTuple d)), dev') \<and>
    firmware (io dev') = (if fc = None then st' else firmware (io dev)) \<and>
    world dev' = map telemetry_args (emitted (io dev)) \<and> coming dev' = ([], left_over (snd (coming dev)) fc fr)"
proof -
  let ?h = "snd (coming dev)"
  have dev: "dev_ok (firmware (io dev))" using assms(4) by (simp add: noisy_ok_def host_sound_def)
  obtain c r st' where fn: "fn (canon sa a) (firmware (io dev)) = Some ((c, r), st')" "valid sr r"
    using served_answer [OF assms(1-3) dev] by blast
  have bound: "length (c # ser sr r) \<le> 250" using served_length [OF assms(1-3) dev fn(1)] by simp
  have fc: "case fc of None \<Rightarrow> True | Some g \<Rightarrow> unheard (Some []) g"
    using assms(5) by (simp add: fate_ok_def split: option.splits)
  have heard: "heard ?h fc fr \<longleftrightarrow> fc = None \<and> fr = None" using assms(6) by (auto simp: heard_def fate_ok_def)
  moreover have "heard ?h fc fr \<or> unheard ?h (comes_back fc fr (c # ser sr r))"
    using assms(6) by (cases fc; cases fr) (auto simp: heard_def fate_ok_def comes_back_def arrives_def)
  moreover have "snd (rx_msgs ?h (comes_back fc fr (c # ser sr r))) = left_over ?h fc fr"
    using assms(6) rx_msgs_wire [OF bound, of MT_Reply]
    by (cases fc; cases fr) (auto simp: fate_ok_def comes_back_def arrives_def left_over_def)
  ultimately show ?thesis
    using noisy_exchange [OF assms(1-4,7,8) fn(1) fc, of fr] fn by auto
qed

section \<open>The steps\<close>

text \<open>\<open>noise\<close>: bytes arrive in which the receiver recognises nothing, which may be what is left of a
  telemetry packet, or a whole one that runs into what is left of another; \<open>emitted\<close> has the packets that
  got onto the line whole, each at the start of a region.\<close>

abbreviation noisy_methods ::
  "byte list option \<Rightarrow> byte list option \<Rightarrow> buf \<Rightarrow> buf \<Rightarrow> PyObj Python \<Rightarrow> PyObj Pybind \<Rightarrow>
   (string \<rightharpoonup> (Uart, PyObj py_args list, unit, PyObj) py_method)" where
  "noisy_methods fc fr payload0 wire0 py pb \<equiv>
     example_protocol payload0 wire0 (noisy_write fc fr) uart_read (plain log_call) app_registry py pb"

inductive noisy_step :: "buf \<Rightarrow> buf \<Rightarrow> PyObj Python \<Rightarrow> PyObj Pybind \<Rightarrow> Host \<Rightarrow> Host \<Rightarrow> bool"
  for payload0 wire0 py pb where
  noisy_tick: "\<lbrakk>snd (coming dev) = Some []; uart_tick c (io dev) = Some u\<rbrakk> \<Longrightarrow> noisy_step payload0 wire0 py pb dev (dev\<lparr>io := u\<rparr>)"
| noise: "unheard (snd (coming dev)) g \<Longrightarrow> noisy_step payload0 wire0 py pb dev (dev\<lparr>io := (io dev)\<lparr>to_host := to_host (io dev) @ g\<rparr>\<rparr>)"
| noisy_cut: "noisy_step payload0 wire0 py pb dev (dev\<lparr>io := (io dev)\<lparr>grants := gs\<rparr>\<rparr>)"
| noisy_polled: "poll uart_read (plain log_call) app_registry n dev = Some (r, dev') \<Longrightarrow> noisy_step payload0 wire0 py pb dev dev'"
| noisy_called: "\<lbrakk>fate_ok (Some []) fc; fc = None \<longrightarrow> fate_ok (snd (coming dev)) fr; noisy_methods fc fr payload0 wire0 py pb name = Some m; m args dev = Some (r, dev')\<rbrakk> \<Longrightarrow>
    noisy_step payload0 wire0 py pb dev dev'"

inductive noisy_reachable :: "buf \<Rightarrow> buf \<Rightarrow> PyObj Python \<Rightarrow> PyObj Pybind \<Rightarrow> Host \<Rightarrow> bool"
  for payload0 wire0 py pb where
  noisy_first: "noisy_reachable payload0 wire0 py pb host_start"
| noisy_next: "\<lbrakk>noisy_reachable payload0 wire0 py pb dev; noisy_step payload0 wire0 py pb dev dev'\<rbrakk> \<Longrightarrow>
    noisy_reachable payload0 wire0 py pb dev'"

text \<open>A line without damage is one of these lines: the receiver is at the start of a region whenever
  the bytes under way have arrived.\<close>

lemma session_aligned:
  assumes "uart.session_ok dev"
  shows "snd (coming dev) = Some []"
proof -
  obtain cs h ys xs where i: "uart.in_step dev cs h ys xs" using assms by (auto simp: uart.session_ok_def)
  then obtain vs where vs: "xs = map telemetry_payload vs" "h @ drop (pending_pos dev) (pending dev) @ to_host (io dev) = streams xs"
    using session_line by blast
  have rd: "reader_ok (reader dev)" "reader_holds (reader dev) = Some h" using i by (auto simp: uart.in_step_def)
  have "rx_msgs (Some []) h = ([], Some h)"
    using uart.held [OF rd] rd by (auto simp: reader_holds_def intro!: rx_msgs_nonzero [of h "[]", simplified])
  moreover have "streams xs = concat (map (\<lambda>(t, ps). frame_wire t ps) (map (Pair MT_Stream) xs))" by (induction xs) simp_all
  then have "rx_msgs (Some []) (streams xs) = (map (Pair MT_Stream) xs, Some [])"
    using rx_msgs_wires [of "map (Pair MT_Stream) xs"] vs(1) telemetry_payload_bound by (auto simp: kMaxPayload_def)
  ultimately show ?thesis using rd(2) vs(2) rx_msgs_append [of "Some []" h "drop (pending_pos dev) (pending dev) @ to_host (io dev)"]
    by (simp add: coming_def split: prod.splits) (metis snd_conv)
qed

lemma session_is_noisy:
  assumes "reachable payload0 wire0 py pb dev" "length payload0 = kMaxPayload" "length wire0 = kMaxPacket"
  shows "noisy_reachable payload0 wire0 py pb dev"
  using assms(1)
proof (induction rule: reachable.induct)
  case (step dev dev')
  have at: "snd (coming dev) = Some []" by (rule session_aligned [OF reachable_session [OF step.hyps(1) assms(2,3)]])
  from step.hyps(2) have "noisy_step payload0 wire0 py pb dev dev'"
  proof (rule session_stepE)
    fix name m args r assume "line_methods payload0 wire0 py pb name = Some m" "m args dev = Some (r, dev')"
    then show ?thesis
      using noisy_called [of None dev None payload0 wire0 py pb name m args r dev'] at
      by (simp add: fate_ok_def noisy_write_intact)
  qed (use at in \<open>auto intro: noisy_step.intros\<close>)
  then show ?case using step.IH noisy_next by blast
qed (rule noisy_first)

lemma noisy_puts:
  assumes "noisy_ok dev" "fst (rx_msgs (snd (coming dev)) g) = telemetry_msgs cs"
  shows "noisy_ok (dev\<lparr>io := (io dev)\<lparr>to_host := to_host (io dev) @ g, emitted := emitted (io dev) @ cs\<rparr>\<rparr>)"
proof -
  obtain us vs h where inv: "emitted (io dev) = us @ vs" "world dev = map telemetry_args us" "coming dev = (telemetry_msgs vs, h)"
    using assms(1) by (auto simp: noisy_ok_def)
  let ?d = "dev\<lparr>io := (io dev)\<lparr>to_host := to_host (io dev) @ g, emitted := emitted (io dev) @ cs\<rparr>\<rparr>"
  have "coming ?d = (telemetry_msgs (vs @ cs), snd (rx_msgs h g))"
    using inv(3) assms(2) by (auto simp: coming_def rx_msgs_append telemetry_msgs_def split: prod.splits)
  then show ?thesis using assms(1) inv by (auto simp: noisy_ok_def host_sound_def)
qed

lemma noisy_poll:
  assumes "noisy_ok dev"
  shows "\<exists>k dev'. poll uart_read (plain log_call) app_registry n dev = Some (Inr k, dev') \<and> noisy_ok dev' \<and>
    k + length (world dev) = length (world dev')"
proof -
  obtain us vs hh where inv: "host_sound dev" "emitted (io dev) = us @ vs" "world dev = map telemetry_args us"
      "coming dev = (telemetry_msgs vs, hh)" using assms by (auto simp: noisy_ok_def)
  obtain j where j: "uart_read n (io dev) = (Inr (Some (take j (to_host (io dev)))),
      (io dev)\<lparr>to_host := drop j (to_host (io dev)), grants := tl (grants (io dev))\<rparr>)"
    using uart_read_takes [of n "io dev"] by blast
  let ?chunk = "drop (pending_pos dev) (pending dev) @ take j (to_host (io dev))"
  let ?d = "dev\<lparr>io := (io dev)\<lparr>to_host := drop j (to_host (io dev)), grants := tl (grants (io dev))\<rparr>, pending := [], pending_pos := 0\<rparr>"
  obtain ms h where rx: "rx_msgs (reader_holds (reader dev)) ?chunk = (ms, h)" by force
  obtain ms' h' where rx': "rx_msgs h (drop j (to_host (io dev))) = (ms', h')" by force
  have "rx_msgs (reader_holds (reader dev)) (?chunk @ drop j (to_host (io dev))) = (telemetry_msgs vs, hh)"
    using inv(4) by (simp add: coming_def)
  then have "telemetry_msgs vs = ms @ ms'" "h' = hh" using rx rx' by (simp_all only: rx_msgs_append) auto
  then obtain cs ds where cut: "vs = cs @ ds" "ms = telemetry_msgs cs" "ms' = telemetry_msgs ds"
    by (auto simp: telemetry_msgs_def map_eq_append_conv)
  have del: "\<And>x w. x \<in> set (map telemetry_payload cs) \<Longrightarrow> fst (deliver log_call app_decoders the_callbacks x w) = Inr True"
    by (auto simp: deliver_telemetry)
  have host: "host_rx False log_call app_decoders the_callbacks (reader_holds (reader dev)) ?chunk 0 (world dev) =
      (Inr (None, 0 + length (map telemetry_payload cs)), world dev @ map telemetry_args cs, h, [])"
    using host_rx_msgs [OF rx [unfolded cut(2) telemetry_msgs_def] del, of False 0 "world dev"] by (simp add: deliveries_telemetry)
  obtain dev' where p: "poll_loop (plain log_call) app_registry ?chunk 0 ?d = Some (Inr (length cs), dev')" "reader_ok (reader dev')"
      "io dev' = io ?d" "callbacks dev' = the_callbacks" "pending dev' = []" "pending_pos dev' = 0"
      "world dev' = world dev @ map telemetry_args cs" "reader_holds (reader dev') = h"
    using app_reg.poll_loop_refines [of ?d log_call ?chunk 0] inv(1) host by (auto simp: host_sound_def)
  have "poll uart_read (plain log_call) app_registry n dev = Some (Inr (length cs), dev')"
    using p(1) j inv(1) by (simp add: poll_def read_chunk_def host_sound_def)
  moreover have "host_sound dev'" "emitted (io dev') = (us @ cs) @ ds" "world dev' = map telemetry_args (us @ cs)"
      "coming dev' = (telemetry_msgs ds, hh)"
    using p inv cut rx' \<open>h' = hh\<close> by (simp_all add: host_sound_def coming_def)
  then have "noisy_ok dev'" unfolding noisy_ok_def by blast
  ultimately show ?thesis using p(7) by auto
qed

lemma noisy_method_returns:
  assumes h: "handler_contract d sa sr fn dev_ok" and srv: "map_of kServers (def_opcode d) = Some (answer sa sr fn)"
    and lds: "loads load sa" "casts css sr" and dev: "noisy_ok dev" and fates: "fate_ok (Some []) fc" "fc = None \<longrightarrow> fate_ok (snd (coming dev)) fr"
    and len: "length payload0 = kMaxPayload" "length wire0 = kMaxPacket"
  shows "\<exists>q dev'. add_command payload0 wire0 (noisy_write fc fr) uart_read (plain log_call) app_registry d load
      (cast_cons (ret (cast_status pb)) css) args dev = Some (q, dev') \<and> noisy_ok dev'"
proof (rule add_command_returns [where P = noisy_ok, OF lds dev])
  fix a assume a: "valid sa a"
  have con: "pack (RetsTuple d) sr" using contract.axioms(2) [OF handler_contract.axioms(1) [OF h]] .
  obtain c r dev' where r: "valid sr r" "noisy_ok dev'"
    "call payload0 wire0 (py_sender (noisy_write fc fr)) (py_awaiter uart_read (plain log_call) app_registry) d a dev =
      Some (if fc = None \<and> fr = None then (c, if c = SC_Ok then canon sr r else tuple_init (RetsTuple d))
        else (SC_TransportError, tuple_init (RetsTuple d)), dev')"
    using noisy_call [OF h srv a dev fates len] by blast
  then show "\<exists>c r dev'. call payload0 wire0 (py_sender (noisy_write fc fr)) (py_awaiter uart_read (plain log_call) app_registry) d a dev =
      Some ((c, r), dev') \<and> valid sr r \<and> noisy_ok dev'"
    using pack.canon_valid [OF con r(1)] pack.initial_valid [OF con] by (cases "fc = None \<and> fr = None"; cases "c = SC_Ok") auto
qed

lemma noisy_methods_return:
  assumes "noisy_ok dev" "fate_ok (Some []) fc" "fc = None \<longrightarrow> fate_ok (snd (coming dev)) fr" "length payload0 = kMaxPayload" "length wire0 = kMaxPacket"
    and "noisy_methods fc fr payload0 wire0 py pb name = Some m"
  shows "\<exists>q dev'. m args dev = Some (q, dev') \<and> noisy_ok dev'"
proof -
  note M = noisy_method_returns [OF _ _ _ _ assms(1-5)]
  note calls = M [OF set_rgb.handler_contract_axioms table_entries(1)] M [OF read_adc.handler_contract_axioms table_entries(2)]
    M [OF get_rgb.handler_contract_axioms table_entries(3)] M [OF get_uptime.handler_contract_axioms table_entries(4)]
    M [OF set_name.handler_contract_axioms table_entries(5)] M [OF get_name.handler_contract_axioms table_entries(6)]
    M [OF read_block.handler_contract_axioms table_entries(7)]
  show ?thesis using assms(6)
    unfolding example_protocol_def Let_def bind_command_def
    by (auto split: if_splits intro!: calls method_loads method_casts)
qed

lemma noisy_step_keeps:
  assumes "noisy_step payload0 wire0 py pb dev dev'" "noisy_ok dev" "length payload0 = kMaxPayload" "length wire0 = kMaxPacket"
  shows "noisy_ok dev'"
  using assms(1)
proof (cases rule: noisy_step.cases)
  case (noisy_tick c u)
  have "length (telemetry_payload c) \<le> 250" using telemetry_payload_bound by (simp add: kMaxPayload_def)
  then have "fst (rx_msgs (snd (coming dev)) (frame_wire MT_Stream (telemetry_payload c))) = telemetry_msgs [c]"
    using noisy_tick(2) by (simp add: rx_msgs_wire telemetry_msgs_def)
  from noisy_puts [OF assms(2) this] show ?thesis using noisy_tick by (simp add: uart_tick_puts)
next
  case (noise g)
  then have "fst (rx_msgs (snd (coming dev)) g) = telemetry_msgs []" by (simp add: unheard_def telemetry_msgs_def)
  from noisy_puts [OF assms(2) this] show ?thesis using noise by simp
next
  case (noisy_cut gs)
  then show ?thesis using assms(2) by (simp add: noisy_ok_def host_sound_def coming_def)
next
  case (noisy_polled n r)
  then show ?thesis using noisy_poll [OF assms(2), of n] by auto
next
  case (noisy_called fc fr name m args r)
  then show ?thesis using noisy_methods_return [OF assms(2) noisy_called(1,2) assms(3,4) noisy_called(3), of args] by auto
qed

lemma noisy_reachable_ok:
  assumes "noisy_reachable payload0 wire0 py pb dev" "length payload0 = kMaxPayload" "length wire0 = kMaxPacket"
  shows "noisy_ok dev"
  using assms(1) by (induction rule: noisy_reachable.induct) (use noisy_start noisy_step_keeps assms(2,3) in blast)+


text \<open>Resynchronisation: whatever a receiver is in the middle of, after a delimiter the next packet is
  recognised.\<close>

lemma rx_msgs_resync:
  assumes "rx_msgs h bs = (ms, h')" "length ps \<le> 250"
  shows "\<exists>ms'. rx_msgs h (bs @ s @ [kDelimiter] @ frame_wire t ps) = (ms @ ms' @ [(t, ps)], Some [])"
proof -
  obtain ms' where "rx_msgs h' (s @ [kDelimiter]) = (ms', Some [])" using rx_msgs_delimiter [of h' s] by (metis prod.collapse)
  then show ?thesis
    using assms rx_msgs_append [of h bs "(s @ [kDelimiter]) @ frame_wire t ps"]
      rx_msgs_append [of h' "s @ [kDelimiter]" "frame_wire t ps"]
    by (simp add: rx_msgs_wire)
qed

section \<open>Properties\<close>

text \<open>C14: on a line that damages or loses packets, whatever is polled and called, and whatever takes the
  place of a packet as long as the receiver, with what it holds already, recognises no frame in it
  (what is damaged may end anywhere: the receiver can be left inside a region, which then swallows
  the packet that follows): the host's callback has been given a first part of the telemetry that got
  onto the line whole at the start of a region, each packet once and in order; the rest of it, and
  nothing else, is what a receiver will find in the bytes under way. Polling returns. And the line
  mends: whatever arrives next, \<open>s\<close>, once a delimiter has ended it a whole packet is recognised.\<close>

theorem noisy_session_invariant:
  assumes "noisy_reachable payload0 wire0 py pb dev" "length payload0 = kMaxPayload" "length wire0 = kMaxPacket"
  shows "reader_ok (reader dev) \<and> dev_ok (firmware (io dev)) \<and> pending_pos dev \<le> length (pending dev) \<and>
    (\<exists>us vs h. emitted (io dev) = us @ vs \<and> world dev = map telemetry_args us \<and>
      rx_msgs (reader_holds (reader dev)) (drop (pending_pos dev) (pending dev) @ to_host (io dev)) =
        (map (\<lambda>c. (MT_Stream, telemetry_payload c)) vs, h) \<and>
      (\<exists>ms. rx_msgs (reader_holds (reader dev)) ((drop (pending_pos dev) (pending dev) @ to_host (io dev)) @
          s @ [kDelimiter] @ frame_wire MT_Stream (telemetry_payload c)) =
        (map (\<lambda>c. (MT_Stream, telemetry_payload c)) vs @ ms @ [(MT_Stream, telemetry_payload c)], Some []))) \<and>
    (\<exists>k dev'. poll uart_read (plain log_call) app_registry n dev = Some (Inr k, dev') \<and> k + length (world dev) = length (world dev'))"
proof -
  note ok = noisy_reachable_ok [OF assms]
  obtain us vs h where inv: "host_sound dev" "emitted (io dev) = us @ vs" "world dev = map telemetry_args us"
      "coming dev = (telemetry_msgs vs, h)" using ok by (auto simp: noisy_ok_def)
  have msgs: "telemetry_msgs vs = map (\<lambda>c. (MT_Stream, telemetry_payload c)) vs" by (simp add: telemetry_msgs_def)
  have "length (telemetry_payload c) \<le> 250" using telemetry_payload_bound by (simp add: kMaxPayload_def)
  note resync = rx_msgs_resync [OF inv(4) [unfolded coming_def msgs] this, of s MT_Stream]
  show ?thesis
    using inv(1-3) inv(4) [unfolded coming_def msgs] resync noisy_poll [OF ok, of n] unfolding host_sound_def by blast
qed

text \<open>A session in which a telemetry packet is under way, and then the first bytes of something that is
  no packet and has no end: the packet that follows is lost, the one after it is not.\<close>

definition host_noisy :: Host where
  "host_noisy = host_ticked\<lparr>io := (io host_ticked)\<lparr>to_host := to_host (io host_ticked) @ [9, 9]\<rparr>\<rparr>"

lemma coming_ticked: "coming host_ticked = (telemetry_msgs [7], Some [])"
proof -
  have "length (telemetry_payload 7) \<le> 250" using telemetry_payload_bound by (simp add: kMaxPayload_def)
  then show ?thesis
    by (simp add: coming_def host_ticked_def host_start_def on_def PyDevice_init_def Uart_boot_def rx_msgs_wire telemetry_msgs_def)
qed

lemma no_packet:
  "rx_msgs (Some []) [9, 9] = ([], Some [9, 9])" "unheard (Some [9, 9]) [9, 9, 0]"
  unfolding unheard_def by code_simp+

lemma reachable_noisy: "noisy_reachable zero_payload zero_wire cpython int_casters host_noisy"
  unfolding host_noisy_def
  by (rule noisy_next [OF session_is_noisy [OF reachable_ticked buffers] noise]) (simp add: coming_ticked no_delimiter_unheard)

lemma host_noisy_holds: "snd (coming host_noisy) = Some [9, 9]"
proof -
  have "coming host_noisy = rx_msgs (reader_holds (reader host_ticked))
      ((drop (pending_pos host_ticked) (pending host_ticked) @ to_host (io host_ticked)) @ [9, 9])"
    by (simp add: coming_def host_noisy_def)
  then show ?thesis using coming_ticked
      rx_msgs_append [of "reader_holds (reader host_ticked)" "drop (pending_pos host_ticked) (pending host_ticked) @ to_host (io host_ticked)" "[9, 9]"]
    by (simp only: coming_def prod.case no_packet(1) snd_conv)
qed

theorem noisy_session_invariant_witness:
  "reader_ok (reader host_noisy) \<and> dev_ok (firmware (io host_noisy)) \<and> pending_pos host_noisy \<le> length (pending host_noisy) \<and>
    (\<exists>us vs h. emitted (io host_noisy) = us @ vs \<and> world host_noisy = map telemetry_args us \<and>
      rx_msgs (reader_holds (reader host_noisy)) (drop (pending_pos host_noisy) (pending host_noisy) @ to_host (io host_noisy)) =
        (map (\<lambda>c. (MT_Stream, telemetry_payload c)) vs, h) \<and>
      (\<exists>ms. rx_msgs (reader_holds (reader host_noisy)) ((drop (pending_pos host_noisy) (pending host_noisy) @ to_host (io host_noisy)) @
          [5, 1] @ [kDelimiter] @ frame_wire MT_Stream (telemetry_payload 8)) =
        (map (\<lambda>c. (MT_Stream, telemetry_payload c)) vs @ ms @ [(MT_Stream, telemetry_payload 8)], Some []))) \<and>
    (\<exists>k dev'. poll uart_read (plain log_call) app_registry 3 host_noisy = Some (Inr k, dev') \<and>
      k + length (world host_noisy) = length (world dev'))"
  by (rule noisy_session_invariant [OF reachable_noisy buffers])

text \<open>C13: a command on such a line. Where the device does not recognise what arrives in place of the
  command (\<open>fc\<close>), the handler is not run; where the host, with what it holds already, recognises nothing
  in what arrives in place of the reply (\<open>fr\<close>), the handler has run once; in both cases the call returns
  \<open>TransportError\<close>. It returns the handler's result when both arrive whole, the reply at the start of
  a region. All telemetry of before is delivered, and what stays behind is exactly what the receiver then
  holds (\<open>left_over\<close>): nothing after a whole reply; of a damaged reply, the bytes after its last delimiter,
  if it has one. Not claimed of a reply that is recognised later than its own call.\<close>

theorem lost_packet_costs_one_call:
  assumes "noisy_reachable payload0 wire0 py pb dev" "length payload0 = kMaxPayload" "length wire0 = kMaxPacket"
    and "handler_contract d sa sr fn dev_ok" "map_of kServers (def_opcode d) = Some (answer sa sr fn)" "valid sa a"
    and "fate_ok (Some []) fc" "fc = None \<longrightarrow> fate_ok (snd (coming dev)) fr"
  shows "\<exists>c r st' dev'. fn (canon sa a) (firmware (io dev)) = Some ((c, r), st') \<and> valid sr r \<and>
    call payload0 wire0 (py_sender (noisy_write fc fr)) (py_awaiter uart_read (plain log_call) app_registry) d a dev =
      Some (if fc = None \<and> fr = None then (c, if c = SC_Ok then canon sr r else tuple_init (RetsTuple d))
        else (SC_TransportError, tuple_init (RetsTuple d)), dev') \<and>
    firmware (io dev') = (if fc = None then st' else firmware (io dev)) \<and>
    world dev' = map telemetry_args (emitted (io dev)) \<and> coming dev' = ([], left_over (snd (coming dev)) fc fr)"
  using noisy_call [OF assms(4-6) noisy_reachable_ok [OF assms(1-3)] assms(7,8,2,3)] by blast

text \<open>The reply to \<open>get_uptime_ms\<close> arrives as bytes that are no packet.\<close>

theorem lost_packet_costs_one_call_witness:
  "\<exists>c r st' dev'. get_uptime_ms (canon tnil_spec ()) (firmware (io host_noisy)) = Some ((c, r), st') \<and> valid u32_fields r \<and>
    call zero_payload zero_wire (py_sender (noisy_write None (Some [9, 9, 0]))) (py_awaiter uart_read (plain log_call) app_registry)
        GetUptimeCmd () host_noisy =
      Some (if None = (None :: byte list option) \<and> Some [9, 9, 0 :: byte] = None
        then (c, if c = SC_Ok then canon u32_fields r else tuple_init (RetsTuple GetUptimeCmd))
        else (SC_TransportError, tuple_init (RetsTuple GetUptimeCmd)), dev') \<and>
    firmware (io dev') = (if None = (None :: byte list option) then st' else firmware (io host_noisy)) \<and>
    world dev' = map telemetry_args (emitted (io host_noisy)) \<and>
    coming dev' = ([], left_over (snd (coming host_noisy)) None (Some [9, 9, 0]))"
  by (rule lost_packet_costs_one_call [OF reachable_noisy buffers get_uptime.handler_contract_axioms table_entries(4)])
     (simp_all add: fate_ok_def host_noisy_holds no_packet(2) tnil_spec_def)

text \<open>C24: when the receiver is at the start of a region, a reply that loses its delimiter costs two calls. The call it
  belongs to returns \<open>TransportError\<close>; the bytes stay in the reader of the host, the reply to the command that
  follows at once, though it arrives whole, runs into them, and that call returns \<open>TransportError\<close>, too.
  (A telemetry packet between the two would be lost in its place.) Both handlers have run, once each and
  in order; after the second call the receiver is at the start of a region again.\<close>

theorem lost_delimiter_costs_two_calls:
  assumes "noisy_reachable payload0 wire0 py pb dev" "length payload0 = kMaxPayload" "length wire0 = kMaxPacket"
    and "snd (coming dev) = Some []"
    and "handler_contract d sa sr fn dev_ok" "map_of kServers (def_opcode d) = Some (answer sa sr fn)" "valid sa a"
    and "handler_contract d' sa' sr' fn' dev_ok" "map_of kServers (def_opcode d') = Some (answer sa' sr' fn')" "valid sa' a'"
    and "fn (canon sa a) (firmware (io dev)) = Some ((c, r), st')"
  shows "\<exists>c' r' st'' dev' dev''.
    call payload0 wire0 (py_sender (noisy_write None (Some (butlast (frame_wire MT_Reply (c # ser sr r))))))
        (py_awaiter uart_read (plain log_call) app_registry) d a dev =
      Some ((SC_TransportError, tuple_init (RetsTuple d)), dev') \<and>
    fn' (canon sa' a') st' = Some ((c', r'), st'') \<and>
    call payload0 wire0 (py_sender uart_write) (py_awaiter uart_read (plain log_call) app_registry) d' a' dev' =
      Some ((SC_TransportError, tuple_init (RetsTuple d')), dev'') \<and>
    firmware (io dev'') = st'' \<and> world dev'' = map telemetry_args (emitted (io dev)) \<and> coming dev'' = ([], Some [])"
proof -
  let ?rs = "c # ser sr r"
  let ?code = "cobs_encoding (frame_raw MT_Reply ?rs)" and ?left = "butlast (frame_wire MT_Reply ?rs)"
  note ok = noisy_reachable_ok [OF assms(1-3)]
  have dev: "dev_ok (firmware (io dev))" using ok by (simp add: noisy_ok_def host_sound_def)
  have first: "length ?rs \<le> 250" "dev_ok st'"
    using served_length [OF assms(5-7) dev assms(11)] by simp_all
  have code: "?left = ?code" by (simp add: frame_wire_def)
  have lost: "rx_msgs (Some []) ?left = ([], Some ?code)"
    unfolding code using rx_msgs_nonzero [OF cobs_io.code_no_zero, of "[]"] first(1) by (simp add: length_cobs_encoding_small)
  have "\<not> heard (Some []) None (Some ?left)" by (simp add: heard_def)
  then obtain dev' where one: "noisy_ok dev'" "firmware (io dev') = st'" "emitted (io dev') = emitted (io dev)"
      "call payload0 wire0 (py_sender (noisy_write None (Some ?left))) (py_awaiter uart_read (plain log_call) app_registry) d a dev =
        Some ((SC_TransportError, tuple_init (RetsTuple d)), dev')" "coming dev' = ([], Some ?code)"
    using noisy_exchange [OF assms(5-7) ok assms(2,3,11), of None "Some ?left"] lost assms(4)
    by (auto simp: comes_back_def arrives_def unheard_def)
  obtain c' r' st'' where second: "fn' (canon sa' a') st' = Some ((c', r'), st'')"
    using served_answer [OF assms(8-10) first(2)] by blast
  then have bound: "length (c' # ser sr' r') \<le> 250" using served_length [OF assms(8-10) first(2) second] by simp
  have merged: "rx_msgs (Some ?code) (frame_wire MT_Reply (c' # ser sr' r')) = ([], Some [])"
    by (rule merged_unheard [OF first(1) bound])
  have "?code \<noteq> []" using first(1) length_cobs_encoding_small [of "frame_raw MT_Reply ?rs"] by auto
  then have "\<not> heard (Some ?code) None None" by (simp add: heard_def)
  then obtain dev'' where "firmware (io dev'') = st''" "world dev'' = map telemetry_args (emitted (io dev'))"
      "call payload0 wire0 (py_sender uart_write) (py_awaiter uart_read (plain log_call) app_registry) d' a' dev' =
        Some ((SC_TransportError, tuple_init (RetsTuple d')), dev'')" "coming dev'' = ([], Some [])"
    using noisy_exchange [OF assms(8-10) one(1) assms(2,3), of c' r' st'' None None] second one(2,5) merged
    by (auto simp: comes_back_def arrives_def unheard_def noisy_write_intact)
  then show ?thesis using one second by auto
qed

text \<open>The reply to \<open>get_uptime_ms\<close> loses its delimiter; then \<open>get_rgb\<close>.\<close>

theorem lost_delimiter_costs_two_calls_witness:
  "\<exists>c' r' st'' dev' dev''.
    call zero_payload zero_wire
        (py_sender (noisy_write None (Some (butlast (frame_wire MT_Reply (SC_Ok # ser u32_fields (5, ())))))))
        (py_awaiter uart_read (plain log_call) app_registry) GetUptimeCmd () host_start =
      Some ((SC_TransportError, tuple_init (RetsTuple GetUptimeCmd)), dev') \<and>
    get_rgb (canon tnil_spec ()) (snd (hw_millis Device_boot)) = Some ((c', r'), st'') \<and>
    call zero_payload zero_wire (py_sender uart_write) (py_awaiter uart_read (plain log_call) app_registry) GetRgbCmd () dev' =
      Some ((SC_TransportError, tuple_init (RetsTuple GetRgbCmd)), dev'') \<and>
    firmware (io dev'') = st'' \<and> world dev'' = map telemetry_args (emitted (io host_start)) \<and> coming dev'' = ([], Some [])"
proof (rule lost_delimiter_costs_two_calls [OF session_is_noisy [OF start buffers] buffers _
    get_uptime.handler_contract_axioms table_entries(4) _ get_rgb.handler_contract_axioms table_entries(3)])
  show "snd (coming host_start) = Some []" using session_aligned [OF session_start] .
qed (simp_all add: get_uptime_ms_def tnil_spec_def host_start_def on_def PyDevice_init_def Uart_boot_def hw_millis_def Device_boot_def)

end
