(* ===== verification/Spec2Isabelle.thy ===== *)
theory Spec2Isabelle
  imports HostApp CrcPoly TestPython ArrayOps Convert ThreadOrder Noise
begin

text \<open>
  EmbeddedUnifiedProtocol (EUP): a verification library for the C++ protocol library under
  \<open>src/include/eup\<close> and \<open>src/src\<close>, its example application \<open>src/examples/rgb_led_adc\<close>,
  the Python bindings of \<open>src/bindings\<close> and the tests of all of these.

  \<^bold>\<open>The program.\<close> A host calls commands of a device and receives unsolicited streams from it,
  over a byte stream. A packet is a raw block (type, length, at most 250 payload bytes,
  CRC-16 low byte first) made free of zeros by COBS and closed by one zero byte. The layers,
  bottom up, and the theories that model them:

    \<^item> \<open>Prelude\<close>: buffers, memory faults, unsigned wrap-around, writes of byte runs.
    \<^item> \<open>Crc16\<close>, \<open>CrcPoly\<close>: \<open>crc16_ccitt_update\<close>, \<open>crc16_ccitt\<close> (\<open>crc16.cpp\<close>), and the division of
      polynomials they compute.
    \<^item> \<open>Cobs\<close>, \<open>Cobs_Correct\<close>: \<open>cobs_encode\<close>, \<open>cobs_decode\<close> (\<open>cobs.cpp\<close>).
    \<^item> \<open>Frame\<close>: \<open>encode_frame\<close>, \<open>decode_region\<close> (\<open>frame.cpp\<close>, \<open>frame.hpp\<close>).
    \<^item> \<open>Reader\<close>: class \<open>FrameReader\<close>, and \<open>feed\<close> of the Python binding that drives it.
    \<^item> \<open>Codec\<close>, \<open>Span\<close>, \<open>ArrayOps\<close>, \<open>Tuples\<close>: the trait \<open>Codec\<close>, \<open>InlineArray\<close> and \<open>InlineString\<close>
      with their accessors, the tuple folds (\<open>codec.hpp\<close>). \<open>WireTypes\<close>: the types that have a codec,
      as data, and tuples of any of them.
    \<^item> \<open>Command\<close>: \<open>dispatch_thunk\<close>, \<open>command\<close>, \<open>find_entry\<close>, \<open>dispatch\<close> (\<open>command.hpp\<close>,
      \<open>command.cpp\<close>, \<open>status.hpp\<close>); \<open>Host\<close>: \<open>call\<close> (\<open>host.hpp\<close>).
    \<^item> \<open>Stream\<close>: \<open>StreamWriter\<close>, \<open>stream_thunk\<close>, \<open>dispatch_stream\<close> (\<open>stream.hpp\<close>).
    \<^item> \<open>Signature\<close>: \<open>CommandTraits\<close>, \<open>CommandDef\<close>, \<open>WithStatus\<close> and the static assertions, as
      executable checks on the signatures of handlers (\<open>command.hpp\<close>, \<open>host.hpp\<close>, \<open>stream.hpp\<close>).
    \<^item> \<open>Convert\<close>: the conversions of the arguments of \<open>call\<close> and \<open>StreamWriter::write\<close>, \<open>stream_invocable\<close> and
      the conversions of fields to a handler's parameters.
    \<^item> \<open>DeviceApp\<close>: the example's contracts, firmware, transport (\<open>commands.hpp\<close>, \<open>device.cpp\<close>,
      \<open>main.cpp\<close>); \<open>HostApp\<close>: \<open>main\<close> and what it prints.
    \<^item> \<open>PyCore\<close>, \<open>PyRegister\<close>, \<open>PyEup\<close>: what the Python modules register beside \<open>Device\<close>
      (\<open>eup_core_pybind.hpp\<close>, \<open>register_core\<close>), and the module \<open>eup\<close> as a whole; \<open>PyValues\<close>: the casters of the spans; \<open>PyDevice\<close>: the
      stream registry and the class \<open>Device\<close>; \<open>PyCall\<close>: \<open>add_command\<close> and \<open>bind_command\<close>
      (\<open>eup_pybind.hpp\<close>); \<open>PyModule\<close>: the module \<open>example_protocol\<close> (\<open>python_module.cpp\<close>).
    \<^item> \<open>Session\<close>: host, firmware and a line that cuts reads anywhere, as one step relation: telemetry,
      polls and calls in any order.
    \<^item> \<open>Reentrant\<close>: stream callbacks that use the device they are called from: polls, registrations,
      calls and raises, nested to any depth.
    \<^item> \<open>Noise\<close>: the session on a line that damages or loses packets in both directions, delimiters included.
    \<^item> \<open>Threads\<close>: the methods of \<open>Device\<close> once more, cut where the interpreter may switch threads, and
      programs of any number of threads on one object; \<open>ThreadOrder\<close>: which thread gets which reply.
    \<^item> \<open>TestProtocol\<close>, \<open>TestCommand\<close>, \<open>TestHost\<close>, \<open>TestStream\<close> (\<open>src/tests\<close>), \<open>TestPython\<close>
      (\<open>test_eup.py\<close>, \<open>test_python.py\<close>): the test cases, their handlers, tables, streams and transports.

  \<^bold>\<open>How the code is modelled.\<close> A buffer is a list of bytes of the length it really has; a pointer
  is a buffer with an offset, a capacity is a separate number. Every access that could leave a
  buffer, and every \<open>size_t\<close> subtraction that could wrap, makes the result \<open>None\<close>; the statuses
  and \<open>false\<close> results of the code are values. Hence a theorem that concludes \<open>= Some \<dots>\<close> states
  memory safety and termination together with the result. Loops are \<open>function\<close>s with
  termination proofs, loop variables of type \<open>uint8_t\<close> stay words, so the loops' overflow
  behaviour is the code's. Output parameters are returned; uninitialised local arrays are
  parameters (\<open>raw0\<close>, \<open>payload0\<close>, \<open>wire0\<close>) over which the theorems quantify (only \<open>raw\<close> inside
  \<open>encode_frame\<close> and \<open>decode_region\<close> is fixed in the plain versions; \<open>encode_frame_on\<close> and
  \<open>decode_region_on\<close> have it as a parameter). Class and file-scope state is a record: \<open>FrameReader\<close>,
  \<open>InlineArray\<close>, \<open>Device\<close>, \<open>SerialLink\<close>. Templates are functions of their parameters: a codec is
  a record of functions, a parameter pack the nesting of \<open>tcons\<close> and \<open>tnil\<close>, a handler a
  function on the device's state; static assertions are assumptions of the locales, which
  \<open>Signature\<close> discharges for every signature that compiles. Python objects, pybind11's own casters
  and the transport object are parameters; an exception is a value of \<open>PyError\<close>, and one that would
  leave a \<open>noexcept\<close> function is the outcome \<open>None\<close>.

  \<^bold>\<open>Contracts.\<close> Each layer relies on the one below through a locale, interpreted on the model of
  the code: \<open>checksum\<close> (\<open>crc_sum\<close>), \<open>stuffing\<close> (\<open>cobs_io\<close>), \<open>receiver\<close> (\<open>rdr\<close>), \<open>codec\<close>
  with \<open>fixed_codec\<close> and \<open>strict_codec\<close> (\<open>u8\<close> \<dots> \<open>u64\<close>, \<open>i8\<close> \<dots> \<open>i64\<close>, \<open>flt\<close>, \<open>dbl\<close>, \<open>bl\<close>), \<open>span_elem\<close>
  and \<open>strict_span\<close> (a sublocale makes a span of fixed elements a codec), \<open>pack\<close> and
  \<open>strict_pack\<close>, \<open>codec_pack\<close> (a sublocale adds a field), \<open>contract\<close> and \<open>handler_contract\<close>
  (one interpretation per command of the example), \<open>service\<close> (\<open>app\<close>: the command table), \<open>link\<close>
  (\<open>serial\<close>: \<open>SerialLink\<close> with the device behind it), \<open>remote\<close>, \<open>stream_contract\<close>,
  \<open>stream_registry\<close> (\<open>app_reg\<close>: the example's Python module), \<open>python\<close> (\<open>cpython\<close>: the C API the
  casters call), \<open>core_types\<close> (\<open>core_obj\<close>), \<open>remote_line\<close>, the Python transport with a device behind it, of which \<open>link\<close> is a
  sublocale, and \<open>app_line\<close>, the same with the example's firmware (\<open>uart\<close>, in \<open>Session\<close>); \<open>drained\<close>
  (\<open>uart_dry\<close>: a transport that runs dry) and \<open>reentrant\<close> (\<open>uart_scripts\<close>: callbacks that run scripts on the
  device), under which the threads of \<open>Threads\<close> end as well. The tests have contracts and tables of their own (\<open>add\<close>, \<open>set_led\<close>, \<open>stats\<close>, \<open>echo_words\<close>,
  \<open>host_tests\<close>, \<open>imu\<close>, \<open>fault\<close>, \<open>heartbeat\<close>, \<open>color\<close>), and their loopback transport is a \<open>link\<close>
  to any table of commands.

  \<^bold>\<open>What is shown.\<close> Crc16: the bitwise loop is the remainder modulo the generator polynomial;
  incremental computation; every error inside two neighbouring bytes is detected. Cobs: round
  trip, exact capacity behaviour, memory safety on any input, uniqueness of the encoding. Frame:
  round trip, the outcome for every length and capacity, safe and total decoding independent of
  the uninitialised array, canonical packets, detected corruption. Reader: the push automaton
  refines a splitter on byte lists for all inputs; packets survive any chunking, any garbage is
  recovered from at the next delimiter, nothing is delivered that was not on the wire. Codecs:
  round trips, bounds, exactness; \<open>InlineArray\<close> is a bounded list. Commands: the dispatcher refines
  an abstract service, malformed or unknown requests never reach a handler; \<open>call\<close> is total for
  every transport; both are type safe for every signature that compiles; over the link, calling a
  command is running its handler; \<open>main\<close> prints the documented text. Streams: what is written is
  what the registered handler gets, and so for arguments, fields and parameters of different types that
  compile together: they arrive converted, integers modulo \<open>2 ^ w\<close>. No calls of the module \<open>eup\<close>, with any
  objects, break it. The Python device: the casters round trip, are safe for any
  object and accept exactly what they say; \<open>await_reply\<close> ends when the transport falls silent, delivers interleaved streams in order
  and leaves every byte after the reply unread; \<open>poll\<close> delivers all of its chunk; a call takes the
  first reply on the line, a late one of an earlier call included. The session: in every reachable
  state the telemetry delivered, buffered and under way is what the firmware emitted, no state is
  stuck (a method raises nothing but \<open>TypeError\<close>, and then has done nothing), polling drains the line, and a method called from Python is the handler on the device.
  On a line that damages packets a call returns the handler's result or \<open>TransportError\<close>, the handler having
  run at most once; the telemetry delivered is that which got onto the line whole, once and in order; and
  the next delimiter brings the receiver back in step. Damage means bytes in which the receiver, with what it
  holds already, recognises nothing (\<open>unheard\<close>): what the CRC is shown to detect, regions that are too long,
  anything without a delimiter, and packets that have run together. What has lost its delimiter stays in
  the reader and spoils the packet after it: a reply that does costs two calls.
  Callbacks that re-enter the device: they never leave memory or loop, at any depth; but a poll in a callback
  reorders the streams, a call in a callback swaps the replies of the two calls, and a callback that
  raises while a call waits ends the program. Threads that share a device: under any schedule they stay safe,
  and under a fair one each comes to its end; a method that is not interrupted is the method as modelled in
  \<open>PyDevice\<close> and \<open>PyCall\<close> (the lemma that ties the two models together). But while awaits are not
  interrupted the replies go to the threads in the order in which these await, whoever sent first; and when
  they are, a thread that polls drops the reply another waits for, and of two threads inside \<open>read\<close> one may
  discard what the other received. C++ leaves open which operand of the sum in \<open>poll\<close> is evaluated first:
  \<open>Threads\<close> has both orders, \<open>PyDevice\<close> the one from left to right, which for a poll that nobody interrupts
  makes no difference (\<open>poll_orders_agree\<close>). The tests: every case that runs passes, the round-trip helpers on
  every input that fits, whatever their uninitialised arrays hold; calling any command over the
  loopback is running its handler.

  \<^bold>\<open>Bounds.\<close> A payload has at most 250 bytes, a raw block 254, a region 255, a packet 256; these
  are the code's constants. No fuel is used: the one loop that need not end, that of
  \<open>await_reply\<close>, is a \<open>partial_function\<close>, shown to return for every transport that supplies a
  finite sequence of chunks (the inductive predicate \<open>supplies\<close>); between two reads it is \<open>wait\<close>, a total
  function.

  \<^bold>\<open>Not modelled.\<close> How conversions to and from floating-point types round (a parameter of \<open>Convert\<close>),
  damage in which the receiver recognises a frame after all (one that nobody sent, or a packet whose delimiter
  arrives late), unscoped enumerations as arguments of another type, and arguments of types that have no codec; a handler that throws inside a \<open>noexcept\<close> function; pybind11's registration
  calls, its own casters and, beyond the switches of \<open>Threads\<close>, the interpreter lock; what a thread that
  another interrupts inside \<open>read\<close>, \<open>write\<close> or a callback has half done there; a transport object whose \<open>read\<close> or \<open>write\<close> re-enters the
  device; the test frameworks, what the test scripts print
  and the test case that only the compiler checks (\<open>Signature\<close> states its subject); the build files.
\<close>

end
